(* ===== verification/Prelude.thy ===== *)
theory Prelude
  imports Main "HOL-Library.Word" "HOL-Library.Sublist"
begin

text \<open>
  Shared vocabulary of the development: the machine types of the crate, I/O errors as values,
  the two ways in which the code sequences fallible calls (the question-mark operator with its
  error conversion), decimal printing, and the little-endian coding of 32-bit words.

  Every effectful function of the model has a type \<open>'s \<Rightarrow> ('e + 'a) \<times> 's\<close>: it takes
  the state, and returns either an error (\<open>Inl\<close>) or a value (\<open>Inr\<close>) together with the
  state it leaves behind. An error keeps the state, as in Rust: effects made before the
  early return stay.
\<close>

unbundle bit_operations_syntax

named_theorems unfold_io \<open>unfolding of the sequencing operators\<close>
named_theorems os_simps \<open>how each system call reads and changes the system state\<close>
named_theorems codec_simps \<open>the frame header and the frame layout\<close>

section \<open>Machine types and errors\<close>

type_synonym byte = "8 word"
type_synonym u32 = "32 word"
type_synonym usize = nat
  \<comment> \<open>lengths, caps and counters; wrap-around is written out where it can happen\<close>

text \<open>The part of \<open>std::io::ErrorKind\<close> that the crate tells apart or can meet.\<close>

datatype io_kind =
    NotFound | PermissionDenied | ConnectionRefused | ConnectionReset | AlreadyExists
  | NotADirectory | IsADirectory | UnexpectedEofKind | Interrupted | WouldBlock | TimedOut
  | BrokenPipe | InvalidData | AddrInUse | StorageFull | OtherKind

datatype io_error = IoError (kind: io_kind) (message: string)

type_synonym ('s, 'e, 'a) fallible = "'s \<Rightarrow> ('e + 'a) \<times> 's"

section \<open>Sequencing of fallible calls\<close>

definition try_bind ::
  "('s, 'e, 'a) fallible \<Rightarrow> ('a \<Rightarrow> ('s, 'e, 'b) fallible) \<Rightarrow> ('s, 'e, 'b) fallible" where
  "try_bind m f s = (case m s of (Inl e, s') \<Rightarrow> (Inl e, s') | (Inr a, s') \<Rightarrow> f a s')"

definition map_err :: "('e \<Rightarrow> 'f) \<Rightarrow> ('s, 'e, 'a) fallible \<Rightarrow> ('s, 'f, 'a) fallible" where
  "map_err g m s = (case m s of (Inl e, s') \<Rightarrow> (Inl (g e), s') | (Inr a, s') \<Rightarrow> (Inr a, s'))"

definition ok :: "'a \<Rightarrow> ('s, 'e, 'a) fallible" where
  "ok a s = (Inr a, s)"

definition fail :: "'e \<Rightarrow> ('s, 'e, 'a) fallible" where
  "fail e s = (Inl e, s)"

declare try_bind_def [unfold_io] map_err_def [unfold_io] ok_def [unfold_io] fail_def [unfold_io]

lemma try_bind_Inl [simp]: "m s = (Inl e, s') \<Longrightarrow> try_bind m f s = (Inl e, s')"
  by (simp add: try_bind_def)

lemma try_bind_Inr [simp]: "m s = (Inr a, s') \<Longrightarrow> try_bind m f s = f a s'"
  by (simp add: try_bind_def)

lemma map_err_Inl [simp]: "m s = (Inl e, s') \<Longrightarrow> map_err g m s = (Inl (g e), s')"
  by (simp add: map_err_def)

lemma map_err_Inr [simp]: "m s = (Inr a, s') \<Longrightarrow> map_err g m s = (Inr a, s')"
  by (simp add: map_err_def)

lemma try_bind_eq_InrE:
  assumes "try_bind m f s = (Inr b, t)"
  obtains a s' where "m s = (Inr a, s')" "f a s' = (Inr b, t)"
  using assms by (auto simp: try_bind_def split: prod.splits sum.splits)

lemma try_bind_eq_InlE:
  assumes "try_bind m f s = (Inl e, t)"
  obtains "m s = (Inl e, t)" | a s' where "m s = (Inr a, s')" "f a s' = (Inl e, t)"
  using assms by (auto simp: try_bind_def split: prod.splits sum.splits)

lemma map_err_eq_InrD: "map_err g m s = (Inr a, t) \<Longrightarrow> m s = (Inr a, t)"
  by (auto simp: map_err_def split: prod.splits sum.splits)

lemma map_err_eq_InlE:
  assumes "map_err g m s = (Inl f, t)"
  obtains e where "m s = (Inl e, t)" "f = g e"
  using assms by (auto simp: map_err_def split: prod.splits sum.splits)

lemma ok_eq [simp]: "ok a s = (r, t) \<longleftrightarrow> r = Inr a \<and> t = s"
  by (auto simp: ok_def)

lemma fail_eq [simp]: "fail e s = (r, t) \<longleftrightarrow> r = Inl e \<and> t = s"
  by (auto simp: fail_def)

text \<open>
  A state predicate that two calls keep is kept by their composition, whichever of them
  fails. The frame lemmas of the components are instances.
\<close>

lemma try_bind_keeps:
  assumes "P (snd (m s))" and "\<And>a s'. P s' \<Longrightarrow> P (snd (f a s'))"
  shows "P (snd (try_bind m f s))"
  using assms by (cases "m s") (auto simp: try_bind_def split: sum.splits)

lemma map_err_snd [simp]: "snd (map_err g m s) = snd (m s)"
  by (cases "m s") (auto simp: map_err_def split: sum.splits)

text \<open>
  A change of the state that a call does not notice: the call gives the same result and leaves the
  changed version of the state it would have left. The sequencing operators pass this on.
\<close>

definition commutes :: "('s \<Rightarrow> 's) \<Rightarrow> ('s \<Rightarrow> 'r \<times> 's) \<Rightarrow> bool" where
  "commutes g m \<longleftrightarrow> (\<forall>s. m (g s) = apsnd g (m s))"

named_theorems commutes_intros \<open>calls that do not notice a change of the state\<close>

lemma commutesI: "(\<And>s r t. m s = (r, t) \<Longrightarrow> m (g s) = (r, g t)) \<Longrightarrow> commutes g m"
  by (simp add: commutes_def apsnd_def map_prod_def split: prod.split)

lemma commutesD: "commutes g m \<Longrightarrow> m s = (r, t) \<Longrightarrow> m (g s) = (r, g t)"
  by (simp add: commutes_def)

lemma commutes_try_bind [commutes_intros]:
  assumes "commutes g m" and "\<And>a. commutes g (f a)"
  shows "commutes g (try_bind m f)"
proof (rule commutesI)
  fix s r t
  assume run: "try_bind m f s = (r, t)"
  obtain r1 s1 where m: "m s = (r1, s1)" by fastforce
  from commutesD [OF assms(1) m] have "m (g s) = (r1, g s1)" .
  with run m assms(2) show "try_bind m f (g s) = (r, g t)"
    by (cases r1) (auto simp: commutesD)
qed

lemma commutes_map_err [commutes_intros]: "commutes g m \<Longrightarrow> commutes g (map_err h m)"
  by (auto intro!: commutesI simp: map_err_def commutes_def split: prod.splits sum.splits)

lemma commutes_ok [commutes_intros]: "commutes g (ok a)"
  by (rule commutesI) simp

lemma commutes_fail [commutes_intros]: "commutes g (fail e)"
  by (rule commutesI) simp

section \<open>Lists\<close>

lemma in_set_tl: "x \<in> set (tl xs) \<Longrightarrow> x \<in> set xs"
  by (cases xs) auto

section \<open>Runs of a step relation\<close>

text \<open>
  The state machines of the development are step relations labelled with actions; a run is a list
  of them. An invariant of the steps taken is an invariant of the run.
\<close>

inductive runs :: "('s \<Rightarrow> 'a \<Rightarrow> 's \<Rightarrow> bool) \<Rightarrow> 's \<Rightarrow> 'a list \<Rightarrow> 's \<Rightarrow> bool"
  for step :: "'s \<Rightarrow> 'a \<Rightarrow> 's \<Rightarrow> bool" where
  halt: "runs step s [] s"
| more: "step s a s' \<Longrightarrow> runs step s' as s'' \<Longrightarrow> runs step s (a # as) s''"

inductive_simps runs_Nil [simp]: "runs step s [] s'"
inductive_simps runs_Cons: "runs step s (a # as) s'"

lemma runs_append: "runs step s (as @ bs) s'' \<longleftrightarrow> (\<exists>s'. runs step s as s' \<and> runs step s' bs s'')"
  by (induction as arbitrary: s) (auto simp: runs_Cons)

lemma runs_single: "step s a s' \<Longrightarrow> runs step s [a] s'"
  by (simp add: runs_Cons)

lemma runs_invariant:
  assumes "runs step s as s'" and "P s"
    and "\<And>s a s'. a \<in> set as \<Longrightarrow> step s a s' \<Longrightarrow> P s \<Longrightarrow> P s'"
  shows "P s'"
  using assms by (induction rule: runs.induct) auto

section \<open>Decimal printing\<close>

text \<open>The \<open>Display\<close> form of an unsigned integer, for the messages that embed a pid.\<close>

definition digit_char :: "nat \<Rightarrow> char" where
  "digit_char d = char_of (48 + d)"

fun show_nat :: "nat \<Rightarrow> string" where
  "show_nat n = (if n < 10 then [digit_char n] else show_nat (n div 10) @ [digit_char (n mod 10)])"

declare show_nat.simps [simp del]

lemma show_nat_nonempty: "show_nat n \<noteq> []"
  by (subst show_nat.simps) simp

section \<open>Little-endian coding of 32-bit words\<close>

definition u32_to_le_bytes :: "u32 \<Rightarrow> byte list" where
  "u32_to_le_bytes w =
     [ucast w, ucast (drop_bit 8 w), ucast (drop_bit 16 w), ucast (drop_bit 24 w)]"

fun u32_from_le_bytes :: "byte list \<Rightarrow> u32" where
  "u32_from_le_bytes [a, b, c, d] =
     ucast a OR push_bit 8 (ucast b) OR push_bit 16 (ucast c) OR push_bit 24 (ucast d)"
| "u32_from_le_bytes _ = 0"
  \<comment> \<open>never reached: the Rust argument is an array of exactly four bytes\<close>

lemma length_u32_to_le_bytes [codec_simps, simp]: "length (u32_to_le_bytes w) = 4"
  by (simp add: u32_to_le_bytes_def)

lemma byte_bit_out_of_range: "8 \<le> n \<Longrightarrow> \<not> bit (b :: byte) n"
  by (auto dest: bit_imp_le_length)

lemma u32_le_roundtrip [codec_simps, simp]: "u32_from_le_bytes (u32_to_le_bytes w) = w"
proof (rule bit_word_eqI)
  fix n :: nat
  assume "n < LENGTH(32)"
  then consider "n < 8" | "8 \<le> n" "n < 16" | "16 \<le> n" "n < 24" | "24 \<le> n" "n < 32"
    by fastforce
  then show "bit (u32_from_le_bytes (u32_to_le_bytes w)) n = bit w n"
    by cases (auto simp: u32_to_le_bytes_def bit_simps)
qed

lemma list4_cases:
  assumes "length xs = 4"
  obtains a b c d where "xs = [a, b, c, d]"
  using assms by (auto simp: numeral_eq_Suc length_Suc_conv)

lemma u32_le_inverse:
  assumes "length bs = 4"
  shows "u32_to_le_bytes (u32_from_le_bytes bs) = bs"
proof -
  from assms obtain a b c d where bs: "bs = [a, b, c, d]" by (rule list4_cases)
  show ?thesis
    unfolding bs u32_from_le_bytes.simps u32_to_le_bytes_def
    by (auto intro!: bit_word_eqI simp: bit_simps byte_bit_out_of_range)
qed

end
