(* ===== verification/Streams.thy ===== *)
theory Streams
  imports Prelude
begin

text \<open>
  The byte streams the crate reads from and writes to, as the standard library gives them:
  the \<open>Read\<close> implementation of a byte slice and of \<open>UnixStream\<close>, and the \<open>Write\<close>
  implementation of \<open>Vec<u8>\<close> and of \<open>UnixStream\<close>. The two traits are the locales
  \<open>byte_source\<close> and \<open>byte_sink\<close>: what a reader or a writer promises to the framing
  codec. The four implementations are their interpretations.
\<close>

section \<open>The unix stream\<close>

text \<open>
  The receive side of a connected socket is what the peer and the kernel will still hand out:
  a list of chunks, each either data (one or several \<open>read\<close> calls' worth) or an error that
  the next \<open>read\<close> returns. The list's end is the end of file. The send side is what the peer
  has been sent so far, and how much more the kernel takes before \<open>write\<close> fails with a
  given error (\<open>None\<close>: it never fails). \<open>stream_id\<close> is the descriptor, by which the
  kernel answers questions about the peer.
\<close>

datatype chunk = Data "byte list" | Broken io_error

record unix_stream =
  stream_id :: nat
  incoming :: "chunk list"
  outgoing :: "byte list"
  out_room :: "(nat \<times> io_error) option"

fun chunks_read :: "chunk list \<Rightarrow> nat \<Rightarrow> (io_error + byte list) \<times> chunk list" where
  "chunks_read [] n = (Inr [], [])"
| "chunks_read (Data bs # cs) n =
     (if bs = [] then chunks_read cs n
      else (Inr (take n bs), if n < length bs then Data (drop n bs) # cs else cs))"
| "chunks_read (Broken e # cs) n = (Inl e, cs)"

definition stream_read :: "unix_stream \<Rightarrow> nat \<Rightarrow> (io_error + byte list) \<times> unix_stream" where
  "stream_read s n = (case chunks_read (incoming s) n of (r, cs) \<Rightarrow> (r, s\<lparr>incoming := cs\<rparr>))"

definition stream_write_all :: "byte list \<Rightarrow> (unix_stream, io_error, unit) fallible" where
  "stream_write_all bs s =
     (case out_room s of
        None \<Rightarrow> (Inr (), s\<lparr>outgoing := outgoing s @ bs\<rparr>)
      | Some (k, e) \<Rightarrow>
          if length bs \<le> k
          then (Inr (), s\<lparr>outgoing := outgoing s @ bs, out_room := Some (k - length bs, e)\<rparr>)
          else (Inl e, s\<lparr>outgoing := outgoing s @ take k bs, out_room := Some (0, e)\<rparr>))"

definition stream_flush :: "(unix_stream, io_error, unit) fallible" where
  "stream_flush s = (Inr (), s)"

section \<open>Slices and vectors\<close>

definition slice_read :: "byte list \<Rightarrow> nat \<Rightarrow> (io_error + byte list) \<times> byte list" where
  "slice_read bs n = (Inr (take n bs), drop n bs)"

definition vec_write_all :: "byte list \<Rightarrow> (byte list, io_error, unit) fallible" where
  "vec_write_all bs v = (Inr (), v @ bs)"

definition vec_flush :: "(byte list, io_error, unit) fallible" where
  "vec_flush v = (Inr (), v)"

section \<open>What is still to come on a stream\<close>

text \<open>The bytes a reader gets before the stream ends, and how it ends.\<close>

fun chunks_pending :: "chunk list \<Rightarrow> byte list" where
  "chunks_pending [] = []"
| "chunks_pending (Data bs # cs) = bs @ chunks_pending cs"
| "chunks_pending (Broken e # cs) = []"

fun chunks_ending :: "chunk list \<Rightarrow> io_error option" where
  "chunks_ending [] = None"
| "chunks_ending (Data bs # cs) = chunks_ending cs"
| "chunks_ending (Broken e # cs) = Some e"

abbreviation pending :: "unix_stream \<Rightarrow> byte list" where
  "pending s \<equiv> chunks_pending (incoming s)"

abbreviation ending :: "unix_stream \<Rightarrow> io_error option" where
  "ending s \<equiv> chunks_ending (incoming s)"

text \<open>
  The size of a stream counts everything that can still be read, data after an error
  included: the measure of the loops that consume a connection.
\<close>

fun chunk_weight :: "chunk \<Rightarrow> nat" where
  "chunk_weight (Data bs) = length bs"
| "chunk_weight (Broken e) = 1"

instantiation unix_stream_ext :: (type) size
begin

definition size_unix_stream_ext :: "'a unix_stream_ext \<Rightarrow> nat" where
  "size_unix_stream_ext s = sum_list (map chunk_weight (incoming s))"

instance ..

end

lemma chunks_read_size:
  "chunks_read cs n = (r, cs') \<Longrightarrow>
   sum_list (map chunk_weight cs') +
     (case r of Inl e \<Rightarrow> 1 | Inr bs \<Rightarrow> length bs) \<le> sum_list (map chunk_weight cs)"
  by (induction cs n rule: chunks_read.induct) (auto split: if_splits)

section \<open>The interface of a reader\<close>

text \<open>
  \<open>pend r\<close> are the bytes the reader still delivers, \<open>fin r\<close> how it ends: \<open>None\<close> at
  the end of file, \<open>Some e\<close> when the next read after them fails with \<open>e\<close>. A read hands
  out a prefix of them, never more than asked for, and an empty one only at the end of file
  (the contract of \<open>std::io::Read\<close>).
\<close>

locale byte_source =
  fixes rd :: "'r \<Rightarrow> nat \<Rightarrow> (io_error + byte list) \<times> 'r"
    and pend :: "'r \<Rightarrow> byte list"
    and fin :: "'r \<Rightarrow> io_error option"
  assumes read_at_most: "rd r n = (Inr bs, r') \<Longrightarrow> length bs \<le> n"
    and read_prefix: "rd r n = (Inr bs, r') \<Longrightarrow> pend r = bs @ pend r'"
    and read_keeps_end: "rd r n = (Inr bs, r') \<Longrightarrow> fin r' = fin r"
    and read_eof: "rd r n = (Inr [], r') \<Longrightarrow> 0 < n \<Longrightarrow> pend r = [] \<and> fin r = None"
    and read_error: "rd r n = (Inl e, r') \<Longrightarrow> pend r = [] \<and> fin r = Some e"

section \<open>The interface of a writer\<close>

text \<open>
  \<open>sent w\<close> is what has reached the other side. \<open>write_all\<close> adds all of its argument or
  fails after a proper prefix of it; \<open>flush\<close> adds nothing.
\<close>

locale byte_sink =
  fixes wr :: "byte list \<Rightarrow> ('w, io_error, unit) fallible"
    and fl :: "('w, io_error, unit) fallible"
    and sent :: "'w \<Rightarrow> byte list"
  assumes write_ok: "wr bs w = (Inr u, w') \<Longrightarrow> sent w' = sent w @ bs"
    and write_fail: "wr bs w = (Inl e, w') \<Longrightarrow> \<exists>k < length bs. sent w' = sent w @ take k bs"
    and flush_sends_nothing: "sent (snd (fl w)) = sent w"

section \<open>The implementations keep the interfaces\<close>

lemma chunks_read_at_most: "chunks_read cs n = (Inr bs, cs') \<Longrightarrow> length bs \<le> n"
  by (induction cs n rule: chunks_read.induct) (auto split: if_splits)

lemma chunks_read_prefix:
  "chunks_read cs n = (Inr bs, cs') \<Longrightarrow> chunks_pending cs = bs @ chunks_pending cs'"
  by (induction cs n rule: chunks_read.induct) (auto split: if_splits)

lemma chunks_read_keeps_end:
  "chunks_read cs n = (Inr bs, cs') \<Longrightarrow> chunks_ending cs' = chunks_ending cs"
  by (induction cs n rule: chunks_read.induct) (auto split: if_splits)

lemma chunks_read_eof:
  "chunks_read cs n = (Inr [], cs') \<Longrightarrow> 0 < n \<Longrightarrow> chunks_pending cs = [] \<and> chunks_ending cs = None"
  by (induction cs n rule: chunks_read.induct) (auto split: if_splits)

lemma chunks_read_error:
  "chunks_read cs n = (Inl e, cs') \<Longrightarrow> chunks_pending cs = [] \<and> chunks_ending cs = Some e"
  by (induction cs n rule: chunks_read.induct) (auto split: if_splits)

lemmas chunks_read_facts =
  chunks_read_at_most chunks_read_prefix chunks_read_keeps_end chunks_read_eof chunks_read_error

lemma stream_read_chunks:
  assumes "stream_read s n = (r, s')"
  obtains cs where "chunks_read (incoming s) n = (r, cs)" "s' = s\<lparr>incoming := cs\<rparr>"
  using assms by (auto simp: stream_read_def split: prod.splits)

interpretation socket_in: byte_source stream_read pending ending
  by unfold_locales (auto elim!: stream_read_chunks dest: chunks_read_facts)

interpretation slice_in: byte_source slice_read "\<lambda>bs. bs" "\<lambda>_. None"
  by unfold_locales (auto simp: slice_read_def)

interpretation socket_out: byte_sink stream_write_all stream_flush outgoing
proof unfold_locales
  fix bs and w w' :: unix_stream and e
  assume "stream_write_all bs w = (Inl e, w')"
  then obtain k e' where "out_room w = Some (k, e')" "\<not> length bs \<le> k"
      "outgoing w' = outgoing w @ take k bs"
    by (auto simp: stream_write_all_def split: option.splits if_splits)
  then show "\<exists>k < length bs. outgoing w' = outgoing w @ take k bs"
    by (intro exI[of _ k]) auto
qed (auto simp: stream_write_all_def stream_flush_def split: option.splits if_splits)

interpretation vec_out: byte_sink vec_write_all vec_flush "\<lambda>v. v"
  by unfold_locales (auto simp: vec_write_all_def vec_flush_def)

lemma stream_read_size:
  assumes "stream_read s n = (r, s')"
  shows "size s' + (case r of Inl e \<Rightarrow> 1 | Inr bs \<Rightarrow> length bs) \<le> size s"
  using assms by (auto elim!: stream_read_chunks dest!: chunks_read_size
      simp: size_unix_stream_ext_def)

lemma stream_write_all_frame:
  "incoming (snd (stream_write_all bs s)) = incoming s"
  "stream_id (snd (stream_write_all bs s)) = stream_id s"
  by (auto simp: stream_write_all_def split: option.splits)

lemma stream_write_all_no_limit:
  "out_room s = None \<Longrightarrow> stream_write_all bs s = (Inr (), s\<lparr>outgoing := outgoing s @ bs\<rparr>)"
  by (simp add: stream_write_all_def)

end
