(* ===== verification/Frame.thy ===== *)
theory Frame
  imports Streams
begin

text \<open>
  The framing codec of \<open>ipc/frame.rs\<close>: a payload travels as a 4-byte little-endian length and
  then the bytes. Readers and writers are parameters of every function, as the type parameters
  \<open>R: Read\<close> and \<open>W: Write\<close> are in the source; the JSON coder is a parameter because
  \<open>serde_json\<close> is not part of the repository. The results: the decoder does not depend on
  how the kernel splits the bytes, frames written are frames read back, a failed write leaves a
  proper prefix of the frame, and the 4-byte header saturates beyond \<open>u32::MAX\<close>.
\<close>

section \<open>Errors and constants\<close>

definition DEFAULT_MAX_FRAME_BYTES :: usize where
  "DEFAULT_MAX_FRAME_BYTES = 1024 * 1024"

definition HEADER_LEN :: usize where
  "HEADER_LEN = 4"

text \<open>
  Of \<open>serde_json::Error\<close>, which is not in the repository, the crate uses the display
  string only.
\<close>

datatype json_error = JsonError (json_message: string)

datatype frame_error =
    TooLarge (too_large_len: usize) (too_large_max: usize)
  | UnexpectedEof (eof_read: usize) (eof_needed: usize)
  | Json json_error
  | Io io_error

text \<open>The display text of the four variants, up to that of the underlying error.\<close>

fun frame_error_display :: "frame_error \<Rightarrow> string" where
  "frame_error_display (TooLarge len mx) =
     ''frame length '' @ show_nat len @ '' too large (max '' @ show_nat mx @ '' bytes)''"
| "frame_error_display (UnexpectedEof rd needed) =
     ''connection closed: read '' @ show_nat rd @ '' of '' @ show_nat needed @ '' bytes''"
| "frame_error_display (Json e) = ''json codec error: '' @ json_message e"
| "frame_error_display (Io e) = ''io error: '' @ message e"

section \<open>Writing\<close>

text \<open>\<open>u32::try_from(len).unwrap_or(u32::MAX)\<close>\<close>

definition frame_header_len :: "usize \<Rightarrow> u32" where
  "frame_header_len len = (if len < 2 ^ 32 then of_nat len else 2 ^ 32 - 1)"

definition write_frame_bytes ::
  "(byte list \<Rightarrow> ('w, io_error, unit) fallible) \<Rightarrow> ('w, io_error, unit) fallible \<Rightarrow>
   byte list \<Rightarrow> usize \<Rightarrow> ('w, frame_error, unit) fallible" where
  "write_frame_bytes write_all flush payload max_frame writer =
     (let len = length payload in
      if len > max_frame then fail (TooLarge len max_frame) writer
      else let header = u32_to_le_bytes (frame_header_len len) in
        try_bind (map_err Io (write_all header)) (\<lambda>_.
        try_bind (map_err Io (write_all payload)) (\<lambda>_.
        try_bind (map_err Io flush) (\<lambda>_. ok ()))) writer)"

definition write_frame_with_limit ::
  "(byte list \<Rightarrow> ('w, io_error, unit) fallible) \<Rightarrow> ('w, io_error, unit) fallible \<Rightarrow>
   ('m \<Rightarrow> json_error + byte list) \<Rightarrow> 'm \<Rightarrow> usize \<Rightarrow> ('w, frame_error, unit) fallible" where
  "write_frame_with_limit write_all flush to_vec msg max_frame writer =
     (case to_vec msg of
        Inl e \<Rightarrow> fail (Json e) writer
      | Inr payload \<Rightarrow> write_frame_bytes write_all flush payload max_frame writer)"

definition write_frame ::
  "(byte list \<Rightarrow> ('w, io_error, unit) fallible) \<Rightarrow> ('w, io_error, unit) fallible \<Rightarrow>
   ('m \<Rightarrow> json_error + byte list) \<Rightarrow> 'm \<Rightarrow> ('w, frame_error, unit) fallible" where
  "write_frame write_all flush to_vec msg =
     write_frame_with_limit write_all flush to_vec msg DEFAULT_MAX_FRAME_BYTES"

section \<open>Reading\<close>

text \<open>
  The loop of \<open>read_exact\<close>: \<open>filled\<close> holds the bytes already in the buffer. An error of
  the reader ends it at once, \<open>Interrupted\<close> included; an empty read is the end of file.
  Every other read makes progress, so the loop ends for any reader.
\<close>

function read_exact_from ::
  "('r \<Rightarrow> nat \<Rightarrow> (io_error + byte list) \<times> 'r) \<Rightarrow> usize \<Rightarrow> byte list \<Rightarrow>
   ('r, frame_error, byte list) fallible" where
  "read_exact_from rd needed filled reader =
     (if length filled < needed then
        (case rd reader (needed - length filled) of
           (Inl e, reader') \<Rightarrow> (Inl (Io e), reader')
         | (Inr bs, reader') \<Rightarrow>
             if bs = [] then (Inl (UnexpectedEof (length filled) needed), reader')
             else read_exact_from rd needed (filled @ bs) reader')
      else (Inr filled, reader))"
  by pat_completeness auto
termination
  by (relation "measure (\<lambda>(rd, needed, filled, reader). needed - length filled)")
    (auto simp: diff_less_mono2)

declare read_exact_from.simps [simp del]

definition read_exact ::
  "('r \<Rightarrow> nat \<Rightarrow> (io_error + byte list) \<times> 'r) \<Rightarrow> usize \<Rightarrow>
   ('r, frame_error, byte list) fallible" where
  "read_exact rd needed = read_exact_from rd needed []"

definition read_frame_bytes ::
  "('r \<Rightarrow> nat \<Rightarrow> (io_error + byte list) \<times> 'r) \<Rightarrow> usize \<Rightarrow>
   ('r, frame_error, byte list) fallible" where
  "read_frame_bytes rd max_frame =
     try_bind (read_exact rd HEADER_LEN) (\<lambda>header reader.
       let len = unat (u32_from_le_bytes header) in
       if len > max_frame then fail (TooLarge len max_frame) reader
       else read_exact rd len reader)"

definition read_frame_with_limit ::
  "('r \<Rightarrow> nat \<Rightarrow> (io_error + byte list) \<times> 'r) \<Rightarrow> (byte list \<Rightarrow> json_error + 'm) \<Rightarrow> usize \<Rightarrow>
   ('r, frame_error, 'm) fallible" where
  "read_frame_with_limit rd from_slice max_frame =
     try_bind (read_frame_bytes rd max_frame) (\<lambda>payload.
       case from_slice payload of Inl e \<Rightarrow> fail (Json e) | Inr m \<Rightarrow> ok m)"

definition read_frame ::
  "('r \<Rightarrow> nat \<Rightarrow> (io_error + byte list) \<times> 'r) \<Rightarrow> (byte list \<Rightarrow> json_error + 'm) \<Rightarrow>
   ('r, frame_error, 'm) fallible" where
  "read_frame rd from_slice = read_frame_with_limit rd from_slice DEFAULT_MAX_FRAME_BYTES"

section \<open>What reading does to a reader, whatever it is\<close>

text \<open>
  A property every single read keeps is kept by the codec; and where a measure of the reader
  drops with every byte read, it drops by the whole frame.
\<close>

lemma read_exact_from_keeps:
  assumes "\<And>r n. P r \<Longrightarrow> P (snd (rd r n))" and "P r"
  shows "P (snd (read_exact_from rd needed filled r))"
  using assms(2)
proof (induction "needed - length filled" arbitrary: filled r rule: less_induct)
  case less
  obtain res r' where rd: "rd r (needed - length filled) = (res, r')" by fastforce
  with assms(1) [OF less.prems, of "needed - length filled"] have "P r'" by simp
  with less rd show ?case
    by (cases res) (auto simp: read_exact_from.simps [of rd needed filled r] diff_less_mono2)
qed

lemma read_frame_bytes_keeps:
  assumes "\<And>r n. P r \<Longrightarrow> P (snd (rd r n))" and "P r"
  shows "P (snd (read_frame_bytes rd m r))"
  unfolding read_frame_bytes_def read_exact_def
proof (rule try_bind_keeps)
  show "P (snd (read_exact_from rd HEADER_LEN [] r))"
    using assms by (rule read_exact_from_keeps)
  fix h r'
  assume "P r'"
  with read_exact_from_keeps [of P rd r', OF assms(1)] show
    "P (snd (let len = unat (u32_from_le_bytes h) in if m < len then fail (TooLarge len m) r'
       else read_exact_from rd len [] r'))"
    by (simp add: Let_def fail_def)
qed

lemma read_exact_from_consumes:
  assumes "\<And>r n bs r'. rd r n = (Inr bs, r') \<Longrightarrow> weight r' + length bs \<le> weight r"
    and "read_exact_from rd needed filled r = (Inr bs, r')"
  shows "weight r' + (needed - length filled) \<le> (weight r :: nat)"
  using assms(2)
proof (induction "needed - length filled" arbitrary: filled r rule: less_induct)
  case less
  show ?case
  proof (cases "length filled < needed")
    case False
    with less.prems show ?thesis by (simp add: read_exact_from.simps [of rd needed filled r])
  next
    case more: True
    with less.prems obtain cs r1 where rd: "rd r (needed - length filled) = (Inr cs, r1)"
      and ne: "cs \<noteq> []" and go: "read_exact_from rd needed (filled @ cs) r1 = (Inr bs, r')"
      by (auto simp: read_exact_from.simps [of rd needed filled r] split: prod.splits sum.splits if_splits)
    have "weight r' + (needed - length (filled @ cs)) \<le> weight r1"
      using ne more by (intro less.hyps go) (auto simp: diff_less_mono2)
    with assms(1) [OF rd] show ?thesis by simp
  qed
qed

lemma read_frame_bytes_consumes:
  assumes drop: "\<And>r n bs r'. rd r n = (Inr bs, r') \<Longrightarrow> weight r' + length bs \<le> weight r"
    and "read_frame_bytes rd m r = (Inr p, r')"
  shows "weight r' + 4 \<le> (weight r :: nat)"
proof -
  from assms(2) obtain h r1 where h: "read_exact_from rd HEADER_LEN [] r = (Inr h, r1)"
    and p: "read_exact_from rd (unat (u32_from_le_bytes h)) [] r1 = (Inr p, r')"
    unfolding read_frame_bytes_def read_exact_def
    by (elim try_bind_eq_InrE) (auto simp: Let_def split: if_splits)
  have "weight r1 + (HEADER_LEN - length ([] :: byte list)) \<le> weight r"
    by (rule read_exact_from_consumes [OF _ h]) (rule drop)
  moreover have "weight r' + (unat (u32_from_le_bytes h) - length ([] :: byte list)) \<le> weight r1"
    by (rule read_exact_from_consumes [OF _ p]) (rule drop)
  ultimately show ?thesis by (simp add: HEADER_LEN_def)
qed

section \<open>The wire format, as a specification\<close>

text \<open>
  The reference the codec is measured against. \<open>frame_bytes\<close> is the byte string of one
  frame. \<open>exact_spec\<close> and \<open>frame_spec\<close> say what a reader gets from a given remaining
  byte string that ends in a given way; they look at the whole string at once.
\<close>

definition frame_bytes :: "byte list \<Rightarrow> byte list" where
  "frame_bytes payload = u32_to_le_bytes (frame_header_len (length payload)) @ payload"

definition exact_spec ::
  "usize \<Rightarrow> byte list \<Rightarrow> io_error option \<Rightarrow> frame_error + byte list" where
  "exact_spec needed bs stop =
     (if needed \<le> length bs then Inr (take needed bs)
      else case stop of None \<Rightarrow> Inl (UnexpectedEof (length bs) needed) | Some e \<Rightarrow> Inl (Io e))"

definition frame_spec ::
  "usize \<Rightarrow> byte list \<Rightarrow> io_error option \<Rightarrow> frame_error + byte list" where
  "frame_spec max_frame bs stop =
     (case exact_spec 4 bs stop of
        Inl e \<Rightarrow> Inl e
      | Inr header \<Rightarrow>
          (let len = unat (u32_from_le_bytes header) in
           if len > max_frame then Inl (TooLarge len max_frame)
           else exact_spec len (drop 4 bs) stop))"

lemma frame_header_len_small: "n < 2 ^ 32 \<Longrightarrow> unat (frame_header_len n) = n"
  by (simp add: frame_header_len_def unat_of_nat)

lemma frame_header_len_large: "2 ^ 32 \<le> n \<Longrightarrow> unat (frame_header_len n) = 2 ^ 32 - 1"
  by (simp add: frame_header_len_def)

lemma length_frame_bytes [simp]: "length (frame_bytes p) = 4 + length p"
  by (simp add: frame_bytes_def)

lemma frame_spec_of_frame_bytes:
  assumes "length p \<le> m" and "length p < 2 ^ 32"
  shows "frame_spec m (frame_bytes p @ rest) e = Inr p"
  using assms
  by (simp add: frame_spec_def exact_spec_def frame_bytes_def frame_header_len_small)

lemma frame_spec_too_large:
  assumes "m < unat w"
  shows "frame_spec m (u32_to_le_bytes w @ rest) e = Inl (TooLarge (unat w) m)"
  using assms by (simp add: frame_spec_def exact_spec_def)

section \<open>What every reader gives\<close>

text \<open>
  For a reader that keeps the contract, \<open>read_exact\<close> and \<open>read_frame_bytes\<close> compute the
  specification of the bytes still to come, whatever the sizes of the single reads; on success
  exactly those bytes are gone.
\<close>

context byte_source begin

lemma read_exact_from_spec:
  assumes "length filled \<le> needed"
  shows "fst (read_exact_from rd needed filled r) = exact_spec needed (filled @ pend r) (fin r)"
  using assms
proof (induction "needed - length filled" arbitrary: filled r rule: less_induct)
  case less
  show ?case
  proof (cases "length filled < needed")
    case False
    with less.prems show ?thesis
      by (simp add: read_exact_from.simps [of rd needed filled r] exact_spec_def)
  next
    case more: True
    obtain res r' where rd: "rd r (needed - length filled) = (res, r')" by fastforce
    show ?thesis
    proof (cases res)
      case (Inl e)
      with rd read_error have "pend r = [] \<and> fin r = Some e" by blast
      with more rd Inl show ?thesis
        by (simp add: read_exact_from.simps [of rd needed filled r] exact_spec_def)
    next
      case (Inr bs)
      show ?thesis
      proof (cases "bs = []")
        case True
        with rd Inr more read_eof have "pend r = [] \<and> fin r = None" by fastforce
        with more rd Inr True show ?thesis
          by (simp add: read_exact_from.simps [of rd needed filled r] exact_spec_def)
      next
        case False
        have len: "length bs \<le> needed - length filled" and pre: "pend r = bs @ pend r'"
          and fin: "fin r' = fin r"
          using rd Inr read_at_most read_prefix read_keeps_end by blast+
        have "fst (read_exact_from rd needed (filled @ bs) r') =
            exact_spec needed ((filled @ bs) @ pend r') (fin r')"
          using False len more by (intro less.hyps) (auto simp: diff_less_mono2)
        with more rd Inr False pre fin show ?thesis
          by (simp add: read_exact_from.simps [of rd needed filled r])
      qed
    qed
  qed
qed

lemma read_exact_from_rest:
  assumes "read_exact_from rd needed filled r = (Inr bs, r')" and "length filled \<le> needed"
  shows "pend r' = drop (needed - length filled) (pend r) \<and> fin r' = fin r"
  using assms
proof (induction "needed - length filled" arbitrary: filled r rule: less_induct)
  case less
  show ?case
  proof (cases "length filled < needed")
    case False
    with less.prems show ?thesis
      by (simp add: read_exact_from.simps [of rd needed filled r])
  next
    case more: True
    with less.prems obtain cs r1 where rd: "rd r (needed - length filled) = (Inr cs, r1)"
      and ne: "cs \<noteq> []" and go: "read_exact_from rd needed (filled @ cs) r1 = (Inr bs, r')"
      by (auto simp: read_exact_from.simps [of rd needed filled r] split: prod.splits sum.splits if_splits)
    have len: "length cs \<le> needed - length filled" and pre: "pend r = cs @ pend r1"
      and fin: "fin r1 = fin r"
      using rd read_at_most read_prefix read_keeps_end by blast+
    have "pend r' = drop (needed - length (filled @ cs)) (pend r1) \<and> fin r' = fin r1"
      using ne len more by (intro less.hyps go) (auto simp: diff_less_mono2)
    with len pre fin show ?thesis by simp
  qed
qed

lemma read_exact_spec: "fst (read_exact rd n r) = exact_spec n (pend r) (fin r)"
  by (simp add: read_exact_def read_exact_from_spec)

lemma read_exact_rest:
  "read_exact rd n r = (Inr bs, r') \<Longrightarrow> pend r' = drop n (pend r) \<and> fin r' = fin r"
  by (auto simp: read_exact_def dest: read_exact_from_rest)

lemma read_frame_bytes_spec:
  "fst (read_frame_bytes rd m r) = frame_spec m (pend r) (fin r)"
proof (cases "read_exact rd HEADER_LEN r")
  case (Pair res r')
  have hd: "exact_spec 4 (pend r) (fin r) = res"
    using read_exact_spec [of HEADER_LEN r] Pair by (simp add: HEADER_LEN_def)
  show ?thesis
  proof (cases res)
    case (Inl e)
    with Pair hd show ?thesis by (simp add: read_frame_bytes_def frame_spec_def)
  next
    case (Inr h)
    with Pair have rest: "pend r' = drop 4 (pend r) \<and> fin r' = fin r"
      using read_exact_rest by (fastforce simp: HEADER_LEN_def)
    from Pair Inr hd rest show ?thesis
      by (simp add: read_frame_bytes_def frame_spec_def Let_def fail_def read_exact_spec)
  qed
qed

lemma read_frame_bytes_rest:
  assumes "read_frame_bytes rd m r = (Inr p, r')"
  shows "pend r' = drop (4 + length p) (pend r) \<and> fin r' = fin r \<and> length p \<le> m"
proof -
  from assms obtain h r1 where h: "read_exact rd HEADER_LEN r = (Inr h, r1)"
    and m: "unat (u32_from_le_bytes h) \<le> m"
    and p: "read_exact rd (unat (u32_from_le_bytes h)) r1 = (Inr p, r')"
    unfolding read_frame_bytes_def
    by (elim try_bind_eq_InrE) (auto simp: Let_def not_less split: if_splits)
  have "length p = unat (u32_from_le_bytes h)"
    using read_exact_spec [of "unat (u32_from_le_bytes h)" r1] p
    by (auto simp: exact_spec_def split: if_splits option.splits)
  with m read_exact_rest [OF h] read_exact_rest [OF p] show ?thesis
    by (simp add: HEADER_LEN_def add.commute)
qed

lemma read_frame_bytes_after_frame:
  assumes "pend r = frame_bytes p @ rest" and "length p \<le> m" and "length p < 2 ^ 32"
  shows "\<exists>r'. read_frame_bytes rd m r = (Inr p, r') \<and> pend r' = rest \<and> fin r' = fin r"
proof -
  have "fst (read_frame_bytes rd m r) = Inr p"
    using assms by (simp add: read_frame_bytes_spec frame_spec_of_frame_bytes)
  then obtain r' where r': "read_frame_bytes rd m r = (Inr p, r')"
    by (cases "read_frame_bytes rd m r") auto
  with assms(1) read_frame_bytes_rest [OF r'] show ?thesis by (auto simp: frame_bytes_def)
qed

end

section \<open>What every writer is sent\<close>

text \<open>A successful write sends one whole frame, a failed one a prefix of it.\<close>

context byte_sink begin

lemma write_frame_bytes_sent:
  assumes "write_frame_bytes wr fl p m w = (Inr u, w')"
  shows "length p \<le> m \<and> sent w' = sent w @ frame_bytes p"
proof -
  from assms obtain w1 w2 where m: "length p \<le> m"
    and "wr (u32_to_le_bytes (frame_header_len (length p))) w = (Inr (), w1)"
    and "wr p w1 = (Inr (), w2)" and "fl w2 = (Inr (), w')"
    by (auto simp: write_frame_bytes_def Let_def elim!: try_bind_eq_InrE dest!: map_err_eq_InrD
        split: if_splits)
  with flush_sends_nothing [of w2] show ?thesis
    by (auto simp: frame_bytes_def dest!: write_ok)
qed

lemma write_frame_bytes_failed:
  assumes "write_frame_bytes wr fl p m w = (Inl e, w')" and "\<not> length p > m"
  shows "\<exists>k \<le> length (frame_bytes p). sent w' = sent w @ take k (frame_bytes p)"
proof -
  let ?h = "u32_to_le_bytes (frame_header_len (length p))"
  from assms consider (header) e' where "wr ?h w = (Inl e', w')"
    | (payload) w1 e' where "wr ?h w = (Inr (), w1)" "wr p w1 = (Inl e', w')"
    | (flush) w1 w2 e' where "wr ?h w = (Inr (), w1)" "wr p w1 = (Inr (), w2)" "fl w2 = (Inl e', w')"
    by (auto simp: write_frame_bytes_def Let_def elim!: try_bind_eq_InlE
        dest!: map_err_eq_InrD elim!: map_err_eq_InlE)
  then show ?thesis
  proof cases
    case header
    then obtain k where "k < length ?h" "sent w' = sent w @ take k ?h" using write_fail by blast
    then show ?thesis by (intro exI[of _ k]) (auto simp: frame_bytes_def)
  next
    case payload
    then obtain k where "k < length p" "sent w' = sent w1 @ take k p" using write_fail by blast
    with write_ok [OF payload(1)] show ?thesis
      by (intro exI[of _ "4 + k"]) (auto simp: frame_bytes_def)
  next
    case flush
    with write_ok [OF flush(1)] write_ok [OF flush(2)] flush_sends_nothing [of w2]
    show ?thesis by (intro exI[of _ "4 + length p"]) (auto simp: frame_bytes_def)
  qed
qed
end

section \<open>The codec over sockets\<close>

lemma write_frame_bytes_socket:
  assumes "out_room w = None" and "length p \<le> m"
  shows "write_frame_bytes stream_write_all stream_flush p m w =
    (Inr (), w\<lparr>outgoing := outgoing w @ frame_bytes p\<rparr>)"
  using assms
  by (simp add: write_frame_bytes_def Let_def frame_bytes_def stream_write_all_def stream_flush_def
      unfold_io)

lemma write_frame_bytes_socket_failed:
  assumes "write_frame_bytes stream_write_all stream_flush p m w = (Inl e, w')" and "length p \<le> m"
  shows "\<exists>k < length (frame_bytes p). outgoing w' = outgoing w @ take k (frame_bytes p)"
proof -
  let ?h = "u32_to_le_bytes (frame_header_len (length p))"
  from assms consider (header) e' where "stream_write_all ?h w = (Inl e', w')"
    | (payload) w1 e' where "stream_write_all ?h w = (Inr (), w1)" "stream_write_all p w1 = (Inl e', w')"
    by (auto simp: write_frame_bytes_def Let_def stream_flush_def elim!: try_bind_eq_InlE
        dest!: map_err_eq_InrD elim!: map_err_eq_InlE)
  then show ?thesis
  proof cases
    case header
    then obtain k where "k < length ?h" "outgoing w' = outgoing w @ take k ?h"
      using socket_out.write_fail by blast
    then show ?thesis by (intro exI[of _ k]) (auto simp: frame_bytes_def)
  next
    case payload
    then obtain k where "k < length p" "outgoing w' = outgoing w1 @ take k p"
      using socket_out.write_fail by blast
    with socket_out.write_ok [OF payload(1)] show ?thesis
      by (intro exI[of _ "4 + k"]) (auto simp: frame_bytes_def)
  qed
qed

section \<open>Properties\<close>

text \<open>
  C18: Round trip over sockets. A payload that fits the writer's cap, the reader's cap and the
  32-bit header is written in full, and a reader whose remaining bytes are what was written and
  then anything else gets exactly the payload back, with exactly the rest still to read;
  however the bytes are cut into reads.
\<close>

theorem frame_roundtrip:
  assumes "out_room w = None" and "length p \<le> mw" and "length p \<le> mr" and "length p < 2 ^ 32"
    and "write_frame_bytes stream_write_all stream_flush p mw w = (res, w')"
    and "outgoing w' = outgoing w @ new" and "pending r = new @ rest"
  shows "res = Inr () \<and>
    (\<exists>r'. read_frame_bytes stream_read mr r = (Inr p, r') \<and> pending r' = rest)"
proof -
  from assms have "res = Inr ()" and "new = frame_bytes p"
    by (auto simp: write_frame_bytes_socket)
  with assms show ?thesis using socket_in.read_frame_bytes_after_frame by blast
qed

definition idle_stream :: unix_stream where
  "idle_stream = \<lparr>stream_id = 0, incoming = [], outgoing = [], out_room = None\<rparr>"

theorem frame_roundtrip_witness:
  "\<exists>r'. read_frame_bytes stream_read 16
     (idle_stream\<lparr>incoming := [Data [2, 0, 0], Data [0, 7], Data [9, 5]]\<rparr>) = (Inr [7, 9], r')
     \<and> pending r' = [5]"
proof -
  have "write_frame_bytes stream_write_all stream_flush [7, 9] 16 idle_stream =
      (Inr (), idle_stream\<lparr>outgoing := [2, 0, 0, 0, 7, 9]\<rparr>)"
    by (simp add: write_frame_bytes_socket idle_stream_def frame_bytes_def frame_header_len_def
        u32_to_le_bytes_def)
  then show ?thesis
    by (rule frame_roundtrip [where w = idle_stream and mr = 16 and rest = "[5]", THEN conjunct2,
          rotated 4])
      (simp_all add: idle_stream_def)
qed

text \<open>
  C6: The frame reader computes the wire format. For a socket that delivers its bytes in chunks
  of any size, and for a byte slice, the result of \<open>read_frame_bytes\<close> is the specification of
  the whole remaining byte string: the payload, a too-large length, a truncated header or payload
  with the numbers of bytes read and needed, or the I/O error the stream ends in.
\<close>

theorem read_frame_bytes_refines_spec:
  "fst (read_frame_bytes stream_read m s) = frame_spec m (pending s) (ending s) \<and>
   fst (read_frame_bytes slice_read m bs) = frame_spec m bs None"
  by (simp add: socket_in.read_frame_bytes_spec slice_in.read_frame_bytes_spec)

text \<open>
  A payload over the cap is refused before anything is written, and a write that fails later
  has sent a proper prefix of the frame: the peer never sees bytes that are not the start of the
  frame, and never a whole frame that the caller is told failed.
\<close>

theorem write_frame_failure_is_prefix:
  assumes "write_frame_bytes stream_write_all stream_flush p m w = (Inl e, w')"
  shows "(length p > m \<longrightarrow> e = TooLarge (length p) m \<and> w' = w) \<and>
    (length p \<le> m \<longrightarrow>
      (\<exists>k < length (frame_bytes p). outgoing w' = outgoing w @ take k (frame_bytes p)))"
  using assms write_frame_bytes_socket_failed [OF assms]
  by (auto simp: write_frame_bytes_def)

theorem write_frame_failure_is_prefix_witness:
  "\<exists>e w'. write_frame_bytes stream_write_all stream_flush [1, 2, 3] 8
      (idle_stream\<lparr>out_room := Some (5, IoError BrokenPipe [])\<rparr>) = (Inl e, w') \<and>
    (\<exists>k < length (frame_bytes [1, 2, 3]). outgoing w' = take k (frame_bytes [1, 2, 3]))"
proof -
  let ?w = "idle_stream\<lparr>out_room := Some (5, IoError BrokenPipe [])\<rparr>"
  obtain e w' where run: "write_frame_bytes stream_write_all stream_flush [1, 2, 3] 8 ?w = (Inl e, w')"
    by (simp add: write_frame_bytes_def Let_def stream_write_all_def idle_stream_def unfold_io)
  from write_frame_failure_is_prefix [OF run] run show ?thesis
    by (auto simp: idle_stream_def)
qed

text \<open>
  A declared length over the cap stops the reader after the header: the error names the
  declared length and the cap, and not one byte of the payload is consumed or buffered.
\<close>

theorem oversized_length_reads_header_only:
  assumes "pending s = u32_to_le_bytes n @ rest" and "unat n > m"
  shows "\<exists>s'. read_frame_bytes stream_read m s = (Inl (TooLarge (unat n) m), s') \<and> pending s' = rest"
proof -
  have "fst (read_exact stream_read 4 s) = Inr (u32_to_le_bytes n)"
    using assms(1) by (simp add: socket_in.read_exact_spec exact_spec_def)
  then obtain s1 where h: "read_exact stream_read 4 s = (Inr (u32_to_le_bytes n), s1)"
    by (cases "read_exact stream_read 4 s") auto
  with assms socket_in.read_exact_rest [OF h] show ?thesis
    by (simp add: read_frame_bytes_def HEADER_LEN_def)
qed

theorem oversized_length_reads_header_only_witness:
  "\<exists>s'. read_frame_bytes stream_read 16 (idle_stream\<lparr>incoming := [Data [32, 0, 0, 0], Data [1]]\<rparr>)
     = (Inl (TooLarge 32 16), s') \<and> pending s' = [1]"
  using oversized_length_reads_header_only
    [of "idle_stream\<lparr>incoming := [Data [32, 0, 0, 0], Data [1]]\<rparr>" 32 "[1]" 16]
  by (simp add: u32_to_le_bytes_def)

text \<open>
  C38: Beyond the 32-bit header the writer desynchronises the stream. A payload of at least
  \<open>2 ^ 32\<close> bytes that the caller's cap allows is reported as written, but its header says
  \<open>u32::MAX\<close>: the reader gets a truncated payload, and the bytes it left out stand where
  the next frame's header is expected.
\<close>

theorem header_saturation_truncates:
  assumes "out_room w = None" and "2 ^ 32 \<le> length p" and "length p \<le> m"
    and "incoming r = [Data (outgoing (snd (write_frame_bytes stream_write_all stream_flush p m
      (w\<lparr>outgoing := []\<rparr>)))) ]"
  shows "fst (write_frame_bytes stream_write_all stream_flush p m w) = Inr () \<and>
    (\<exists>r'. read_frame_bytes stream_read m r = (Inr (take (2 ^ 32 - 1) p), r') \<and>
      pending r' = drop (2 ^ 32 - 1) p \<and> pending r' \<noteq> [])"
proof -
  have pend: "pending r = frame_bytes p" and "ending r = None"
    using assms by (simp_all add: write_frame_bytes_socket)
  moreover have hdr: "unat (frame_header_len (length p)) = 2 ^ 32 - 1"
    using assms(2) by (rule frame_header_len_large)
  ultimately have "fst (read_frame_bytes stream_read m r) = Inr (take (2 ^ 32 - 1) p)"
    using assms(2,3)
    by (simp add: socket_in.read_frame_bytes_spec frame_spec_def exact_spec_def frame_bytes_def)
  then obtain r' where run: "read_frame_bytes stream_read m r = (Inr (take (2 ^ 32 - 1) p), r')"
    by (cases "read_frame_bytes stream_read m r") auto
  from socket_in.read_frame_bytes_rest [OF run] pend assms(2)
  have "pending r' = drop (2 ^ 32 - 1) p" by (simp add: frame_bytes_def)
  with run assms show ?thesis by (simp add: write_frame_bytes_socket)
qed

theorem header_saturation_truncates_witness:
  "\<exists>p r'. length p = 2 ^ 32 \<and>
     fst (write_frame_bytes stream_write_all stream_flush p (2 ^ 33) idle_stream) = Inr () \<and>
     length (pending r') = 1"
proof -
  obtain p :: "byte list" where p: "length p = 2 ^ 32" using Ex_list_of_length by blast
  have h: "out_room idle_stream = None" "2 ^ 32 \<le> length p" "length p \<le> 2 ^ 33"
    using p by (simp_all add: idle_stream_def)
  let ?r = "idle_stream\<lparr>incoming := [Data (outgoing (snd (write_frame_bytes stream_write_all
    stream_flush p (2 ^ 33) (idle_stream\<lparr>outgoing := []\<rparr>))))]\<rparr>"
  from header_saturation_truncates [OF h, of ?r] obtain r' where
    "fst (write_frame_bytes stream_write_all stream_flush p (2 ^ 33) idle_stream) = Inr ()"
    and "pending r' = drop (2 ^ 32 - 1) p" by auto
  with p show ?thesis by (intro exI[of _ p] exI[of _ r']) simp
qed

text \<open>
  Typed round trip under the default cap. When the JSON coder decodes what it encodes, a
  message whose encoding fits 1 MiB comes back from the peer's \<open>read_frame\<close> as it was given to
  \<open>write_frame\<close>, and one whose encoding does not fit is refused with nothing sent.
\<close>

theorem typed_frame_roundtrip:
  assumes coder: "\<And>m p. to_vec m = Inr p \<Longrightarrow> from_slice p = Inr m"
    and "to_vec msg = Inr p" and "out_room w = None" and "outgoing w = []"
    and "write_frame stream_write_all stream_flush to_vec msg w = (res, w')"
    and "pending r = outgoing w'"
  shows "if length p \<le> 1024 * 1024
    then res = Inr () \<and> fst (read_frame stream_read from_slice r) = Inr msg
    else res = Inl (TooLarge (length p) (1024 * 1024)) \<and> outgoing w' = []"
proof (cases "length p \<le> 1024 * 1024")
  case True
  have res: "res = Inr ()" and pend: "pending r = frame_bytes p @ []"
    using assms True
    by (auto simp: write_frame_def write_frame_with_limit_def DEFAULT_MAX_FRAME_BYTES_def
        write_frame_bytes_socket)
  obtain r' where "read_frame_bytes stream_read (1024 * 1024) r = (Inr p, r')"
    using socket_in.read_frame_bytes_after_frame [OF pend True] True by auto
  with True res coder [OF assms(2)] show ?thesis
    by (simp add: read_frame_def read_frame_with_limit_def DEFAULT_MAX_FRAME_BYTES_def ok_def)
next
  case False
  with assms show ?thesis
    by (simp add: write_frame_def write_frame_with_limit_def DEFAULT_MAX_FRAME_BYTES_def
        write_frame_bytes_def)
qed

text \<open>A coder for the witness: JSON booleans.\<close>

definition bool_to_vec :: "bool \<Rightarrow> json_error + byte list" where
  "bool_to_vec b = Inr (if b then [116, 114, 117, 101] else [102, 97, 108, 115, 101])"

definition bool_from_slice :: "byte list \<Rightarrow> json_error + bool" where
  "bool_from_slice bs =
     (if bs = [116, 114, 117, 101] then Inr True
      else if bs = [102, 97, 108, 115, 101] then Inr False
      else Inl (JsonError ''expected value''))"

theorem typed_frame_roundtrip_witness:
  "fst (read_frame stream_read bool_from_slice
     (idle_stream\<lparr>incoming := [Data [4, 0], Data [0, 0, 116, 114], Data [117, 101]]\<rparr>)) = Inr True"
proof -
  have coder: "\<And>m p. bool_to_vec m = Inr p \<Longrightarrow> bool_from_slice p = Inr m"
    by (auto simp: bool_to_vec_def bool_from_slice_def split: if_splits)
  have enc: "bool_to_vec True = Inr [116, 114, 117, 101]" by (simp add: bool_to_vec_def)
  have run: "write_frame stream_write_all stream_flush bool_to_vec True idle_stream =
      (Inr (), idle_stream\<lparr>outgoing := [4, 0, 0, 0, 116, 114, 117, 101]\<rparr>)"
    by (simp add: write_frame_def write_frame_with_limit_def enc DEFAULT_MAX_FRAME_BYTES_def
        write_frame_bytes_socket idle_stream_def frame_bytes_def frame_header_len_def
        u32_to_le_bytes_def)
  show ?thesis
    using typed_frame_roundtrip [OF coder enc _ _ run, where
        r = "idle_stream\<lparr>incoming := [Data [4, 0], Data [0, 0, 116, 114], Data [117, 101]]\<rparr>"]
    by (simp add: idle_stream_def)
qed

text \<open>
  An interrupted system call loses the frame. The reader does not retry
  \<open>ErrorKind::Interrupted\<close>, as the standard library's own \<open>read_exact\<close> does: the error is
  returned, and the header bytes already taken from the stream are gone, so what follows them
  would be read as a new header.
\<close>

theorem interrupted_read_loses_bytes:
  assumes "incoming s = Data bs # Broken (IoError Interrupted msg) # cs"
    and "bs \<noteq> []" and "length bs < 4"
  shows "read_frame_bytes stream_read m s =
    (Inl (Io (IoError Interrupted msg)), s\<lparr>incoming := cs\<rparr>)"
  using assms
  by (simp add: read_frame_bytes_def HEADER_LEN_def read_exact_def stream_read_def
      read_exact_from.simps [of stream_read 4 "[]"] read_exact_from.simps [of stream_read 4 bs])

theorem interrupted_read_loses_bytes_witness:
  "read_frame_bytes stream_read 16
     (idle_stream\<lparr>incoming := [Data [1, 0], Broken (IoError Interrupted []), Data [0, 0, 7]]\<rparr>) =
   (Inl (Io (IoError Interrupted [])), idle_stream\<lparr>incoming := [Data [0, 0, 7]]\<rparr>)"
  using interrupted_read_loses_bytes
    [of "idle_stream\<lparr>incoming := [Data [1, 0], Broken (IoError Interrupted []), Data [0, 0, 7]]\<rparr>"
      "[1, 0]" "[]" "[Data [0, 0, 7]]" 16]
  by simp

end
