(* ===== verification/Paths.thy ===== *)
theory Paths
  imports Prelude
begin

text \<open>
  Paths and byte strings as \<open>std::path\<close> and \<open>std::str\<close> treat them on Unix. An \<open>OsStr\<close> is a
  string of bytes (\<open>char\<close> is an 8-bit type). The functions follow the standard library:
  \<open>components\<close> skips empty and \<open>.\<close> segments, \<open>file_name\<close>, \<open>parent\<close> and \<open>extension\<close> read the
  components from the back, \<open>push\<close> replaces the buffer when the argument is absolute.
\<close>

type_synonym os_string = string
type_synonym path = os_string

section \<open>UTF-8\<close>

text \<open>
  One step of the standard library's decoder over a non-empty byte string: whether it starts
  with a well-formed character, and how many bytes belong to it (or to the ill-formed prefix).
\<close>

definition byte_at :: "string \<Rightarrow> nat \<Rightarrow> nat" where
  "byte_at s i = (if i < length s then of_char (s ! i) else 0)"

definition is_cont :: "nat \<Rightarrow> bool" where
  "is_cont b \<longleftrightarrow> 128 \<le> b \<and> b < 192"

definition second_ok :: "nat \<Rightarrow> nat \<Rightarrow> bool" where
  "second_ok b0 b1 =
     (if b0 = 224 then 160 \<le> b1 \<and> b1 < 192
      else if b0 = 237 then 128 \<le> b1 \<and> b1 < 160
      else if b0 = 240 then 144 \<le> b1 \<and> b1 < 192
      else if b0 = 244 then 128 \<le> b1 \<and> b1 < 144
      else is_cont b1)"

definition utf8_next :: "string \<Rightarrow> bool \<times> nat" where
  "utf8_next s =
     (let b0 = byte_at s 0; b1 = byte_at s 1; b2 = byte_at s 2; b3 = byte_at s 3 in
      if b0 < 128 then (True, 1)
      else if 194 \<le> b0 \<and> b0 < 224 then (if is_cont b1 then (True, 2) else (False, 1))
      else if 224 \<le> b0 \<and> b0 < 240 then
        (if \<not> second_ok b0 b1 then (False, 1) else if is_cont b2 then (True, 3) else (False, 2))
      else if 240 \<le> b0 \<and> b0 < 245 then
        (if \<not> second_ok b0 b1 then (False, 1)
         else if \<not> is_cont b2 then (False, 2)
         else if is_cont b3 then (True, 4) else (False, 3))
      else (False, 1))"

lemma utf8_next_pos: "0 < snd (utf8_next s)"
  by (simp add: utf8_next_def Let_def)

lemma utf8_next_drop: "s \<noteq> [] \<Longrightarrow> length (drop (snd (utf8_next s)) s) < length s"
  using utf8_next_pos [of s] by (cases s) auto

function utf8_valid :: "string \<Rightarrow> bool" where
  "utf8_valid s =
     (if s = [] then True
      else if fst (utf8_next s) then utf8_valid (drop (snd (utf8_next s)) s)
      else False)"
  by pat_completeness auto
termination
  by (relation "measure length") (auto dest: utf8_next_drop)

declare utf8_valid.simps [simp del]

text \<open>\<open>to_string_lossy\<close>: every ill-formed prefix becomes U+FFFD. This is what \<open>display\<close> prints.\<close>

function to_string_lossy :: "string \<Rightarrow> string" where
  "to_string_lossy s =
     (if s = [] then []
      else (if fst (utf8_next s) then take (snd (utf8_next s)) s
            else [char_of (239::nat), char_of (191::nat), char_of (189::nat)]) @
        to_string_lossy (drop (snd (utf8_next s)) s))"
  by pat_completeness auto
termination
  by (relation "measure length") (auto dest: utf8_next_drop)

declare to_string_lossy.simps [simp del]

definition to_str :: "os_string \<Rightarrow> string option" where
  "to_str s = (if utf8_valid s then Some s else None)"

abbreviation path_display :: "path \<Rightarrow> string" where
  "path_display p \<equiv> to_string_lossy p"

lemma to_string_lossy_valid: "utf8_valid s \<Longrightarrow> to_string_lossy s = s"
proof (induction s rule: to_string_lossy.induct)
  case (1 s)
  then show ?case
    by (cases "s = []")
      (simp_all add: utf8_valid.simps [of s] to_string_lossy.simps [of s]
        to_string_lossy.simps [of "[]"] split: if_splits)
qed

section \<open>Components\<close>

datatype component = RootDir | CurDir | ParentDir | Normal string

definition is_sep :: "char \<Rightarrow> bool" where
  "is_sep c \<longleftrightarrow> c = CHR ''/''"

definition is_absolute :: "path \<Rightarrow> bool" where
  "is_absolute p = (case p of [] \<Rightarrow> False | c # _ \<Rightarrow> is_sep c)"

fun split_slash :: "string \<Rightarrow> string list" where
  "split_slash [] = [[]]"
| "split_slash (c # cs) =
     (if is_sep c then [] # split_slash cs
      else (c # hd (split_slash cs)) # tl (split_slash cs))"
  \<comment> \<open>\<open>split_slash\<close> is never empty, see below\<close>

fun join_slash :: "string list \<Rightarrow> string" where
  "join_slash [] = []"
| "join_slash [s] = s"
| "join_slash (s # t # ss) = s @ ''/'' @ join_slash (t # ss)"

definition skipped :: "string \<Rightarrow> bool" where
  "skipped seg \<longleftrightarrow> seg = [] \<or> seg = ''.''"

definition segment :: "string \<Rightarrow> component" where
  "segment seg = (if seg = ''..'' then ParentDir else Normal seg)"

definition segments :: "string list \<Rightarrow> component list" where
  "segments ss = map segment (filter (\<lambda>s. \<not> skipped s) ss)"

definition components :: "path \<Rightarrow> component list" where
  "components p =
     (if is_absolute p then RootDir # segments (split_slash p)
      else if hd (split_slash p) = ''.'' then CurDir # segments (split_slash p)
      else segments (split_slash p))"

definition file_name :: "path \<Rightarrow> os_string option" where
  "file_name p = (case rev (components p) of Normal s # _ \<Rightarrow> Some s | _ \<Rightarrow> None)"

section \<open>Parent, extension, push\<close>

definition trim_trailing :: "string list \<Rightarrow> string list" where
  "trim_trailing ss = rev (dropWhile skipped (rev ss))"

text \<open>A leading \<open>.\<close> of a relative path is a component and stays.\<close>

definition trim_relative :: "string list \<Rightarrow> string list" where
  "trim_relative ss =
     (case ss of [] \<Rightarrow> []
      | s # rest \<Rightarrow> if s = ''.'' then s # trim_trailing rest else trim_trailing ss)"

definition parent :: "path \<Rightarrow> path option" where
  "parent p =
     (if is_absolute p
      then (let b = trim_trailing (tl (split_slash p)) in
            if b = [] then None else Some (''/'' @ join_slash (trim_trailing (butlast b))))
      else (let b = trim_relative (split_slash p) in
            if b = [] then None else Some (join_slash (trim_relative (butlast b)))))"

definition is_dot :: "char \<Rightarrow> bool" where
  "is_dot c \<longleftrightarrow> c = CHR ''.''"

definition rsplit_dot :: "string \<Rightarrow> (string \<times> string) option" where
  "rsplit_dot s =
     (if \<exists>c \<in> set s. is_dot c
      then Some (rev (tl (dropWhile (\<lambda>c. \<not> is_dot c) (rev s))),
                 rev (takeWhile (\<lambda>c. \<not> is_dot c) (rev s)))
      else None)"

definition extension :: "path \<Rightarrow> os_string option" where
  "extension p =
     (case file_name p of
        None \<Rightarrow> None
      | Some f \<Rightarrow>
          (case rsplit_dot f of
             None \<Rightarrow> None
           | Some (stem, ext) \<Rightarrow> if stem = [] then None else Some ext))"

definition push :: "path \<Rightarrow> path \<Rightarrow> path" where
  "push buf p =
     (if is_absolute p then p
      else if buf = [] \<or> is_sep (last buf) then buf @ p
      else buf @ ''/'' @ p)"

section \<open>Facts\<close>

lemma is_absolute_Nil [simp]: "\<not> is_absolute []"
  by (simp add: is_absolute_def)

lemma split_slash_nonempty [simp]: "split_slash s \<noteq> []"
  by (cases s) auto

lemma join_slash_Cons: "ss \<noteq> [] \<Longrightarrow> join_slash (s # ss) = s @ ''/'' @ join_slash ss"
  by (cases ss) auto

lemma join_split_slash: "join_slash (split_slash s) = s"
proof (induction s)
  case Nil
  then show ?case by simp
next
  case (Cons c cs)
  obtain t ts where "split_slash cs = t # ts" using split_slash_nonempty by (metis list.exhaust)
  with Cons show ?case by (cases ts) (auto simp: is_sep_def)
qed

lemma split_slash_append:
  "split_slash (a @ CHR ''/'' # b) = split_slash a @ split_slash b"
  by (induction a) (auto simp: is_sep_def)

lemma split_slash_plain: "\<forall>c \<in> set s. \<not> is_sep c \<Longrightarrow> split_slash s = [s]"
  by (induction s) auto

lemma segments_append [simp]: "segments (a @ b) = segments a @ segments b"
  by (simp add: segments_def)

lemma segments_empty_segment [simp]: "segments ([] # ss) = segments ss"
  by (simp add: segments_def skipped_def)

lemma segments_Nil [simp]: "segments [] = []"
  by (simp add: segments_def)

text \<open>A name that is one ordinary path component.\<close>

definition plain_name :: "string \<Rightarrow> bool" where
  "plain_name s \<longleftrightarrow> s \<noteq> [] \<and> s \<noteq> ''.'' \<and> s \<noteq> ''..'' \<and> (\<forall>c \<in> set s. \<not> is_sep c)"

lemma plain_name_segments: "plain_name s \<Longrightarrow> segments (split_slash s) = [Normal s]"
  by (simp add: plain_name_def split_slash_plain segments_def skipped_def segment_def)

lemma plain_name_relative: "plain_name s \<Longrightarrow> \<not> is_absolute s"
  by (cases s) (auto simp: plain_name_def is_absolute_def)

lemma is_absolute_append: "a \<noteq> [] \<Longrightarrow> is_absolute (a @ b) = is_absolute a"
  by (cases a) (auto simp: is_absolute_def)

lemma ends_with_sepE:
  assumes "is_sep (last a)" and "a \<noteq> []"
  obtains a' where "a = a' @ ''/''"
  using assms by (metis append_butlast_last_id is_sep_def)

text \<open>Pushing an ordinary name adds exactly one component.\<close>

lemma components_push_plain:
  assumes "plain_name s" and "buf \<noteq> []"
  shows "components (push buf s) = components buf @ [Normal s]"
proof (cases "is_sep (last buf)")
  case True
  from True assms(2) obtain a where a: "buf = a @ ''/''" by (rule ends_with_sepE)
  show ?thesis
  proof (cases "a = []")
    case True
    with a assms show ?thesis
      using plain_name_relative [OF assms(1)]
      by (simp add: push_def components_def is_absolute_def is_sep_def plain_name_segments)
  next
    case False
    with a assms show ?thesis
      using split_slash_append [of a "[]"] split_slash_append [of a s]
      by (simp add: push_def plain_name_relative components_def is_absolute_append
          is_sep_def plain_name_segments)
  qed
next
  case False
  then show ?thesis
    using assms
    by (simp add: push_def plain_name_relative components_def is_absolute_append
        split_slash_append plain_name_segments)
qed

text \<open>The parent of a path has all of its components but the last.\<close>

lemma split_slash_no_sep: "t \<in> set (split_slash s) \<Longrightarrow> \<forall>c \<in> set t. \<not> is_sep c"
proof (induction s arbitrary: t)
  case Nil
  then show ?case by simp
next
  case (Cons c cs)
  have "\<forall>c \<in> set (hd (split_slash cs)). \<not> is_sep c" by (rule Cons.IH) simp
  moreover have "set (tl (split_slash cs)) \<subseteq> set (split_slash cs)" by (simp add: list.set_sel(2) subsetI)
  ultimately show ?case using Cons by (auto split: if_splits)
qed

lemma split_join_slash:
  assumes "ss \<noteq> []" and "\<forall>t \<in> set ss. \<forall>c \<in> set t. \<not> is_sep c"
  shows "split_slash (join_slash ss) = ss"
  using assms
proof (induction ss rule: join_slash.induct)
  case (3 s t ss)
  then show ?case by (simp add: split_slash_append split_slash_plain)
qed (auto simp: split_slash_plain)

lemma segments_dot [simp]: "segments (''.'' # ss) = segments ss"
  by (simp add: segments_def skipped_def)

lemma segments_kept: "\<not> skipped s \<Longrightarrow> segments (s # ss) = segment s # segments ss"
  by (simp add: segments_def)

lemma set_trim_trailing: "set (trim_trailing ss) \<subseteq> set ss"
  by (auto simp: trim_trailing_def dest: set_dropWhileD)

lemma trim_trailing_snoc [simp]:
  "trim_trailing (ss @ [s]) = (if skipped s then trim_trailing ss else ss @ [s])"
  by (simp add: trim_trailing_def)

lemma trim_trailing_Nil [simp]: "trim_trailing [] = []"
  by (simp add: trim_trailing_def)

lemma segments_trim [simp]: "segments (trim_trailing ss) = segments ss"
  by (induction ss rule: rev_induct) (auto simp: segments_def)

lemma segments_butlast_trim:
  "trim_trailing ss \<noteq> [] \<Longrightarrow>
   segments (butlast (trim_trailing ss)) = butlast (segments ss) \<and> segments ss \<noteq> []"
  by (induction ss rule: rev_induct) (auto simp: segments_def)

lemma trim_trailing_Cons:
  "\<not> skipped s \<Longrightarrow> trim_trailing (s # ss) = s # trim_trailing ss"
  by (induction ss rule: rev_induct) (auto simp flip: append_Cons, simp add: trim_trailing_def)

lemma split_slash_absolute: "is_absolute p \<Longrightarrow> split_slash p = [] # split_slash (tl p)"
  by (cases p) (auto simp: is_absolute_def)

lemma split_slash_join_trim:
  assumes "set ss \<subseteq> set (split_slash p)" and "ss \<noteq> []"
  shows "split_slash (join_slash ss) = ss"
  using assms split_slash_no_sep by (intro split_join_slash) auto

lemma parent_components_absolute:
  assumes "is_absolute p" and "parent p = Some q"
  shows "components q = butlast (components p)"
proof -
  let ?ss = "split_slash (tl p)"
  let ?b = "trim_trailing ?ss"
  let ?x = "trim_trailing (butlast ?b)"
  have split: "split_slash p = [] # ?ss" using assms(1) by (rule split_slash_absolute)
  with assms have b: "?b \<noteq> []" and q: "q = CHR ''/'' # join_slash ?x"
    by (auto simp: parent_def Let_def split: if_splits)
  have "segments (split_slash (join_slash ?x)) = segments ?x"
  proof (cases "?x = []")
    case False
    have "set ?x \<subseteq> set ?ss" using set_trim_trailing by (meson in_set_butlastD subset_iff)
    with False show ?thesis by (simp add: split_slash_join_trim)
  qed simp
  then have "segments (split_slash (join_slash ?x)) = butlast (segments ?ss)"
    using segments_butlast_trim [OF b] by simp
  moreover have "is_absolute q" "is_sep CHR ''/''" by (auto simp: q is_absolute_def is_sep_def)
  ultimately show ?thesis
    using assms(1) segments_butlast_trim [OF b] by (simp add: components_def split q)
qed

lemma relative_first_segment:
  assumes "\<not> is_absolute p" and "split_slash p = s # ss"
  shows "s = [] \<Longrightarrow> p = []"
  using assms by (cases p) (auto simp: is_absolute_def split: if_splits)

lemma not_absolute_join:
  assumes "s \<noteq> []" and "\<forall>c \<in> set s. \<not> is_sep c"
  shows "\<not> is_absolute (join_slash (s # ss))"
  using assms by (cases ss; cases s) (auto simp: is_absolute_def)

text \<open>A relative path that starts with a dot, and one that does not.\<close>

lemma parent_components_dot:
  assumes rel: "\<not> is_absolute p" and par: "parent p = Some q" and split: "split_slash p = ''.'' # ss"
  shows "components q = butlast (components p)"
proof (cases "trim_trailing ss = []")
  case True
  with rel par split have "q = []"
    by (simp add: parent_def Let_def trim_relative_def)
  moreover have "segments ss = []" using True segments_trim [of ss] by simp
  ultimately show ?thesis
    using rel split by (simp add: components_def segments_def skipped_def)
next
  case False
  let ?x = "trim_trailing (butlast (trim_trailing ss))"
  from False rel par split have q: "q = join_slash (''.'' # ?x)"
    by (simp add: parent_def Let_def trim_relative_def)
  have "set (''.'' # ?x) \<subseteq> set (split_slash p)"
    using split set_trim_trailing by (auto dest!: in_set_butlastD subsetD [OF set_trim_trailing])
  then have "split_slash q = ''.'' # ?x" unfolding q by (rule split_slash_join_trim) simp
  moreover have "\<not> is_absolute q" unfolding q
    by (rule not_absolute_join) (auto simp: is_sep_def)
  ultimately show ?thesis
    using rel split segments_butlast_trim [OF False]
    by (simp add: components_def)
qed

lemma parent_components_segment:
  assumes rel: "\<not> is_absolute p" and par: "parent p = Some q" and split: "split_slash p = s # ss"
    and nonempty: "s \<noteq> []" and nodot: "s \<noteq> ''.''"
  shows "components q = butlast (components p)"
proof -
  have nosep: "\<forall>c \<in> set s. \<not> is_sep c" using split_slash_no_sep [of s p] split by simp
  have keep: "\<not> skipped s" using nonempty nodot by (simp add: skipped_def)
  let ?b = "s # trim_trailing ss"
  have b: "trim_relative (split_slash p) = ?b"
    using split nodot keep by (simp add: trim_relative_def trim_trailing_Cons)
  have q: "q = join_slash (trim_relative (butlast ?b))"
    using rel par by (simp add: parent_def b)
  show ?thesis
  proof (cases "trim_trailing ss = []")
    case True
    then have "segments ss = []" using segments_trim [of ss] by simp
    with True q rel split nodot keep show ?thesis
      by (simp add: components_def trim_relative_def) (simp add: segments_def skipped_def)
  next
    case False
    let ?y = "trim_trailing (butlast (trim_trailing ss))"
    have q': "q = join_slash (s # ?y)"
      using q False nodot keep by (simp add: trim_relative_def trim_trailing_Cons)
    have "set (s # ?y) \<subseteq> set (split_slash p)"
      using split by (auto dest!: in_set_butlastD subsetD [OF set_trim_trailing])
    then have sq: "split_slash q = s # ?y" unfolding q' by (rule split_slash_join_trim) simp
    have "\<not> is_absolute q" unfolding q' using nonempty nosep by (rule not_absolute_join)
    with sq rel split nodot segments_butlast_trim [OF False] show ?thesis
      by (simp add: components_def segments_kept keep)
  qed
qed

lemma parent_components_relative:
  assumes rel: "\<not> is_absolute p" and par: "parent p = Some q"
  shows "components q = butlast (components p)"
proof -
  obtain s ss where split: "split_slash p = s # ss" by (metis list.exhaust split_slash_nonempty)
  have "s \<noteq> []"
  proof
    assume "s = []"
    with rel split have "p = []" by (metis relative_first_segment)
    with par show False by (simp add: parent_def trim_relative_def trim_trailing_def skipped_def)
  qed
  then show ?thesis
    using parent_components_dot [OF rel par] parent_components_segment [OF rel par split] split by blast
qed

lemma parent_components: "parent p = Some q \<Longrightarrow> components q = butlast (components p)"
  using parent_components_absolute parent_components_relative by blast

lemma CurDir_not_in_segments: "CurDir \<notin> set (segments ss)"
  by (auto simp: segments_def segment_def)

lemma components_CurDir_first:
  assumes "components p = xs @ [CurDir]"
  shows "xs = []"
proof (cases xs)
  case (Cons y ys)
  have "CurDir \<in> set ys \<union> {CurDir}" by simp
  moreover have "tl (components p) = ys @ [CurDir]" using assms Cons by simp
  moreover have "CurDir \<notin> set (tl (components p))"
    using CurDir_not_in_segments by (auto simp: components_def dest: in_set_tl)
  ultimately show ?thesis by simp
qed simp

end
