(* ===== verification/Datadir.thy ===== *)
theory Datadir
  imports Paths
begin

text \<open>
  \<open>datadir.rs\<close>: resolution of the persistent data root from the process environment, and the
  file layout under it. The environment is a map from variable names to byte strings.
\<close>

type_synonym environment = "string \<rightharpoonup> os_string"

section \<open>Constants and types\<close>

definition ENV_DATA_DIR :: string where
  "ENV_DATA_DIR = ''DATA_DIR''"

definition ENV_BIGFRED_DATA_DIR :: string where
  "ENV_BIGFRED_DATA_DIR = ''BIGFRED_DATA_DIR''"

definition DEFAULT_ROOT :: string where
  "DEFAULT_ROOT = ''/data''"

datatype env_policy = DataDirOnly | BigfredThenDataDir

datatype path_rule = AbsoluteOnly | AcceptAny

record data_dir =
  root_path :: path

section \<open>The process environment\<close>

text \<open>
  \<open>var_os\<close> is the map itself; \<open>var\<close> fails for a value that is not UTF-8. \<open>set_var\<close>
  panics when the value holds a NUL byte (the C library could not store it).
\<close>

datatype panic = Panic string

definition env_var :: "environment \<Rightarrow> string \<Rightarrow> string option" where
  "env_var env name = Option.bind (env name) to_str"

definition is_nul :: "char \<Rightarrow> bool" where
  "is_nul c \<longleftrightarrow> c = CHR 0x00"

definition set_var :: "string \<Rightarrow> os_string \<Rightarrow> environment \<Rightarrow> panic + environment" where
  "set_var name v env =
     (if \<exists>c \<in> set v. is_nul c then Inl (Panic ''failed to set environment variable'')
      else Inr (env(name \<mapsto> v)))"

section \<open>Resolution\<close>

definition from_env :: "string \<Rightarrow> path_rule \<Rightarrow> environment \<Rightarrow> path option" where
  "from_env name rule env =
     (case rule of
        AbsoluteOnly \<Rightarrow>
          (case env name of
             None \<Rightarrow> None
           | Some v \<Rightarrow>
               if v = [] then None
               else if is_absolute v then Some v
               else None)
      | AcceptAny \<Rightarrow>
          (case env_var env name of
             None \<Rightarrow> None
           | Some v \<Rightarrow> Some v))"

definition resolve_root :: "env_policy \<Rightarrow> path_rule \<Rightarrow> environment \<Rightarrow> path" where
  "resolve_root policy rule env =
     (case policy of
        DataDirOnly \<Rightarrow>
          (case from_env ENV_DATA_DIR rule env of Some p \<Rightarrow> p | None \<Rightarrow> DEFAULT_ROOT)
      | BigfredThenDataDir \<Rightarrow>
          (case from_env ENV_BIGFRED_DATA_DIR rule env of
             Some p \<Rightarrow> p
           | None \<Rightarrow>
               (case from_env ENV_DATA_DIR rule env of Some p \<Rightarrow> p | None \<Rightarrow> DEFAULT_ROOT)))"

definition resolve :: "env_policy \<Rightarrow> path_rule \<Rightarrow> environment \<Rightarrow> data_dir" where
  "resolve policy rule env = \<lparr>root_path = resolve_root policy rule env\<rparr>"

definition from_path :: "path \<Rightarrow> data_dir" where
  "from_path p = \<lparr>root_path = p\<rparr>"

definition as_path :: "data_dir \<Rightarrow> path" where
  "as_path d = root_path d"

definition root :: "environment \<Rightarrow> path" where
  "root env = as_path (resolve DataDirOnly AbsoluteOnly env)"

definition set_root :: "path \<Rightarrow> environment \<Rightarrow> panic + environment" where
  "set_root p env =
     (if is_absolute p then set_var ENV_DATA_DIR p env else Inr env)"

section \<open>The layout under the root\<close>

fun join_parts :: "path \<Rightarrow> path list \<Rightarrow> path" where
  "join_parts out [] = out"
| "join_parts out (part # parts) = join_parts (push out part) parts"

definition join :: "data_dir \<Rightarrow> path list \<Rightarrow> path" where
  "join d parts = join_parts (root_path d) parts"

definition etc_file :: "data_dir \<Rightarrow> string \<Rightarrow> string \<Rightarrow> path" where
  "etc_file d name ext = join d [''etc'', name @ ''.'' @ ext]"

definition etc_dir :: "data_dir \<Rightarrow> string \<Rightarrow> path" where
  "etc_dir d name = join d [''etc'', name]"

definition run_socket :: "data_dir \<Rightarrow> string \<Rightarrow> path" where
  "run_socket d name = join d [''run'', name @ ''.sock'']"

definition run_nested_socket :: "data_dir \<Rightarrow> string \<Rightarrow> path" where
  "run_nested_socket d name = join d [''run'', name, name @ ''.sock'']"

definition path_under_root :: "path list \<Rightarrow> environment \<Rightarrow> path" where
  "path_under_root parts env = join (from_path (root env)) parts"

section \<open>Lemmas\<close>

lemma DEFAULT_ROOT_absolute [simp]: "is_absolute DEFAULT_ROOT"
  by (simp add: DEFAULT_ROOT_def is_absolute_def is_sep_def)

lemma from_env_AbsoluteOnly:
  "from_env name AbsoluteOnly env = Some p \<longleftrightarrow> env name = Some p \<and> is_absolute p"
  by (auto simp: from_env_def is_absolute_def split: option.splits)

lemma env_names_distinct [simp]: "ENV_BIGFRED_DATA_DIR \<noteq> ENV_DATA_DIR"
  by (simp add: ENV_BIGFRED_DATA_DIR_def ENV_DATA_DIR_def)

lemma push_nonempty [simp]: "s \<noteq> [] \<Longrightarrow> push buf s \<noteq> []"
  by (auto simp: push_def)

text \<open>Joining ordinary names extends the root's components by exactly these names.\<close>

lemma components_join_parts:
  "out \<noteq> [] \<Longrightarrow> \<forall>s \<in> set parts. plain_name s \<Longrightarrow>
   components (join_parts out parts) = components out @ map Normal parts"
proof (induction parts arbitrary: out)
  case Nil
  then show ?case by simp
next
  case (Cons s parts)
  then have "push out s \<noteq> []" using push_nonempty [of s out] by (simp add: plain_name_def)
  with Cons show ?case by (simp add: components_push_plain)
qed

lemma join_parts_absolute:
  assumes "is_absolute p"
  shows "join_parts out (parts @ p # rest) = join_parts p rest"
  using assms by (induction parts arbitrary: out) (auto simp: push_def)

lemma components_etc_file:
  assumes "plain_name name" and "\<forall>c \<in> set ext. \<not> is_sep c" and "root_path d \<noteq> []"
  shows "components (etc_file d name ext) =
    components (root_path d) @ [Normal ''etc'', Normal (name @ ''.'' @ ext)]"
proof -
  have "plain_name ''etc''" "plain_name (name @ ''.'' @ ext)"
    using assms by (auto simp: plain_name_def is_sep_def append_eq_Cons_conv)
  with assms(3) show ?thesis
    by (simp add: etc_file_def join_def components_join_parts del: join_parts.simps)
qed

section \<open>Properties\<close>

text \<open>
  Under the absolute-only rule the data root is always an absolute path, whatever the
  environment holds, so it never redirects the daemon under its working directory.
\<close>

theorem absolute_rule_root_is_absolute:
  "is_absolute (as_path (resolve policy AbsoluteOnly env)) \<and> is_absolute (root env)"
proof -
  have "is_absolute (resolve_root pol AbsoluteOnly env)" for pol
    by (cases pol) (auto simp: resolve_root_def from_env_AbsoluteOnly split: option.splits)
  then show ?thesis by (simp add: resolve_def as_path_def root_def)
qed

text \<open>Which values a rule accepts, and which variables a policy reads, in order.\<close>

definition accepts :: "path_rule \<Rightarrow> os_string \<Rightarrow> bool" where
  "accepts rule v = (case rule of AbsoluteOnly \<Rightarrow> is_absolute v | AcceptAny \<Rightarrow> utf8_valid v)"

definition policy_vars :: "env_policy \<Rightarrow> string list" where
  "policy_vars policy =
     (case policy of DataDirOnly \<Rightarrow> [''DATA_DIR'']
      | BigfredThenDataDir \<Rightarrow> [''BIGFRED_DATA_DIR'', ''DATA_DIR''])"

text \<open>
  Order of resolution. The root is the value of the first variable, in the policy's order,
  that the rule accepts; \<open>/data\<close> only when it accepts none. \<open>AbsoluteOnly\<close> accepts exactly
  the absolute values, \<open>AcceptAny\<close> exactly the UTF-8 ones, the empty string included.
\<close>

theorem resolve_takes_first_accepted:
  "as_path (resolve policy rule env) =
     hd ([v. n \<leftarrow> policy_vars policy, v \<leftarrow> (case env n of None \<Rightarrow> [] | Some v \<Rightarrow> [v]), accepts rule v]
       @ [''/data''])"
proof -
  have "from_env n rule env =
      (case env n of None \<Rightarrow> None | Some v \<Rightarrow> if accepts rule v then Some v else None)" for n
    by (cases rule)
      (auto simp: from_env_def env_var_def accepts_def to_str_def is_absolute_def split: option.splits)
  then show ?thesis
    by (cases policy)
      (auto simp: as_path_def resolve_def resolve_root_def policy_vars_def DEFAULT_ROOT_def
        ENV_DATA_DIR_def ENV_BIGFRED_DATA_DIR_def split: option.splits)
qed

text \<open>
  \<open>set_root\<close> takes effect or does nothing. An absolute path becomes the process root and
  changes no other variable, a relative one leaves the environment as it is, and the one way to
  fail is the panic on an absolute path with a NUL byte.
\<close>

theorem set_root_then_root:
  "case set_root p env of
     Inr env' \<Rightarrow> (if is_absolute p then root env' = p else env' = env) \<and>
       (\<forall>n. n \<noteq> ENV_DATA_DIR \<longrightarrow> env' n = env n)
   | Inl _ \<Rightarrow> is_absolute p \<and> (\<exists>c \<in> set p. is_nul c)"
proof -
  have "from_env ENV_DATA_DIR AbsoluteOnly (env(ENV_DATA_DIR \<mapsto> p)) = Some p" if "is_absolute p"
    using that by (simp add: from_env_AbsoluteOnly)
  then show ?thesis
    by (auto simp: set_root_def set_var_def root_def as_path_def resolve_def resolve_root_def)
qed

text \<open>
  The layout stays under the root. For an ordinary service name the four layout functions
  give the root's components followed by exactly the documented ones.
\<close>

theorem layout_under_root:
  assumes "plain_name name" and "\<forall>c \<in> set ext. \<not> is_sep c" and "root_path d \<noteq> []"
  shows "components (etc_file d name ext) =
      components (root_path d) @ [Normal ''etc'', Normal (name @ ''.'' @ ext)] \<and>
    components (etc_dir d name) = components (root_path d) @ [Normal ''etc'', Normal name] \<and>
    components (run_socket d name) =
      components (root_path d) @ [Normal ''run'', Normal (name @ ''.sock'')] \<and>
    components (run_nested_socket d name) =
      components (root_path d) @ [Normal ''run'', Normal name, Normal (name @ ''.sock'')]"
proof -
  have fixed: "plain_name ''etc''" "plain_name ''run''" by (auto simp: plain_name_def is_sep_def)
  have "plain_name (name @ ''.'' @ ext)" "plain_name (name @ ''.sock'')"
    using assms by (auto simp: plain_name_def is_sep_def append_eq_Cons_conv)
  with assms(1,3) fixed show ?thesis
    by (simp add: etc_file_def etc_dir_def run_socket_def run_nested_socket_def join_def
        components_join_parts del: join_parts.simps)
qed

theorem layout_under_root_witness:
  "components (run_nested_socket (from_path ''/data'') ''microwaf'') =
     [RootDir, Normal ''data'', Normal ''run'', Normal ''microwaf'', Normal ''microwaf.sock'']"
proof -
  have h: "plain_name ''microwaf''" "\<forall>c \<in> set ''json''. \<not> is_sep c"
    "root_path (from_path ''/data'') \<noteq> []"
    by (auto simp: plain_name_def is_sep_def from_path_def)
  show ?thesis
    using layout_under_root [OF h]
    by (simp add: from_path_def components_def is_absolute_def is_sep_def segments_def skipped_def
        segment_def)
qed

text \<open>
  A part that is an absolute path throws the root away: \<open>join\<close>, and with it
  \<open>etc_dir\<close> of a name that starts with a slash, gives a path that no longer depends on the
  data root.
\<close>

theorem join_absolute_part_escapes:
  assumes "is_absolute p"
  shows "join d (parts @ p # rest) = join_parts p rest \<and> etc_dir d p = p"
  using assms join_parts_absolute [OF assms, of "root_path d" "[''etc'']" "[]"]
  by (simp add: join_def join_parts_absolute etc_dir_def)

theorem join_absolute_part_escapes_witness:
  "etc_dir (from_path ''/data'') ''/tmp'' = ''/tmp''"
  using join_absolute_part_escapes [of "''/tmp''" "from_path ''/data''" "[]" "[]"]
  by (simp add: is_absolute_def is_sep_def)

end
