(* ===== verification/Unix_Env.thy ===== *)
theory Unix_Env
  imports Paths Streams
begin

text \<open>
  The operating system as the standard library shows it to the crate: a file system of
  directories, regular files and socket inodes, the listening sockets of all processes, and the
  system calls behind \<open>std::fs\<close>, \<open>UnixStream::connect\<close> and \<open>UnixListener::bind\<close>. Every
  call can also fail for a reason outside the model (permissions, quota, a full table):
  \<open>faults\<close> says which call on which path fails with which error, and every theorem holds for
  all of its values. Paths are looked up by their components; symbolic links and \<open>..\<close> are not
  followed.
\<close>

section \<open>State\<close>

datatype syscall =
    SysConnect | SysUnlink | SysMkdir | SysBind | SysStat | SysChmod
  | SysOpenRead | SysOpenWrite | SysWrite

datatype content = Dir | Regular string | Socket nat

record inode =
  content :: content
  mode :: u32

type_synonym file_key = "component list"

record sys =
  nodes :: "file_key \<Rightarrow> inode option"
  listening :: "nat \<Rightarrow> nat option"    \<comment> \<open>open listening socket \<open>\<mapsto>\<close> pid of its process\<close>
  next_socket :: nat
  umask_dir :: u32                   \<comment> \<open>mode a new directory, file or socket gets\<close>
  umask_file :: u32
  umask_socket :: u32
  faults :: "syscall \<Rightarrow> file_key \<Rightarrow> io_error option"

definition key :: "path \<Rightarrow> file_key" where
  "key p = filter (\<lambda>c. c \<noteq> CurDir) (components p)"

text \<open>The root directory and the working directory (the empty key) always exist.\<close>

definition lookup :: "sys \<Rightarrow> file_key \<Rightarrow> inode option" where
  "lookup s k = (if k = [] \<or> k = [RootDir] then Some \<lparr>content = Dir, mode = umask_dir s\<rparr> else nodes s k)"

definition set_node :: "file_key \<Rightarrow> inode option \<Rightarrow> sys \<Rightarrow> sys" where
  "set_node k n s = s\<lparr>nodes := (nodes s)(k := n)\<rparr>"

definition err :: "io_kind \<Rightarrow> io_error" where
  "err k = IoError k []"

lemma kind_err [simp]: "kind (err k) = k"
  by (simp add: err_def)

text \<open>The key of a path's parent names the directory that holds the path's entry.\<close>

lemma key_parent:
  assumes "parent p = Some q"
  shows "key q = butlast (key p)"
proof (cases "components p" rule: rev_cases)
  case Nil
  with parent_components [OF assms] show ?thesis by (simp add: key_def)
next
  case (snoc xs x)
  with parent_components [OF assms] have "components q = xs" by simp
  with snoc components_CurDir_first [of p xs] show ?thesis by (cases "x = CurDir") (auto simp: key_def)
qed

section \<open>Directories and files\<close>

definition is_dir_key :: "file_key \<Rightarrow> sys \<Rightarrow> bool" where
  "is_dir_key k s =
     (faults s SysStat k = None \<and>
      (case lookup s k of Some n \<Rightarrow> content n = Dir | None \<Rightarrow> False))"

text \<open>The empty path names nothing, not the working directory: \<open>stat\<close> on it fails.\<close>

definition is_dir :: "path \<Rightarrow> sys \<Rightarrow> bool" where
  "is_dir p s = (p \<noteq> [] \<and> is_dir_key (key p) s)"

definition exists_path :: "path \<Rightarrow> sys \<Rightarrow> bool" where
  "exists_path p s = (p \<noteq> [] \<and> faults s SysStat (key p) = None \<and> lookup s (key p) \<noteq> None)"

text \<open>What creating an entry at \<open>k\<close> needs of its parent directory.\<close>

definition parent_error :: "file_key \<Rightarrow> sys \<Rightarrow> io_error option" where
  "parent_error k s =
     (case lookup s (butlast k) of
        None \<Rightarrow> Some (err NotFound)
      | Some n \<Rightarrow> if content n = Dir then None else Some (err NotADirectory))"

definition mkdir :: "file_key \<Rightarrow> (sys, io_error, unit) fallible" where
  "mkdir k s =
     (case faults s SysMkdir k of
        Some e \<Rightarrow> (Inl e, s)
      | None \<Rightarrow>
          if lookup s k \<noteq> None then (Inl (err AlreadyExists), s)
          else (case parent_error k s of
                  Some e \<Rightarrow> (Inl e, s)
                | None \<Rightarrow> (Inr (), set_node k (Some \<lparr>content = Dir, mode = umask_dir s\<rparr>) s)))"

text \<open>
  \<open>DirBuilder::create_dir_all\<close>: make the directory; on \<open>NotFound\<close> make the parent first and
  try again; any other failure is fine when a directory is there.
\<close>

definition mkdir_or_dir :: "file_key \<Rightarrow> (sys, io_error, unit) fallible" where
  "mkdir_or_dir k s =
     (case mkdir k s of
        (Inr _, s') \<Rightarrow> (Inr (), s')
      | (Inl e, s') \<Rightarrow> if is_dir_key k s' then (Inr (), s') else (Inl e, s'))"

function create_dir_all_key :: "file_key \<Rightarrow> (sys, io_error, unit) fallible" where
  "create_dir_all_key k s =
     (if k = [] then (Inr (), s)
      else case mkdir k s of
        (Inr _, s') \<Rightarrow> (Inr (), s')
      | (Inl e, s') \<Rightarrow>
          if kind e = NotFound then
            (if k = [RootDir] then (Inl (IoError OtherKind ''failed to create whole tree''), s')
             else (case create_dir_all_key (butlast k) s' of
                     (Inl e', s'') \<Rightarrow> (Inl e', s'')
                   | (Inr _, s'') \<Rightarrow> mkdir_or_dir k s''))
          else if is_dir_key k s' then (Inr (), s')
          else (Inl e, s'))"
  by pat_completeness auto
termination
  by (relation "measure (\<lambda>(k, s). length k)") auto

declare create_dir_all_key.simps [simp del]

definition create_dir_all :: "path \<Rightarrow> (sys, io_error, unit) fallible" where
  "create_dir_all p = create_dir_all_key (key p)"

definition remove_file :: "path \<Rightarrow> (sys, io_error, unit) fallible" where
  "remove_file p s =
     (case faults s SysUnlink (key p) of
        Some e \<Rightarrow> (Inl e, s)
      | None \<Rightarrow>
          (case lookup s (key p) of
             None \<Rightarrow> (Inl (err NotFound), s)
           | Some n \<Rightarrow>
               if content n = Dir then (Inl (err IsADirectory), s)
               else (Inr (), set_node (key p) None s)))"

definition read_to_string :: "path \<Rightarrow> (sys, io_error, string) fallible" where
  "read_to_string p s =
     (case faults s SysOpenRead (key p) of
        Some e \<Rightarrow> (Inl e, s)
      | None \<Rightarrow>
          (case lookup s (key p) of
             None \<Rightarrow> (Inl (err NotFound), s)
           | Some n \<Rightarrow>
               (case content n of
                  Dir \<Rightarrow> (Inl (err IsADirectory), s)
                | Socket _ \<Rightarrow> (Inl (err OtherKind), s)
                | Regular text \<Rightarrow>
                    if utf8_valid text then (Inr text, s) else (Inl (err InvalidData), s))))"

text \<open>
  \<open>fs::write\<close> opens the file, creating or truncating it, and then writes. A failure of the
  second step leaves the file there, empty.
\<close>

definition open_truncated :: "path \<Rightarrow> (sys, io_error, inode) fallible" where
  "open_truncated p s =
     (case faults s SysOpenWrite (key p) of
        Some e \<Rightarrow> (Inl e, s)
      | None \<Rightarrow>
          (case lookup s (key p) of
             None \<Rightarrow>
               (case parent_error (key p) s of
                  Some e \<Rightarrow> (Inl e, s)
                | None \<Rightarrow>
                    (let n = \<lparr>content = Regular [], mode = umask_file s\<rparr>
                     in (Inr n, set_node (key p) (Some n) s)))
           | Some n \<Rightarrow>
               (case content n of
                  Dir \<Rightarrow> (Inl (err IsADirectory), s)
                | Socket _ \<Rightarrow> (Inl (err OtherKind), s)
                | Regular _ \<Rightarrow>
                    (let n' = n\<lparr>content := Regular []\<rparr>
                     in (Inr n', set_node (key p) (Some n') s)))))"

definition write_file :: "path \<Rightarrow> string \<Rightarrow> (sys, io_error, unit) fallible" where
  "write_file p text =
     try_bind (open_truncated p) (\<lambda>n s.
       case faults s SysWrite (key p) of
         Some e \<Rightarrow> (Inl e, s)
       | None \<Rightarrow> (Inr (), set_node (key p) (Some (n\<lparr>content := Regular text\<rparr>)) s))"

section \<open>Sockets\<close>

text \<open>
  \<open>connect\<close> reaches a listening socket only; a socket inode nobody listens on, and an inode
  that is no socket at all, refuse the connection.
\<close>

definition connect :: "path \<Rightarrow> (sys, io_error, unix_stream) fallible" where
  "connect p s =
     (case faults s SysConnect (key p) of
        Some e \<Rightarrow> (Inl e, s)
      | None \<Rightarrow>
          (case lookup s (key p) of
             None \<Rightarrow> (Inl (err NotFound), s)
           | Some n \<Rightarrow>
               (case content n of
                  Socket i \<Rightarrow>
                    if listening s i \<noteq> None
                    then (Inr \<lparr>stream_id = i, incoming = [], outgoing = [], out_room = None\<rparr>, s)
                    else (Inl (err ConnectionRefused), s)
                | _ \<Rightarrow> (Inl (err ConnectionRefused), s))))"

text \<open>\<open>UnixListener::bind\<close>: a new socket inode, listened on by the process \<open>pid\<close>.\<close>

definition listener_bind :: "nat \<Rightarrow> path \<Rightarrow> (sys, io_error, nat) fallible" where
  "listener_bind pid p s =
     (case faults s SysBind (key p) of
        Some e \<Rightarrow> (Inl e, s)
      | None \<Rightarrow>
          if lookup s (key p) \<noteq> None then (Inl (err AddrInUse), s)
          else (case parent_error (key p) s of
                  Some e \<Rightarrow> (Inl e, s)
                | None \<Rightarrow>
                    (let i = next_socket s in
                     (Inr i,
                      set_node (key p) (Some \<lparr>content = Socket i, mode = umask_socket s\<rparr>)
                        (s\<lparr>listening := (listening s)(i \<mapsto> pid), next_socket := Suc i\<rparr>)))))"

text \<open>
  The same as the two system calls it is: \<open>bind(2)\<close> makes the inode, which refuses connections until
  \<open>listen(2)\<close> is called on its socket.
\<close>

definition socket_bind :: "path \<Rightarrow> (sys, io_error, nat) fallible" where
  "socket_bind p s =
     (case faults s SysBind (key p) of
        Some e \<Rightarrow> (Inl e, s)
      | None \<Rightarrow>
          if lookup s (key p) \<noteq> None then (Inl (err AddrInUse), s)
          else (case parent_error (key p) s of
                  Some e \<Rightarrow> (Inl e, s)
                | None \<Rightarrow>
                    (let i = next_socket s in
                     (Inr i,
                      set_node (key p) (Some \<lparr>content = Socket i, mode = umask_socket s\<rparr>)
                        (s\<lparr>next_socket := Suc i\<rparr>)))))"

definition listen :: "nat \<Rightarrow> nat \<Rightarrow> sys \<Rightarrow> sys" where
  "listen pid i s = s\<lparr>listening := (listening s)(i \<mapsto> pid)\<rparr>"

lemma listener_bind_calls:
  "listener_bind pid p s =
     (case socket_bind p s of (Inl e, s') \<Rightarrow> (Inl e, s') | (Inr i, s') \<Rightarrow> (Inr i, listen pid i s'))"
  by (cases "lookup s (key p)")
    (simp_all add: listener_bind_def socket_bind_def listen_def set_node_def Let_def split: option.split)

text \<open>Dropping a \<open>UnixListener\<close> closes it; the inode stays.\<close>

definition close_listener :: "nat \<Rightarrow> sys \<Rightarrow> sys" where
  "close_listener i s = s\<lparr>listening := (listening s)(i := None)\<rparr>"

definition metadata :: "path \<Rightarrow> (sys, io_error, inode) fallible" where
  "metadata p s =
     (case faults s SysStat (key p) of
        Some e \<Rightarrow> (Inl e, s)
      | None \<Rightarrow> (case lookup s (key p) of None \<Rightarrow> (Inl (err NotFound), s) | Some n \<Rightarrow> (Inr n, s)))"

text \<open>\<open>chmod\<close> keeps the twelve permission bits.\<close>

definition set_permissions :: "path \<Rightarrow> u32 \<Rightarrow> (sys, io_error, unit) fallible" where
  "set_permissions p m s =
     (case faults s SysChmod (key p) of
        Some e \<Rightarrow> (Inl e, s)
      | None \<Rightarrow>
          (case lookup s (key p) of
             None \<Rightarrow> (Inl (err NotFound), s)
           | Some n \<Rightarrow> (Inr (), set_node (key p) (Some (n\<lparr>mode := m AND 4095\<rparr>)) s)))"

section \<open>What the calls leave alone\<close>

text \<open>
  \<open>agrees_off K\<close> relates two states that differ in nodes at keys of \<open>K\<close> only: the frame of
  the file-system calls.
\<close>

definition agrees_off :: "file_key set \<Rightarrow> sys \<Rightarrow> sys \<Rightarrow> bool" where
  "agrees_off K s t \<longleftrightarrow>
     (\<forall>k. k \<notin> K \<longrightarrow> nodes t k = nodes s k) \<and> listening t = listening s \<and>
     next_socket t = next_socket s \<and> faults t = faults s \<and>
     umask_dir t = umask_dir s \<and> umask_file t = umask_file s \<and> umask_socket t = umask_socket s"

lemma agrees_off_refl [simp]: "agrees_off K s s"
  by (simp add: agrees_off_def)

lemma agrees_off_trans: "agrees_off K s t \<Longrightarrow> agrees_off L t u \<Longrightarrow> agrees_off (K \<union> L) s u"
  by (simp add: agrees_off_def)

lemma agrees_off_step: "agrees_off K s t \<Longrightarrow> agrees_off K t u \<Longrightarrow> agrees_off K s u"
  using agrees_off_trans [of K s t K u] by simp

lemma agrees_off_mono: "agrees_off K s t \<Longrightarrow> K \<subseteq> L \<Longrightarrow> agrees_off L s t"
  by (auto simp: agrees_off_def)

lemma agrees_off_empty: "agrees_off {} s t \<longleftrightarrow> s = t"
  by (auto simp: agrees_off_def fun_eq_iff)

lemma agrees_off_set_node [simp]: "agrees_off {k} s (set_node k n s)"
  by (simp add: agrees_off_def set_node_def)

lemma lookup_agrees: "agrees_off K s t \<Longrightarrow> k \<notin> K \<Longrightarrow> lookup t k = lookup s k"
  by (simp add: agrees_off_def lookup_def)

lemma lookup_set_node [simp]:
  "k \<noteq> [] \<Longrightarrow> k \<noteq> [RootDir] \<Longrightarrow> lookup (set_node k n s) k = n"
  by (simp add: lookup_def set_node_def)

lemma lookup_set_node_other: "k \<noteq> k' \<Longrightarrow> lookup (set_node k n s) k' = lookup s k'"
  by (simp add: lookup_def set_node_def)

lemma set_node_fields [simp]:
  "listening (set_node k n s) = listening s" "next_socket (set_node k n s) = next_socket s"
  "faults (set_node k n s) = faults s" "umask_dir (set_node k n s) = umask_dir s"
  "umask_file (set_node k n s) = umask_file s" "umask_socket (set_node k n s) = umask_socket s"
  by (simp_all add: set_node_def)

lemma connect_pure: "snd (connect p s) = s"
  by (auto simp: connect_def split: option.splits content.splits)

lemma read_to_string_pure: "snd (read_to_string p s) = s"
  by (auto simp: read_to_string_def split: option.splits content.splits)

lemma metadata_pure: "snd (metadata p s) = s"
  by (auto simp: metadata_def split: option.splits)

lemma set_permissions_agrees: "agrees_off {key p} s (snd (set_permissions p m s))"
  by (auto simp: set_permissions_def split: option.splits)

lemma mkdir_agrees: "agrees_off {k} s (snd (mkdir k s))"
  by (auto simp: mkdir_def split: option.splits)

lemma mkdir_or_dir_agrees: "agrees_off {k} s (snd (mkdir_or_dir k s))"
  using mkdir_agrees [of k s]
  by (cases "mkdir k s"; cases "fst (mkdir k s)") (auto simp: mkdir_or_dir_def)

text \<open>A directory that is created was not there before; what was there stays.\<close>

lemma mkdir_keeps: "nodes s k' = Some n \<Longrightarrow> nodes (snd (mkdir k s)) k' = Some n"
  by (auto simp: mkdir_def set_node_def lookup_def split: option.splits)

lemma mkdir_or_dir_keeps: "nodes s k' = Some n \<Longrightarrow> nodes (snd (mkdir_or_dir k s)) k' = Some n"
  using mkdir_keeps [of s k' n k]
  by (cases "mkdir k s"; cases "fst (mkdir k s)") (auto simp: mkdir_or_dir_def)

lemma mkdir_ok_dir:
  "mkdir k s = (Inr u, t) \<Longrightarrow> \<exists>n. lookup t k = Some n \<and> content n = Dir"
  by (auto simp: mkdir_def lookup_def set_node_def split: option.splits if_splits)

lemma is_dir_key_lookup: "is_dir_key k s \<Longrightarrow> \<exists>n. lookup s k = Some n \<and> content n = Dir"
  by (auto simp: is_dir_key_def split: option.splits)

lemma mkdir_or_dir_ok_dir:
  "mkdir_or_dir k s = (Inr u, t) \<Longrightarrow> \<exists>n. lookup t k = Some n \<and> content n = Dir"
  by (cases "mkdir k s"; cases "fst (mkdir k s)")
    (auto simp: mkdir_or_dir_def is_dir_key_lookup mkdir_ok_dir split: if_splits)

text \<open>The cases of one level of \<open>create_dir_all\<close>.\<close>

lemma create_dir_all_key_cases:
  obtains (here) "k = []" "create_dir_all_key k s = (Inr (), s)"
  | (made) t where "k \<noteq> []" "mkdir k s = (Inr (), t)" "create_dir_all_key k s = (Inr (), t)"
  | (failed) e t where "k \<noteq> []" "mkdir k s = (Inl e, t)" "create_dir_all_key k s = (Inl e, t)"
      "kind e \<noteq> NotFound" "\<not> is_dir_key k t"
  | (there) e t where "k \<noteq> []" "mkdir k s = (Inl e, t)" "create_dir_all_key k s = (Inr (), t)"
      "is_dir_key k t"
  | (top) e e' t where "k = [RootDir]" "mkdir k s = (Inl e, t)" "create_dir_all_key k s = (Inl e', t)"
  | (above) e e' t t' where "k \<noteq> []" "mkdir k s = (Inl e, t)"
      "create_dir_all_key (butlast k) t = (Inl e', t')" "create_dir_all_key k s = (Inl e', t')"
  | (again) e t t' where "k \<noteq> []" "mkdir k s = (Inl e, t)"
      "create_dir_all_key (butlast k) t = (Inr (), t')" "create_dir_all_key k s = mkdir_or_dir k t'"
proof (cases "k = []")
  case True
  then show ?thesis using here by (simp add: create_dir_all_key.simps)
next
  case False
  note eq = create_dir_all_key.simps [of k s]
  show ?thesis
  proof (cases "mkdir k s")
    case (Pair r t)
    show ?thesis
    proof (cases r)
      case (Inr u)
      with False Pair eq show ?thesis by (intro made [of t]) simp_all
    next
      case (Inl e)
      note m = Pair [unfolded Inl]
      consider (nf_top) "kind e = NotFound" "k = [RootDir]" | (nf) "kind e = NotFound" "k \<noteq> [RootDir]"
        | (dir) "kind e \<noteq> NotFound" "is_dir_key k t" | (no) "kind e \<noteq> NotFound" "\<not> is_dir_key k t"
        by blast
      then show ?thesis
      proof cases
        case nf_top
        with False m eq show ?thesis by (intro top) simp_all
      next
        case nf
        obtain r' t' where up: "create_dir_all_key (butlast k) t = (r', t')" by fastforce
        show ?thesis
        proof (cases r')
          case (Inl e')
          with nf False m eq up show ?thesis by (intro above [of e t e' t']) simp_all
        next
          case (Inr u')
          with nf False m eq up show ?thesis by (intro again [of e t t']) simp_all
        qed
      next
        case dir
        with False m eq show ?thesis by (intro there [of e t]) simp_all
      next
        case no
        with False m eq show ?thesis by (intro failed [of e t]) simp_all
      qed
    qed
  qed
qed

lemma prefix_of_butlast: "prefix k' (butlast k) \<Longrightarrow> prefix k' k"
  using prefixeq_butlast prefix_order.trans by blast

lemma create_dir_all_key_agrees: "agrees_off {k'. prefix k' k} s (snd (create_dir_all_key k s))"
proof (induction k arbitrary: s rule: length_induct)
  case (1 k)
  have own: "agrees_off {k'. prefix k' k} s (snd (mkdir k s))"
    using mkdir_agrees by (rule agrees_off_mono) auto
  show ?case
  proof (cases k s rule: create_dir_all_key_cases)
    case (above e e' t t')
    have "agrees_off {k'. prefix k' (butlast k)} t (snd (create_dir_all_key (butlast k) t))"
      using 1 above(1) by simp
    with above(3) have "agrees_off {k'. prefix k' (butlast k)} t t'" by simp
    then have "agrees_off {k'. prefix k' k} t t'"
      by (rule agrees_off_mono) (blast intro: prefix_of_butlast)
    with own above(2) have "agrees_off {k'. prefix k' k} s t'"
      by (auto intro: agrees_off_step)
    with above show ?thesis by simp
  next
    case (again e t t')
    have "agrees_off {k'. prefix k' (butlast k)} t (snd (create_dir_all_key (butlast k) t))"
      using 1 again(1) by simp
    with again(3) have "agrees_off {k'. prefix k' (butlast k)} t t'" by simp
    then have "agrees_off {k'. prefix k' k} t t'"
      by (rule agrees_off_mono) (blast intro: prefix_of_butlast)
    moreover have "agrees_off {k'. prefix k' k} t' (snd (mkdir_or_dir k t'))"
      using mkdir_or_dir_agrees by (rule agrees_off_mono) auto
    ultimately have "agrees_off {k'. prefix k' k} s (snd (mkdir_or_dir k t'))"
      using own again(2) by (auto intro: agrees_off_step)
    with again show ?thesis by simp
  qed (use own in auto)
qed

lemma create_dir_all_key_keeps:
  "nodes s k' = Some n \<Longrightarrow> nodes (snd (create_dir_all_key k s)) k' = Some n"
proof (induction k arbitrary: s rule: length_induct)
  case (1 k)
  note own = mkdir_keeps [OF 1(2), of k]
  show ?case
  proof (cases k s rule: create_dir_all_key_cases)
    case (above e e' t t')
    have "nodes (snd (create_dir_all_key (butlast k) t)) k' = Some n"
      using 1(1) above(1,2) own by simp
    with above show ?thesis by simp
  next
    case (again e t t')
    have "nodes (snd (create_dir_all_key (butlast k) t)) k' = Some n"
      using 1(1) again(1,2) own by simp
    with again mkdir_or_dir_keeps show ?thesis by simp
  qed (use own 1(2) in auto)
qed

lemma create_dir_all_key_dir:
  "create_dir_all_key k s = (Inr u, t) \<Longrightarrow> \<exists>n. lookup t k = Some n \<and> content n = Dir"
  by (cases k s rule: create_dir_all_key_cases)
    (auto simp: mkdir_ok_dir is_dir_key_lookup mkdir_or_dir_ok_dir, simp add: lookup_def)

lemma create_dir_all_key_existing:
  assumes "faults s = (\<lambda>_ _. None)" and "lookup s k = Some n" and "content n = Dir"
  shows "create_dir_all_key k s = (Inr (), s)"
  using assms
  by (simp add: create_dir_all_key.simps [of k s] mkdir_def is_dir_key_def)

section \<open>The nix library\<close>

text \<open>
  The third-party calls of the crate, as a parameter: \<open>getsockopt(PeerCredentials)\<close>,
  \<open>User::from_uid\<close> and \<open>chown\<close>. An error is its display text. Nothing is assumed of them
  here; a theorem that needs more says so.
\<close>

record ucred =
  cred_pid :: int    \<comment> \<open>\<open>pid_t\<close>, signed 32 bits\<close>
  cred_uid :: u32

record nix_lib =
  peer_credentials :: "unix_stream \<Rightarrow> string + ucred"
  user_from_uid :: "u32 \<Rightarrow> string + string option"
  nix_chown :: "path \<Rightarrow> u32 \<Rightarrow> u32 \<Rightarrow> (sys, string, unit) fallible"

end
