(* ===== verification/Peer_Auth.thy ===== *)
theory Peer_Auth
  imports Unix_Env
begin

text \<open>
  \<open>ipc/auth.rs\<close>: who the peer of a control socket is, and whether it may use it. The kernel's
  answer about the peer and the passwd database are the \<open>nix\<close> parameter.
\<close>

section \<open>The peer\<close>

definition peer_uid :: "nix_lib \<Rightarrow> unix_stream \<Rightarrow> u32 option" where
  "peer_uid nix stream =
     (case peer_credentials nix stream of Inl _ \<Rightarrow> None | Inr c \<Rightarrow> Some (cred_uid c))"

text \<open>\<open>pid() as u32\<close> keeps the bits of the signed pid.\<close>

definition peer_pid :: "nix_lib \<Rightarrow> unix_stream \<Rightarrow> u32" where
  "peer_pid nix stream =
     (case peer_credentials nix stream of Inl _ \<Rightarrow> 0 | Inr c \<Rightarrow> word_of_int (cred_pid c))"

definition username_for_uid :: "nix_lib \<Rightarrow> u32 \<Rightarrow> string option" where
  "username_for_uid nix uid =
     (case user_from_uid nix uid of Inl _ \<Rightarrow> None | Inr user \<Rightarrow> user)"

section \<open>The policy\<close>

datatype auth =
    AuthNone
  | PeerUid (daemon_uid: u32) (allow_uids: "u32 list")
  | PeerUser (allow_users: "string list") (root_always: bool) (fail_closed_if_empty: bool)

fun allows :: "nix_lib \<Rightarrow> auth \<Rightarrow> unix_stream \<Rightarrow> bool" where
  "allows nix AuthNone stream = True"
| "allows nix (PeerUid daemon uids) stream =
     (case peer_uid nix stream of
        Some uid \<Rightarrow> uid = daemon \<or> List.member uids uid
      | None \<Rightarrow> False)"
| "allows nix (PeerUser users root_ok fail_closed) stream =
     (if users = [] then \<not> fail_closed
      else case peer_uid nix stream of
        Some uid \<Rightarrow>
          if uid = 0 \<and> root_ok then True
          else (case username_for_uid nix uid of
                  Some name \<Rightarrow> (\<exists>u \<in> set users. u = name)
                | None \<Rightarrow> False)
      | None \<Rightarrow> False)"

section \<open>Properties\<close>


text \<open>
  No credentials, no access: when the kernel does not tell the peer's uid, the peer passes only
  where the policy asks for no uid at all.
\<close>

theorem unknown_peer_is_refused:
  assumes "peer_credentials nix stream = Inl e" and "allows nix auth stream"
  shows "auth = AuthNone \<or> (\<exists>r. auth = PeerUser [] r False)"
  using assms by (cases auth) (auto simp: peer_uid_def split: if_splits)

definition no_nix :: nix_lib where
  "no_nix = \<lparr>peer_credentials = (\<lambda>_. Inl ''ENOTCONN''), user_from_uid = (\<lambda>_. Inr None),
     nix_chown = (\<lambda>_ _ _ s. (Inl ''EPERM'', s))\<rparr>"

definition a_stream :: unix_stream where
  "a_stream = \<lparr>stream_id = 3, incoming = [], outgoing = [], out_room = None\<rparr>"

theorem unknown_peer_is_refused_witness:
  "allows no_nix (PeerUser [] True False) a_stream \<and>
   (PeerUser [] True False = AuthNone \<or> (\<exists>r. PeerUser [] True False = PeerUser [] r False))"
  using unknown_peer_is_refused [of no_nix a_stream "''ENOTCONN''" "PeerUser [] True False"]
  by (simp add: no_nix_def)

text \<open>
  \<open>root_always\<close> does not always admit root. With an empty list and
  \<open>fail_closed_if_empty\<close> the check returns before it looks at the uid, so root is refused
  although the field says that uid 0 is always allowed.
\<close>

theorem root_always_refused_when_fail_closed:
  assumes "peer_uid nix stream = Some 0"
  shows "\<not> allows nix (PeerUser [] True True) stream \<and>
    allows nix (PeerUser [user] True True) stream"
  using assms by simp

definition root_nix :: nix_lib where
  "root_nix = no_nix\<lparr>peer_credentials := (\<lambda>_. Inr \<lparr>cred_pid = 1, cred_uid = 0\<rparr>)\<rparr>"

theorem root_always_refused_when_fail_closed_witness:
  "peer_uid root_nix a_stream = Some 0 \<and> \<not> allows root_nix (PeerUser [] True True) a_stream"
  using root_always_refused_when_fail_closed [of root_nix a_stream "''hub''"]
  by (simp add: peer_uid_def root_nix_def)

end
