(* ===== verification/Bind.thy ===== *)
theory Bind
  imports Peer_Auth
begin

text \<open>
  \<open>ipc/bind.rs\<close>: claiming and binding the control socket as a singleton. A live peer at the path
  is an error and is left alone; a leftover that refuses connections is unlinked first. The calls
  are those of \<open>Unix_Env\<close>; \<open>pid\<close> is the process that binds.
\<close>

section \<open>Options and errors\<close>

record bind_options =
  bo_path :: path
  bo_mode :: u32
  bo_chown :: "(u32 \<times> u32) option"
  bo_process_name :: string

datatype bind_error =
    AlreadyRunning (ar_process_name: string) (ar_location: string) (ar_path: path) (ar_pid: u32)
  | BindIo (io_path: path) (io_source: io_error)

text \<open>The display text of the two variants, up to the text of the underlying error.\<close>

fun bind_error_display :: "bind_error \<Rightarrow> string" where
  "bind_error_display (AlreadyRunning name location p pid) = name @ '' already running at '' @ location"
| "bind_error_display (BindIo p e) = ''I/O error on '' @ path_display p @ '': '' @ message e"

definition io_at :: "path \<Rightarrow> io_error \<Rightarrow> bind_error" where
  "io_at p source = BindIo p source"

section \<open>Claim\<close>

definition is_stale_socket_connect_error :: "io_error \<Rightarrow> bool" where
  "is_stale_socket_connect_error e = (case kind e of NotFound \<Rightarrow> True | ConnectionRefused \<Rightarrow> True | _ \<Rightarrow> False)"

definition already_running :: "nix_lib \<Rightarrow> path \<Rightarrow> string \<Rightarrow> unix_stream \<Rightarrow> bind_error" where
  "already_running nix p process_name stream =
     (let pid = peer_pid nix stream;
          location = (if pid \<noteq> 0
                      then path_display p @ '' (pid '' @ show_nat (unat pid) @ '')''
                      else path_display p)
      in AlreadyRunning process_name location p pid)"

definition claim :: "nix_lib \<Rightarrow> path \<Rightarrow> string \<Rightarrow> (sys, bind_error, unit) fallible" where
  "claim nix p process_name s =
     (case connect p s of
        (Inr stream, s1) \<Rightarrow> (Inl (already_running nix p process_name stream), s1)
      | (Inl e, s1) \<Rightarrow>
          if is_stale_socket_connect_error e then
            (case remove_file p s1 of
               (Inr _, s2) \<Rightarrow> (Inr (), s2)
             | (Inl e', s2) \<Rightarrow>
                 if kind e' = NotFound then (Inr (), s2) else (Inl (io_at p e'), s2))
          else (Inl (io_at p e), s1))"

section \<open>Bind\<close>

definition apply_socket_perms :: "path \<Rightarrow> u32 \<Rightarrow> (sys, io_error, unit) fallible" where
  "apply_socket_perms p m = try_bind (metadata p) (\<lambda>_. set_permissions p m)"

definition chown_socket :: "nix_lib \<Rightarrow> path \<Rightarrow> u32 \<Rightarrow> u32 \<Rightarrow> (sys, string, unit) fallible" where
  "chown_socket nix p uid gid = nix_chown nix p uid gid"

definition create_parent :: "path \<Rightarrow> (sys, bind_error, unit) fallible" where
  "create_parent p =
     (case parent p of
        Some par \<Rightarrow> if par \<noteq> [] then map_err (io_at par) (create_dir_all par) else ok ()
      | None \<Rightarrow> ok ())"

text \<open>Once the listener exists, an early return drops it, which closes the socket.\<close>

definition closing_on_error :: "nat \<Rightarrow> (sys, 'e, 'a) fallible \<Rightarrow> (sys, 'e, 'a) fallible" where
  "closing_on_error l m s =
     (case m s of (Inl e, s') \<Rightarrow> (Inl e, close_listener l s') | (Inr a, s') \<Rightarrow> (Inr a, s'))"

definition set_owner_and_mode :: "nix_lib \<Rightarrow> bind_options \<Rightarrow> (sys, bind_error, unit) fallible" where
  "set_owner_and_mode nix opts =
     try_bind (map_err (io_at (bo_path opts)) (apply_socket_perms (bo_path opts) (bo_mode opts))) (\<lambda>_.
       case bo_chown opts of
         None \<Rightarrow> ok ()
       | Some (uid, gid) \<Rightarrow>
           map_err (\<lambda>e. io_at (bo_path opts) (IoError OtherKind (''chown socket: '' @ e)))
             (chown_socket nix (bo_path opts) uid gid))"

definition bind :: "nix_lib \<Rightarrow> nat \<Rightarrow> bind_options \<Rightarrow> (sys, bind_error, nat) fallible" where
  "bind nix pid opts =
     try_bind (create_parent (bo_path opts)) (\<lambda>_.
     try_bind (claim nix (bo_path opts) (bo_process_name opts)) (\<lambda>_.
     try_bind (map_err (io_at (bo_path opts)) (listener_bind pid (bo_path opts))) (\<lambda>listener.
       closing_on_error listener
         (try_bind (set_owner_and_mode nix opts) (\<lambda>_. ok listener)))))"

section \<open>Who answers at a path\<close>

text \<open>The listening socket a client reaches at \<open>p\<close>, if any.\<close>

definition serving :: "sys \<Rightarrow> path \<Rightarrow> nat option" where
  "serving s p =
     (case lookup s (key p) of
        Some n \<Rightarrow> (case content n of Socket i \<Rightarrow> if listening s i \<noteq> None then Some i else None | _ \<Rightarrow> None)
      | None \<Rightarrow> None)"

text \<open>Socket numbers not yet handed out are not in use.\<close>

definition sockets_fresh :: "sys \<Rightarrow> bool" where
  "sockets_fresh s \<longleftrightarrow> (\<forall>i \<ge> next_socket s. listening s i = None)"

lemma serving_lookup:
  "serving s p = Some i \<longleftrightarrow>
     (\<exists>n. lookup s (key p) = Some n \<and> content n = Socket i \<and> listening s i \<noteq> None)"
  by (auto simp: serving_def split: option.splits content.splits)

lemma serving_key: "serving s p = Some i \<Longrightarrow> key p \<noteq> [] \<and> key p \<noteq> [RootDir]"
  by (auto simp: serving_lookup lookup_def)

lemma connect_serving:
  "serving s p = Some i \<Longrightarrow> faults s SysConnect (key p) = None \<Longrightarrow>
   connect p s = (Inr \<lparr>stream_id = i, incoming = [], outgoing = [], out_room = None\<rparr>, s)"
  by (auto simp: serving_lookup connect_def)

lemma connect_ok_serving: "connect p s = (Inr x, t) \<Longrightarrow> serving s p = Some (stream_id x) \<and> t = s"
  by (auto simp: connect_def serving_def split: option.splits content.splits if_splits)

text \<open>A claim that meets a live peer changes nothing.\<close>

lemma claim_serving:
  assumes "serving s p = Some i" and "faults s SysConnect (key p) = None"
  shows "\<exists>location pid. claim nix p name s = (Inl (AlreadyRunning name location p pid), s)"
  using connect_serving [OF assms] by (simp add: claim_def already_running_def Let_def)

lemma claim_ok:
  assumes "claim nix p name s = (Inr u, t)" and "faults s SysConnect (key p) = None"
  shows "serving s p = None \<and> (t = s \<or> t = set_node (key p) None s)"
  using assms connect_pure [of p s] connect_serving [of s p]
  by (cases "serving s p") (auto simp: claim_def remove_file_def Let_def split: prod.splits sum.splits option.splits if_splits)

lemma claim_frame: "agrees_off {key p} s (snd (claim nix p name s))"
  using connect_pure [of p s]
  by (auto simp: claim_def remove_file_def Let_def split: prod.splits sum.splits option.splits)

text \<open>Making the parent directories touches directories above the socket only.\<close>

lemma create_parent_cases:
  obtains "create_parent p s = (Inr (), s)"
  | q where "parent p = Some q" "key q = butlast (key p)"
      "create_parent p s = map_err (io_at q) (create_dir_all_key (butlast (key p))) s"
proof (cases "parent p")
  case None
  then show ?thesis using that(1) by (simp add: create_parent_def ok_def)
next
  case (Some q)
  then show ?thesis
    using that(1) that(2) [of q] key_parent [OF Some]
    by (cases "q = []") (simp_all add: create_parent_def ok_def create_dir_all_def map_err_def)
qed

lemma create_parent_frame:
  "agrees_off {k. strict_prefix k (key p)} s (snd (create_parent p s))"
proof (cases p s rule: create_parent_cases)
  case (2 q)
  have "agrees_off {k. strict_prefix k (key p)} s (snd (create_dir_all_key (butlast (key p)) s))"
  proof (cases "key p" rule: rev_cases)
    case Nil
    then show ?thesis by (simp add: create_dir_all_key.simps)
  next
    case (snoc xs x)
    then have "{k'. prefix k' xs} \<subseteq> {k. strict_prefix k (key p)}"
      by (auto simp: strict_prefix_def prefix_snoc dest: prefix_length_le)
    with agrees_off_mono [OF create_dir_all_key_agrees [of xs s]] snoc show ?thesis by simp
  qed
  with 2 show ?thesis by simp
qed simp

lemma create_parent_lookup: "lookup (snd (create_parent p s)) (key p) = lookup s (key p)"
  using lookup_agrees [OF create_parent_frame] by simp

lemma create_parent_fields:
  "listening (snd (create_parent p s)) = listening s"
  "next_socket (snd (create_parent p s)) = next_socket s"
  "faults (snd (create_parent p s)) = faults s"
  using create_parent_frame [of p s] by (simp_all add: agrees_off_def)

lemma create_parent_serving: "serving (snd (create_parent p s)) p = serving s p"
  by (simp add: serving_def create_parent_lookup create_parent_fields split: option.split content.split)

lemma create_parent_keeps:
  "nodes s k = Some n \<Longrightarrow> nodes (snd (create_parent p s)) k = Some n"
  by (cases p s rule: create_parent_cases) (simp_all add: create_dir_all_key_keeps)

text \<open>The listener that \<open>listener_bind\<close> hands out is new and is the one at the path.\<close>

lemma listener_bind_ok:
  assumes "listener_bind pid p s = (Inr l, t)"
  shows "l = next_socket s \<and> serving t p = Some l \<and> listening t = (listening s)(l \<mapsto> pid) \<and>
    next_socket t = Suc l \<and> faults t = faults s \<and> key p \<noteq> [] \<and> key p \<noteq> [RootDir] \<and>
    agrees_off {key p} (s\<lparr>listening := listening t, next_socket := Suc l\<rparr>) t"
proof -
  have "key p \<noteq> [] \<and> key p \<noteq> [RootDir]"
    using assms by (auto simp: listener_bind_def lookup_def split: option.splits if_splits)
  with assms show ?thesis
    by (auto simp: listener_bind_def Let_def serving_lookup split: option.splits if_splits)
qed

lemma listener_bind_failed: "listener_bind pid p s = (Inl e, t) \<Longrightarrow> t = s"
  by (auto simp: listener_bind_def Let_def split: option.splits if_splits)

text \<open>
  The owner of an inode is not part of the state, so \<open>chown(2)\<close>, which changes the owner of
  one inode, leaves the state as it is. This is what the properties assume of \<open>nix_chown\<close>.
\<close>

definition chown_changes_owner_only :: "nix_lib \<Rightarrow> bool" where
  "chown_changes_owner_only nix \<longleftrightarrow> (\<forall>p u g s. snd (nix_chown nix p u g s) = s)"

lemma set_permissions_ok:
  "set_permissions p m s = (Inr u, t) \<Longrightarrow>
   \<exists>n. lookup s (key p) = Some n \<and> t = set_node (key p) (Some (n\<lparr>mode := m AND 4095\<rparr>)) s"
  by (auto simp: set_permissions_def split: option.splits)

lemma set_permissions_failed: "set_permissions p m s = (Inl e, t) \<Longrightarrow> t = s"
  by (auto simp: set_permissions_def split: option.splits)

section \<open>Bind step by step\<close>

lemma apply_socket_perms_frame: "agrees_off {key p} s (snd (apply_socket_perms p m s))"
  unfolding apply_socket_perms_def
  by (rule try_bind_keeps) (auto simp: metadata_pure intro: agrees_off_step set_permissions_agrees)

lemma set_owner_and_mode_frame:
  assumes "chown_changes_owner_only nix"
  shows "agrees_off {key (bo_path opts)} s (snd (set_owner_and_mode nix opts s))"
  unfolding set_owner_and_mode_def
proof (rule try_bind_keeps)
  fix a s'
  assume "agrees_off {key (bo_path opts)} s s'"
  with assms show "agrees_off {key (bo_path opts)} s
    (snd ((case bo_chown opts of None \<Rightarrow> ok () | Some (uid, gid) \<Rightarrow>
      map_err (\<lambda>e. io_at (bo_path opts) (IoError OtherKind (''chown socket: '' @ e)))
        (chown_socket nix (bo_path opts) uid gid)) s'))"
    by (auto simp: chown_changes_owner_only_def chown_socket_def ok_def split: option.splits)
qed (simp add: apply_socket_perms_frame)

lemma set_owner_and_mode_ok:
  assumes "chown_changes_owner_only nix" and "set_owner_and_mode nix opts s = (Inr u, t)"
  shows "\<exists>n. lookup s (key (bo_path opts)) = Some n \<and>
    t = set_node (key (bo_path opts)) (Some (n\<lparr>mode := bo_mode opts AND 4095\<rparr>)) s"
proof -
  let ?p = "bo_path opts"
  from assms(2) obtain a s1 where perms: "apply_socket_perms ?p (bo_mode opts) s = (Inr a, s1)"
    and rest: "(case bo_chown opts of None \<Rightarrow> ok () | Some (uid, gid) \<Rightarrow>
      map_err (\<lambda>e. io_at ?p (IoError OtherKind (''chown socket: '' @ e)))
        (chown_socket nix ?p uid gid)) s1 = (Inr u, t)"
    unfolding set_owner_and_mode_def by (elim try_bind_eq_InrE) (auto dest: map_err_eq_InrD)
  have "t = s1"
  proof (cases "bo_chown opts")
    case (Some ug)
    with rest assms(1) show ?thesis
      by (cases ug) (auto simp: chown_changes_owner_only_def chown_socket_def dest!: map_err_eq_InrD
          dest: arg_cong [of _ _ snd])
  qed (use rest in simp)
  moreover obtain n s2 where "metadata ?p s = (Inr n, s2)" and "set_permissions ?p (bo_mode opts) s2 = (Inr a, s1)"
    using perms unfolding apply_socket_perms_def by (rule try_bind_eq_InrE)
  moreover from this have "s2 = s" using metadata_pure [of ?p s] by simp
  ultimately show ?thesis using set_permissions_ok by simp
qed

text \<open>The three ways in which a bind ends before it has a listener, and the two after.\<close>

lemma bind_cases:
  obtains (no_parent) e s1 where "create_parent (bo_path opts) s = (Inl e, s1)"
      "bind nix pid opts s = (Inl e, s1)"
  | (no_claim) e s1 s2 where "create_parent (bo_path opts) s = (Inr (), s1)"
      "claim nix (bo_path opts) (bo_process_name opts) s1 = (Inl e, s2)"
      "bind nix pid opts s = (Inl e, s2)"
  | (no_listener) e s1 s2 where "create_parent (bo_path opts) s = (Inr (), s1)"
      "claim nix (bo_path opts) (bo_process_name opts) s1 = (Inr (), s2)"
      "listener_bind pid (bo_path opts) s2 = (Inl e, s2)"
      "bind nix pid opts s = (Inl (io_at (bo_path opts) e), s2)"
  | (no_perms) e s1 s2 s3 s4 l where "create_parent (bo_path opts) s = (Inr (), s1)"
      "claim nix (bo_path opts) (bo_process_name opts) s1 = (Inr (), s2)"
      "listener_bind pid (bo_path opts) s2 = (Inr l, s3)"
      "set_owner_and_mode nix opts s3 = (Inl e, s4)"
      "bind nix pid opts s = (Inl e, close_listener l s4)"
  | (bound) s1 s2 s3 s4 l where "create_parent (bo_path opts) s = (Inr (), s1)"
      "claim nix (bo_path opts) (bo_process_name opts) s1 = (Inr (), s2)"
      "listener_bind pid (bo_path opts) s2 = (Inr l, s3)"
      "set_owner_and_mode nix opts s3 = (Inr (), s4)"
      "bind nix pid opts s = (Inr l, s4)"
proof -
  obtain r1 s1 where 1: "create_parent (bo_path opts) s = (r1, s1)" by fastforce
  obtain r2 s2 where 2: "claim nix (bo_path opts) (bo_process_name opts) s1 = (r2, s2)" by fastforce
  obtain r3 s3 where 3: "listener_bind pid (bo_path opts) s2 = (r3, s3)" by fastforce
  obtain r4 s4 where 4: "set_owner_and_mode nix opts s3 = (r4, s4)" by fastforce
  show ?thesis
  proof (cases r1)
    case (Inl e)
    with 1 show ?thesis by (intro no_parent [of e s1]) (simp_all add: bind_def)
  next
    case i1: (Inr u1)
    show ?thesis
    proof (cases r2)
      case (Inl e)
      with 1 2 i1 show ?thesis by (intro no_claim [of s1 e s2]) (simp_all add: bind_def)
    next
      case i2: (Inr u2)
      show ?thesis
      proof (cases r3)
        case (Inl e)
        with 3 listener_bind_failed have "s3 = s2" by simp
        with 1 2 3 i1 i2 Inl show ?thesis
          by (intro no_listener [of s1 s2 e]) (simp_all add: bind_def)
      next
        case i3: (Inr l)
        show ?thesis
        proof (cases r4)
          case (Inl e)
          with 1 2 3 4 i1 i2 i3 show ?thesis
            by (intro no_perms [of s1 s2 l s3 e s4]) (simp_all add: bind_def closing_on_error_def)
        next
          case (Inr u4)
          with 1 2 3 4 i1 i2 i3 show ?thesis
            by (intro bound [of s1 s2 l s3 s4]) (simp_all add: bind_def closing_on_error_def ok_def)
        qed
      qed
    qed
  qed
qed

lemma sockets_fresh_next: "sockets_fresh s \<Longrightarrow> listening s (next_socket s) = None"
  by (simp add: sockets_fresh_def)

lemma serving_frame:
  assumes "agrees_off K s t" and "key p \<notin> K"
  shows "serving t p = serving s p"
  using assms lookup_agrees [OF assms]
  by (simp add: serving_def agrees_off_def split: option.split content.split)

lemma agrees_off_fields:
  assumes "agrees_off K s t"
  shows "listening t = listening s" "next_socket t = next_socket s" "faults t = faults s"
  using assms by (simp_all add: agrees_off_def)

lemma bind_ok_environment:
  assumes "chown_changes_owner_only nix" and "bind nix pid opts s = (Inr l, t)"
  shows "faults t = faults s \<and>
    (\<exists>n. lookup t (butlast (key (bo_path opts))) = Some n \<and> content n = Dir)"
proof (cases rule: bind_cases [where opts = opts and s = s and nix = nix and pid = pid])
  case (bound s1 s2 s3 s4 l')
  let ?k = "key (bo_path opts)"
  have eqs: "l' = l" "s4 = t" using bound(5) assms(2) by simp_all
  have c: "agrees_off {?k} s1 s2" and o: "agrees_off {?k} s3 t"
    using claim_frame [of "bo_path opts" s1 nix "bo_process_name opts"] bound(2)
      set_owner_and_mode_frame [OF assms(1), of opts s3] bound(4) eqs by simp_all
  note b = listener_bind_ok [OF bound(3)]
  obtain n where n: "lookup s2 (butlast ?k) = Some n" "content n = Dir"
    using bound(3)
    by (auto simp: listener_bind_def parent_error_def split: option.splits if_splits)
  have off: "butlast ?k \<notin> {?k}" using b by (metis length_butlast diff_less length_greater_0_conv
      less_irrefl singletonD zero_less_one)
  have "lookup s3 (butlast ?k) = lookup (s2\<lparr>listening := listening s3, next_socket := Suc l'\<rparr>) (butlast ?k)"
    using b off lookup_agrees by blast
  moreover have "lookup t (butlast ?k) = lookup s3 (butlast ?k)" using o off by (rule lookup_agrees)
  ultimately have "lookup t (butlast ?k) = lookup s2 (butlast ?k)" by (simp add: lookup_def)
  moreover have "faults t = faults s"
    using create_parent_fields(3) [of "bo_path opts" s] bound(1) agrees_off_fields(3) [OF c]
      agrees_off_fields(3) [OF o] b by simp
  ultimately show ?thesis using n by simp
qed (use assms(2) in simp_all)

lemma create_parent_existing:
  assumes "faults s = (\<lambda>_ _. None)" and "lookup s (butlast (key p)) = Some n" and "content n = Dir"
  shows "create_parent p s = (Inr (), s)"
  by (cases p s rule: create_parent_cases) (simp_all add: create_dir_all_key_existing [OF assms])

lemma claim_nobody_serving:
  assumes "faults s = (\<lambda>_ _. None)" and "serving s p = None"
    and "\<And>n. lookup s (key p) = Some n \<Longrightarrow> content n \<noteq> Dir"
  shows "claim nix p name s = (Inr (), if lookup s (key p) = None then s else set_node (key p) None s)"
proof (cases "lookup s (key p)")
  case None
  with assms show ?thesis
    by (simp add: claim_def connect_def remove_file_def is_stale_socket_connect_error_def)
next
  case (Some n)
  have "connect p s = (Inl (err ConnectionRefused), s)"
    using assms Some by (auto simp: connect_def serving_def split: content.splits if_splits)
  with assms Some show ?thesis
    by (simp add: claim_def remove_file_def is_stale_socket_connect_error_def)
qed

lemma bind_success_serves_aux:
  assumes "chown_changes_owner_only nix" and "sockets_fresh s"
    and "faults s SysConnect (key (bo_path opts)) = None"
    and "bind nix pid opts s = (Inr l, t)"
  shows "serving s (bo_path opts) = None \<and> serving t (bo_path opts) = Some l \<and>
    listening t = (listening s)(l \<mapsto> pid) \<and> listening s l = None \<and>
    map_option mode (lookup t (key (bo_path opts))) = Some (bo_mode opts AND 4095) \<and>
    sockets_fresh t"
proof (cases rule: bind_cases [where opts = opts and s = s and nix = nix and pid = pid])
  case (bound s1 s2 s3 s4 l')
  let ?p = "bo_path opts"
  have eqs: "l' = l" "s4 = t" using bound(5) assms(4) by simp_all
  have f1: "listening s1 = listening s" "next_socket s1 = next_socket s" "faults s1 = faults s"
    using create_parent_fields [of ?p s] bound(1) by simp_all
  have c: "serving s1 ?p = None" "agrees_off {key ?p} s1 s2"
    using claim_ok [OF bound(2)] f1(3) assms(3) claim_frame [of ?p s1 nix "bo_process_name opts"] bound(2)
    by simp_all
  note f2 = agrees_off_fields [OF c(2)]
  note b = listener_bind_ok [OF bound(3)]
  obtain n where n: "lookup s3 (key ?p) = Some n"
    "s4 = set_node (key ?p) (Some (n\<lparr>mode := bo_mode opts AND 4095\<rparr>)) s3"
    using set_owner_and_mode_ok [OF assms(1) bound(4)] by blast
  have "serving s ?p = None" using create_parent_serving [of ?p s] bound(1) c(1) by simp
  moreover have "serving t ?p = Some l" using b n eqs by (auto simp: serving_lookup)
  moreover have "listening t = (listening s)(l \<mapsto> pid)" using b n f1 f2 eqs by simp
  moreover have "listening s l = None" using assms(2) b f1 f2 eqs by (simp add: sockets_fresh_next)
  moreover have "lookup t (key ?p) = Some (n\<lparr>mode := bo_mode opts AND 4095\<rparr>)" using b n eqs by simp
  moreover have "sockets_fresh t" using assms(2) b n f1 f2 eqs by (auto simp: sockets_fresh_def)
  ultimately show ?thesis by simp
qed (use assms(4) in simp_all)

section \<open>An example system\<close>

text \<open>A hub with an empty \<open>/run\<close>, no faults and no \<open>SO_PEERCRED\<close>; the witnesses run on it.\<close>

definition hub_sys :: sys where
  "hub_sys = \<lparr>nodes = [[RootDir, Normal ''run''] \<mapsto> \<lparr>content = Dir, mode = 493\<rparr>],
     listening = (\<lambda>_. None), next_socket = 0, umask_dir = 493, umask_file = 420,
     umask_socket = 493, faults = (\<lambda>_ _. None)\<rparr>"

definition hub_opts :: bind_options where
  "hub_opts = \<lparr>bo_path = ''/run/d.sock'', bo_mode = 384, bo_chown = None,
     bo_process_name = ''micronet''\<rparr>"

abbreviation "hub_bound \<equiv> snd (bind no_nix 7 hub_opts hub_sys)"

lemma hub_key: "key (bo_path hub_opts) = [RootDir, Normal ''run'', Normal ''d.sock'']"
  by (simp add: hub_opts_def key_def components_def is_absolute_def is_sep_def segments_def
      skipped_def segment_def)

lemma hub_facts:
  "chown_changes_owner_only no_nix" "sockets_fresh hub_sys" "faults hub_sys = (\<lambda>_ _. None)"
  "bo_chown hub_opts = None" "next_socket hub_sys = 0" "listening hub_sys = (\<lambda>_. None)"
  "lookup hub_sys (key (bo_path hub_opts)) = None" "serving hub_sys (bo_path hub_opts) = None"
  "lookup hub_sys (butlast (key (bo_path hub_opts))) = Some \<lparr>content = Dir, mode = 493\<rparr>"
proof -
  show "bo_chown hub_opts = None" by (simp add: hub_opts_def)
qed (auto simp: chown_changes_owner_only_def no_nix_def sockets_fresh_def hub_sys_def hub_key
      lookup_def serving_def)

lemma hub_bind: "bind no_nix 7 hub_opts hub_sys = (Inr 0, hub_bound)"
proof -
  have parent: "create_parent (bo_path hub_opts) hub_sys = (Inr (), hub_sys)"
    using hub_facts by (intro create_parent_existing) auto
  have claim: "claim no_nix (bo_path hub_opts) (bo_process_name hub_opts) hub_sys = (Inr (), hub_sys)"
    using claim_nobody_serving [of hub_sys "bo_path hub_opts" no_nix] hub_facts by simp
  obtain s2 where listen: "listener_bind 7 (bo_path hub_opts) hub_sys = (Inr 0, s2)"
    using hub_facts by (simp add: listener_bind_def parent_error_def Let_def)
  note facts = listener_bind_ok [OF listen]
  obtain n where "lookup s2 (key (bo_path hub_opts)) = Some n" using facts by (auto simp: serving_lookup)
  moreover have "faults s2 = (\<lambda>_ _. None)" using facts hub_facts by simp
  ultimately obtain t where "set_owner_and_mode no_nix hub_opts s2 = (Inr (), t)"
    using hub_facts
    by (simp add: set_owner_and_mode_def apply_socket_perms_def metadata_def set_permissions_def unfold_io)
  with parent claim listen show ?thesis by (simp add: bind_def closing_on_error_def ok_def)
qed

lemma hub_bound_facts:
  "serving hub_bound (bo_path hub_opts) = Some 0" "faults hub_bound = (\<lambda>_ _. None)"
  using bind_success_serves_aux [OF hub_facts(1,2) _ hub_bind] bind_ok_environment [OF hub_facts(1) hub_bind]
    hub_facts by simp_all

lemma second_bind_refused_aux:
  assumes "chown_changes_owner_only nix" and "sockets_fresh s" and "faults s = (\<lambda>_ _. None)"
    and "bind nix pid opts s = (Inr l, t)" and "bo_path opts' = bo_path opts"
  shows "\<exists>location n. bind nix pid' opts' t =
    (Inl (AlreadyRunning (bo_process_name opts') location (bo_path opts) n), t)"
proof -
  have up: "serving t (bo_path opts') = Some l"
    using bind_success_serves_aux [OF assms(1,2) _ assms(4)] assms(3,5) by simp
  obtain n where t: "faults t = (\<lambda>_ _. None)"
      "lookup t (butlast (key (bo_path opts'))) = Some n" "content n = Dir"
    using bind_ok_environment [OF assms(1,4)] assms(3,5) by auto
  obtain location q where "claim nix (bo_path opts') (bo_process_name opts') t =
      (Inl (AlreadyRunning (bo_process_name opts') location (bo_path opts') q), t)"
    using claim_serving [OF up] t(1) by fastforce
  with create_parent_existing [OF t] assms(5) show ?thesis by (simp add: bind_def)
qed

lemma bind_failed_listening:
  assumes "chown_changes_owner_only nix" and "sockets_fresh s" and "bind nix pid opts s = (Inl e, t)"
  shows "listening t = listening s"
proof (cases rule: bind_cases [where opts = opts and s = s and nix = nix and pid = pid])
  case (no_parent e' s1)
  with assms(3) create_parent_fields [of "bo_path opts" s] show ?thesis by simp
next
  case (no_claim e' s1 s2)
  with assms(3) create_parent_fields [of "bo_path opts" s]
    agrees_off_fields(1) [OF claim_frame [of "bo_path opts" s1 nix "bo_process_name opts"]]
  show ?thesis by simp
next
  case (no_listener e' s1 s2)
  with assms(3) create_parent_fields [of "bo_path opts" s]
    agrees_off_fields(1) [OF claim_frame [of "bo_path opts" s1 nix "bo_process_name opts"]]
  show ?thesis by simp
next
  case (no_perms e' s1 s2 s3 s4 l)
  note c = agrees_off_fields [OF claim_frame [of "bo_path opts" s1 nix "bo_process_name opts"]]
  have "listening s3 = (listening s)(l \<mapsto> pid)" "l = next_socket s"
    using listener_bind_ok [OF no_perms(3)] no_perms(1,2) c create_parent_fields [of "bo_path opts" s]
    by simp_all
  moreover have "listening s4 = listening s3"
    using agrees_off_fields(1) [OF set_owner_and_mode_frame [OF assms(1), of opts s3]] no_perms(4) by simp
  ultimately show ?thesis
    using assms(2,3) no_perms(5)
    by (auto simp: close_listener_def sockets_fresh_next fun_eq_iff)
qed (use assms(3) in simp_all)

text \<open>A bind on any path, by any process, leaves a socket that answers elsewhere or here alone.\<close>

lemma node_serving:
  "nodes s (key p) = nodes t (key p) \<Longrightarrow> listening s = listening t \<Longrightarrow> serving s p = serving t p"
  by (simp add: serving_def lookup_def split: option.split content.split)

lemma bind_keeps_serving:
  assumes "chown_changes_owner_only nix" and "sockets_fresh s"
    and "faults s SysConnect (key p) = None" and "serving s p = Some i" and "bind nix pid opts s = (r, t)"
  shows "serving t p = Some i"
proof -
  let ?k = "key (bo_path opts)"
  note k = serving_key [OF assms(4)]
  from assms(4) obtain n where n: "nodes s (key p) = Some n" "content n = Socket i" and i: "listening s i \<noteq> None"
    using k by (auto simp: serving_lookup lookup_def)
  have i_next: "i \<noteq> next_socket s" using i assms(2) by (auto simp: sockets_fresh_def)
  define s1 where "s1 = snd (create_parent (bo_path opts) s)"
  have s1: "nodes s1 (key p) = Some n" "listening s1 = listening s" "next_socket s1 = next_socket s"
    "faults s1 = faults s"
    using create_parent_keeps [OF n(1)] create_parent_fields by (simp_all add: s1_def)
  have up1: "serving s1 p = Some i" using s1 n i k by (simp add: serving_lookup lookup_def)
  define s2 where "s2 = snd (claim nix (bo_path opts) (bo_process_name opts) s1)"
  have frame: "agrees_off {?k} s1 s2" unfolding s2_def by (rule claim_frame)
  show ?thesis
  proof (cases "?k = key p")
    case True
    have same: "serving s1 (bo_path opts) = Some i" using up1 True by (simp add: serving_def)
    obtain location q where "claim nix (bo_path opts) (bo_process_name opts) s1 =
        (Inl (AlreadyRunning (bo_process_name opts) location (bo_path opts) q), s1)"
      using claim_serving [OF same] assms(3) s1(4) True by fastforce
    with assms(5) up1 s1_def show ?thesis
      by (cases rule: bind_cases [where opts = opts and s = s and nix = nix and pid = pid]) auto
  next
    case False
    then have off: "key p \<notin> {?k}" by simp
    have up2: "serving s2 p = Some i" using serving_frame [OF frame off] up1 by simp
    have f2: "next_socket s2 = next_socket s" "listening s2 = listening s"
      using agrees_off_fields [OF frame] s1 by simp_all
    have later: "serving s4 p = Some i \<and> serving (close_listener l s4) p = Some i"
      if l: "listener_bind pid (bo_path opts) s2 = (Inr l, s3)" and s4: "agrees_off {?k} s3 s4" for l s3 s4
    proof -
      note b = listener_bind_ok [OF l]
      have "l \<noteq> i" using b f2 i_next by simp
      have "lookup s3 (key p) = lookup s2 (key p)"
        using b off k by (auto simp: lookup_def agrees_off_def)
      with up2 b \<open>l \<noteq> i\<close> f2 have up3: "serving s3 p = Some i" by (auto simp: serving_lookup)
      then have "serving s4 p = Some i" using serving_frame [OF s4 off] by simp
      with \<open>l \<noteq> i\<close> show ?thesis by (auto simp: serving_lookup close_listener_def lookup_def)
    qed
    note perms = set_owner_and_mode_frame [OF assms(1), of opts]
    from assms(5) show ?thesis
      by (cases rule: bind_cases [where opts = opts and s = s and nix = nix and pid = pid])
        (use up1 up2 s1_def s2_def later perms in \<open>force+\<close>)
  qed
qed

lemma bind_recovers_aux:
  assumes "faults s = (\<lambda>_ _. None)" and "bo_chown opts = None"
    and "lookup s (butlast (key (bo_path opts))) = Some d" and "content d = Dir"
    and "key (bo_path opts) \<noteq> []" and "key (bo_path opts) \<noteq> [RootDir]"
    and "serving s (bo_path opts) = None"
    and "\<And>n. lookup s (key (bo_path opts)) = Some n \<Longrightarrow> content n \<noteq> Dir"
  shows "fst (bind nix pid opts s) = Inr (next_socket s)"
proof -
  let ?p = "bo_path opts"
  let ?s1 = "if lookup s (key ?p) = None then s else set_node (key ?p) None s"
  have "butlast (key ?p) \<noteq> key ?p" using assms(5) by (metis append_butlast_last_id append_self_conv list.discI)
  then have s1: "lookup ?s1 (key ?p) = None" "lookup ?s1 (butlast (key ?p)) = Some d"
    "next_socket ?s1 = next_socket s" "faults ?s1 = (\<lambda>_ _. None)"
    using assms by (simp_all add: lookup_set_node_other)
  then obtain s2 where b: "listener_bind pid ?p ?s1 = (Inr (next_socket s), s2)"
    using assms(4) by (simp add: listener_bind_def parent_error_def Let_def)
  note facts = listener_bind_ok [OF b]
  obtain n where "lookup s2 (key ?p) = Some n" using facts by (auto simp: serving_lookup)
  moreover have "faults s2 = (\<lambda>_ _. None)" using facts s1 by simp
  ultimately have "\<exists>t. set_owner_and_mode nix opts s2 = (Inr (), t)"
    using assms(2)
    by (simp add: set_owner_and_mode_def apply_socket_perms_def metadata_def set_permissions_def unfold_io)
  then obtain t where "set_owner_and_mode nix opts s2 = (Inr (), t)" by blast
  with b create_parent_existing [OF assms(1,3,4)] claim_nobody_serving [OF assms(1,7,8)]
  show ?thesis by (simp add: bind_def closing_on_error_def ok_def del: if_split)
qed

section \<open>Properties\<close>

text \<open>
  C1: A live socket is never stolen. When a process is listening at the path and answers the
  probe, \<open>bind\<close> fails, with \<open>AlreadyRunning\<close> unless the parent directory could not be made;
  the listener, its inode and every inode that was there stay, so clients still reach it.
\<close>

theorem bind_never_steals_live_socket:
  assumes "serving s (bo_path opts) = Some i"
    and "faults s SysConnect (key (bo_path opts)) = None"
    and "bind nix pid opts s = (r, t)"
  shows "(\<exists>location n. r = Inl (AlreadyRunning (bo_process_name opts) location (bo_path opts) n)
       \<or> (\<exists>e. fst (create_parent (bo_path opts) s) = Inl e \<and> r = Inl e)) \<and>
    serving t (bo_path opts) = Some i \<and> listening t = listening s \<and>
    (\<forall>k n. nodes s k = Some n \<longrightarrow> nodes t k = Some n)"
proof (cases "create_parent (bo_path opts) s")
  case (Pair r1 s1)
  have s1: "serving s1 (bo_path opts) = Some i" "listening s1 = listening s"
    "faults s1 SysConnect (key (bo_path opts)) = None"
    using create_parent_serving [of "bo_path opts" s] create_parent_fields [of "bo_path opts" s]
      assms(1,2) Pair by simp_all
  have keep: "nodes s k = Some n \<Longrightarrow> nodes s1 k = Some n" for k n
    using create_parent_keeps [of s k n "bo_path opts"] Pair by simp
  show ?thesis
  proof (cases r1)
    case (Inl e)
    with Pair assms(3) s1 keep show ?thesis by (auto simp: bind_def)
  next
    case (Inr u)
    obtain location n where
      "claim nix (bo_path opts) (bo_process_name opts) s1 =
        (Inl (AlreadyRunning (bo_process_name opts) location (bo_path opts) n), s1)"
      using claim_serving [OF s1(1) s1(3)] by blast
    with Inr Pair assms(3) s1 keep show ?thesis by (auto simp: bind_def)
  qed
qed

theorem bind_never_steals_live_socket_witness:
  "serving hub_bound ''/run/d.sock'' = Some 0 \<and>
   serving (snd (bind no_nix 8 hub_opts hub_bound)) ''/run/d.sock'' = Some 0"
proof -
  obtain r t where run: "bind no_nix 8 hub_opts hub_bound = (r, t)" by fastforce
  from bind_never_steals_live_socket [OF hub_bound_facts(1) _ run] hub_bound_facts run show ?thesis
    by (simp add: hub_opts_def)
qed

text \<open>
  C24: A bind that succeeds owns the path. No live listener was displaced; afterwards the path
  leads to the new listener, which belongs to the binding process, with the requested permission
  bits; no other listening socket changed.
\<close>

theorem bind_success_serves:
  assumes "chown_changes_owner_only nix" and "sockets_fresh s"
    and "faults s SysConnect (key (bo_path opts)) = None"
    and "bind nix pid opts s = (Inr l, t)"
  shows "serving s (bo_path opts) = None \<and> serving t (bo_path opts) = Some l \<and>
    listening t = (listening s)(l \<mapsto> pid) \<and> listening s l = None \<and>
    map_option mode (lookup t (key (bo_path opts))) = Some (bo_mode opts AND 4095) \<and>
    sockets_fresh t"
  using assms by (rule bind_success_serves_aux)

theorem bind_success_serves_witness:
  "serving hub_bound ''/run/d.sock'' = Some 0 \<and> listening hub_bound = [0 \<mapsto> 7] \<and>
   map_option mode (lookup hub_bound (key ''/run/d.sock'')) = Some 384"
  using bind_success_serves [OF hub_facts(1,2) _ hub_bind] hub_facts
  by (simp add: hub_opts_def)

text \<open>
  The singleton holds over time. After a successful bind, every further bind of the same path
  (by any process, with any options) reports \<open>AlreadyRunning\<close> and changes nothing.
\<close>

theorem second_bind_refused:
  assumes "chown_changes_owner_only nix" and "sockets_fresh s" and "faults s = (\<lambda>_ _. None)"
    and "bind nix pid opts s = (Inr l, t)" and "bo_path opts' = bo_path opts"
  shows "\<exists>location n. bind nix pid' opts' t =
    (Inl (AlreadyRunning (bo_process_name opts') location (bo_path opts) n), t)"
  using assms by (rule second_bind_refused_aux)

theorem second_bind_refused_witness:
  "\<exists>location n. bind no_nix 8 hub_opts hub_bound =
    (Inl (AlreadyRunning ''micronet'' location ''/run/d.sock'' n), hub_bound)"
  using second_bind_refused [OF hub_facts(1-3) hub_bind, of hub_opts 8] by (simp add: hub_opts_def)

text \<open>
  A bind that fails leaves no listener. Whatever call failed, the set of listening sockets is
  what it was: a listener that was opened before \<open>chmod\<close> or \<open>chown\<close> failed is closed.
\<close>

theorem bind_error_leaves_no_listener:
  assumes "chown_changes_owner_only nix" and "sockets_fresh s" and "bind nix pid opts s = (Inl e, t)"
  shows "listening t = listening s"
  using assms by (rule bind_failed_listening)

text \<open>The witness: \<open>chmod\<close> fails after the listener was opened.\<close>

definition chmod_fails_sys :: sys where
  "chmod_fails_sys = hub_sys\<lparr>faults := (\<lambda>c k. if c = SysChmod then Some (err PermissionDenied) else None)\<rparr>"

theorem bind_error_leaves_no_listener_witness:
  "fst (bind no_nix 7 hub_opts chmod_fails_sys) = Inl (BindIo ''/run/d.sock'' (err PermissionDenied)) \<and>
   listening (snd (bind no_nix 7 hub_opts chmod_fails_sys)) = (\<lambda>_. None)"
proof -
  have fails: "fst (bind no_nix 7 hub_opts chmod_fails_sys) = Inl (BindIo ''/run/d.sock'' (err PermissionDenied))"
    by code_simp
  then obtain t where run:
    "bind no_nix 7 hub_opts chmod_fails_sys = (Inl (BindIo ''/run/d.sock'' (err PermissionDenied)), t)"
    by (cases "bind no_nix 7 hub_opts chmod_fails_sys") auto
  have "sockets_fresh chmod_fails_sys" "listening chmod_fails_sys = (\<lambda>_. None)"
    by (simp_all add: chmod_fails_sys_def hub_sys_def sockets_fresh_def)
  with bind_error_leaves_no_listener [OF hub_facts(1) _ run] fails run show ?thesis by simp
qed

text \<open>
  A free path is always bound. When no system call fails, the directory exists, the path is not
  itself a directory and nobody serves it, \<open>bind\<close> succeeds: a leftover of a crashed daemon
  never keeps the next one out.
\<close>

theorem bind_recovers_stale_path:
  assumes "faults s = (\<lambda>_ _. None)" and "bo_chown opts = None"
    and "lookup s (butlast (key (bo_path opts))) = Some d" and "content d = Dir"
    and "key (bo_path opts) \<noteq> []" and "key (bo_path opts) \<noteq> [RootDir]"
    and "serving s (bo_path opts) = None"
    and "\<And>n. lookup s (key (bo_path opts)) = Some n \<Longrightarrow> content n \<noteq> Dir"
  shows "fst (bind nix pid opts s) = Inr (next_socket s)"
  using assms by (rule bind_recovers_aux)

text \<open>The witness: the daemon that bound the path dies, and another one binds it.\<close>

theorem bind_recovers_stale_path_witness:
  "fst (bind no_nix 9 hub_opts (close_listener 0 hub_bound)) = Inr 1"
proof -
  let ?s = "close_listener 0 hub_bound"
  obtain d where d: "lookup hub_bound (butlast (key (bo_path hub_opts))) = Some d" "content d = Dir"
    using bind_ok_environment [OF hub_facts(1) hub_bind] by blast
  have same: "lookup ?s k = lookup hub_bound k" for k by (simp add: lookup_def close_listener_def)
  obtain n where n: "lookup hub_bound (key (bo_path hub_opts)) = Some n" "content n = Socket 0"
    using hub_bound_facts(1) by (auto simp: serving_lookup)
  have "next_socket hub_bound = 1" by code_simp
  moreover have "faults ?s = (\<lambda>_ _. None)" "listening ?s 0 = None" "next_socket ?s = next_socket hub_bound"
    using hub_bound_facts by (simp_all add: close_listener_def)
  moreover from this have "serving ?s (bo_path hub_opts) = None" using n same by (simp add: serving_def)
  ultimately show ?thesis
    using bind_recovers_stale_path [of ?s hub_opts d no_nix 9] d n same hub_facts(4)
    by (simp add: hub_key)
qed

text \<open>
  The claim does not look at what it unlinks. The kernel refuses a connection to an inode that
  is no socket in the same way as to a dead socket, so a regular file at the path is deleted.
\<close>

theorem claim_deletes_regular_file:
  assumes "faults s = (\<lambda>_ _. None)" and "lookup s (key p) = Some n" and "content n = Regular text"
  shows "claim nix p name s = (Inr (), set_node (key p) None s)"
  using assms claim_nobody_serving [of s p nix name] by (simp add: serving_def)

theorem claim_deletes_regular_file_witness:
  "lookup (snd (claim no_nix ''/run/notes'' ''micronet''
     (set_node (key ''/run/notes'') (Some \<lparr>content = Regular ''text'', mode = 420\<rparr>) hub_sys)))
     (key ''/run/notes'') = None"
proof -
  have k: "key ''/run/notes'' = [RootDir, Normal ''run'', Normal ''notes'']" by code_simp
  show ?thesis
    using claim_deletes_regular_file [of "set_node (key ''/run/notes'')
        (Some \<lparr>content = Regular ''text'', mode = 420\<rparr>) hub_sys" "''/run/notes''" _ "''text''"
        no_nix "''micronet''"] hub_facts(3) k
    by simp
qed

text \<open>The display text of \<open>AlreadyRunning\<close> contains \<open>already running\<close>, and where the kernel tells
  the peer's pid, the location ends in it.\<close>

theorem already_running_message:
  assumes "claim nix p name s = (Inl (AlreadyRunning name' location p' pid), t)"
  shows "sublist ''already running'' (bind_error_display (AlreadyRunning name' location p' pid)) \<and>
    name' = name \<and> p' = p \<and>
    location = (if pid = 0 then path_display p
                else path_display p @ '' (pid '' @ show_nat (unat pid) @ '')'')"
proof -
  have "sublist b (a @ b @ c)" for a b c :: string by (simp add: sublist_appendI)
  from this [of "''already running''" "name' @ '' ''" "'' at '' @ location"]
  have "sublist ''already running'' (bind_error_display (AlreadyRunning name' location p' pid))" by simp
  with assms show ?thesis
    by (auto simp: claim_def already_running_def Let_def io_at_def split: prod.splits sum.splits if_splits)
qed

theorem already_running_message_witness:
  "\<exists>location pid. fst (claim no_nix ''/run/d.sock'' ''micronet'' hub_bound) =
     Inl (AlreadyRunning ''micronet'' location ''/run/d.sock'' pid) \<and>
   sublist ''already running'' (bind_error_display (AlreadyRunning ''micronet'' location ''/run/d.sock'' pid))"
proof -
  obtain location pid where c: "claim no_nix (bo_path hub_opts) ''micronet'' hub_bound =
      (Inl (AlreadyRunning ''micronet'' location (bo_path hub_opts) pid), hub_bound)"
    using claim_serving [OF hub_bound_facts(1)] hub_bound_facts(2) by fastforce
  from already_running_message [OF c] c show ?thesis by (auto simp: hub_opts_def)
qed

end
