(* ===== verification/Bind_Race.thy ===== *)
theory Bind_Race
  imports Bind
begin

text \<open>
  Several processes binding the same path at once. \<open>bind\<close> is not one step: between the probe,
  the unlink and the bind another process can act. \<open>bind_micro\<close> is \<open>bind\<close> cut at its system
  calls, with a program counter (\<open>create_dir_all\<close> counts as one, its directories are never removed); run
  alone it is \<open>bind\<close>. The step relation interleaves any number of processes. Once one process serves the
  path and no other is past its probe, nobody can take the path; but two processes that both probed a
  stale path can both end up serving, the second having unlinked the first one's live socket.
\<close>

section \<open>Bind, one system call at a time\<close>

datatype bind_pc =
    AtParent | AtProbe | AtUnlink | AtBind | AtListen nat | AtStat nat | AtChmod nat | AtChown nat
  | Serving nat | Failed bind_error | Exited

fun bind_micro :: "nix_lib \<Rightarrow> nat \<Rightarrow> bind_options \<Rightarrow> bind_pc \<times> sys \<Rightarrow> bind_pc \<times> sys" where
  "bind_micro nix pid opts (AtParent, s) =
     (case create_parent (bo_path opts) s of
        (Inl e, s') \<Rightarrow> (Failed e, s') | (Inr _, s') \<Rightarrow> (AtProbe, s'))"
| "bind_micro nix pid opts (AtProbe, s) =
     (case connect (bo_path opts) s of
        (Inr stream, s') \<Rightarrow> (Failed (already_running nix (bo_path opts) (bo_process_name opts) stream), s')
      | (Inl e, s') \<Rightarrow>
          if is_stale_socket_connect_error e then (AtUnlink, s')
          else (Failed (io_at (bo_path opts) e), s'))"
| "bind_micro nix pid opts (AtUnlink, s) =
     (case remove_file (bo_path opts) s of
        (Inr _, s') \<Rightarrow> (AtBind, s')
      | (Inl e, s') \<Rightarrow>
          if kind e = NotFound then (AtBind, s') else (Failed (io_at (bo_path opts) e), s'))"
| "bind_micro nix pid opts (AtBind, s) =
     (case socket_bind (bo_path opts) s of
        (Inl e, s') \<Rightarrow> (Failed (io_at (bo_path opts) e), s') | (Inr l, s') \<Rightarrow> (AtListen l, s'))"
| "bind_micro nix pid opts (AtListen l, s) = (AtStat l, listen pid l s)"
| "bind_micro nix pid opts (AtStat l, s) =
     (case metadata (bo_path opts) s of
        (Inl e, s') \<Rightarrow> (Failed (io_at (bo_path opts) e), close_listener l s')
      | (Inr _, s') \<Rightarrow> (AtChmod l, s'))"
| "bind_micro nix pid opts (AtChmod l, s) =
     (case set_permissions (bo_path opts) (bo_mode opts) s of
        (Inl e, s') \<Rightarrow> (Failed (io_at (bo_path opts) e), close_listener l s')
      | (Inr _, s') \<Rightarrow> (AtChown l, s'))"
| "bind_micro nix pid opts (AtChown l, s) =
     (case bo_chown opts of
        None \<Rightarrow> (Serving l, s)
      | Some (uid, gid) \<Rightarrow>
          (case chown_socket nix (bo_path opts) uid gid s of
             (Inl e, s') \<Rightarrow>
               (Failed (io_at (bo_path opts) (IoError OtherKind (''chown socket: '' @ e))),
                close_listener l s')
           | (Inr _, s') \<Rightarrow> (Serving l, s')))"
| "bind_micro nix pid opts (pc, s) = (pc, s)"

section \<open>Interleaving\<close>

record race =
  pcs :: "nat \<Rightarrow> bind_pc"
  os :: sys

text \<open>\<open>opts i\<close> are the options of process \<open>i\<close>. A serving process may exit at any time.\<close>

datatype race_action = Run nat | Exit nat

inductive race_step ::
  "nix_lib \<Rightarrow> (nat \<Rightarrow> bind_options) \<Rightarrow> race \<Rightarrow> race_action \<Rightarrow> race \<Rightarrow> bool"
  for nix :: nix_lib and opts :: "nat \<Rightarrow> bind_options" where
  run: "bind_micro nix i (opts i) (pcs r i, os r) = (pc, s) \<Longrightarrow>
     race_step nix opts r (Run i) (r\<lparr>pcs := (pcs r)(i := pc), os := s\<rparr>)"
| exit: "pcs r i = Serving l \<Longrightarrow>
     race_step nix opts r (Exit i)
       (r\<lparr>pcs := (pcs r)(i := Exited), os := close_listener l (os r)\<rparr>)"

abbreviation race_runs ::
  "nix_lib \<Rightarrow> (nat \<Rightarrow> bind_options) \<Rightarrow> race \<Rightarrow> race_action list \<Rightarrow> race \<Rightarrow> bool" where
  "race_runs nix opts \<equiv> runs (race_step nix opts)"

inductive_cases race_runE: "race_step nix opts r (Run i) r'"
inductive_cases race_exitE: "race_step nix opts r (Exit i) r'"
text \<open>An executable run of the processes, for concrete schedules.\<close>

fun race_exec :: "nix_lib \<Rightarrow> (nat \<Rightarrow> bind_options) \<Rightarrow> nat list \<Rightarrow> race \<Rightarrow> race" where
  "race_exec nix opts [] r = r"
| "race_exec nix opts (i # is) r =
     (case bind_micro nix i (opts i) (pcs r i, os r) of
        (pc, s) \<Rightarrow> race_exec nix opts is (r\<lparr>pcs := (pcs r)(i := pc), os := s\<rparr>))"

lemma race_exec_runs: "race_runs nix opts r (map Run is) (race_exec nix opts is r)"
proof (induction "is" arbitrary: r)
  case Nil
  then show ?case by (simp add: runs.halt)
next
  case (Cons i "is")
  obtain pc s where "bind_micro nix i (opts i) (pcs r i, os r) = (pc, s)" by fastforce
  with Cons race_step.run [where nix = nix and i = i and opts = opts and r = r, OF this]
  show ?case by (auto intro: runs.more)
qed

section \<open>The settled state\<close>

text \<open>
  Process \<open>i\<close> serves \<open>p\<close> with listener \<open>l\<close>, no other process is between its probe and its
  bind, and no other process holds \<open>l\<close>.
\<close>

definition holds :: "bind_pc \<Rightarrow> nat \<Rightarrow> bool" where
  "holds pc l \<longleftrightarrow> pc \<in> {AtListen l, AtStat l, AtChmod l, AtChown l, Serving l}"

definition settled :: "path \<Rightarrow> nat \<Rightarrow> nat \<Rightarrow> race \<Rightarrow> bool" where
  "settled p i l r \<longleftrightarrow>
     serving (os r) p = Some l \<and> pcs r i = Serving l \<and>
     (\<forall>j. pcs r j \<noteq> AtUnlink \<and> pcs r j \<noteq> AtBind) \<and>
     (\<forall>j. holds (pcs r j) l \<longrightarrow> j = i) \<and>
     faults (os r) SysConnect (key p) = None"

lemma serving_close_other: "serving s p = Some l \<Longrightarrow> l' \<noteq> l \<Longrightarrow> serving (close_listener l' s) p = Some l"
  by (auto simp: serving_lookup close_listener_def lookup_def)

lemma serving_listen_other: "serving s p = Some l \<Longrightarrow> l' \<noteq> l \<Longrightarrow> serving (listen pid l' s) p = Some l"
  by (auto simp: serving_lookup listen_def lookup_def)

lemma set_permissions_content:
  "map_option content (lookup (snd (set_permissions p m s)) k) = map_option content (lookup s k)"
proof (cases "set_permissions p m s")
  case (Pair x t)
  show ?thesis
  proof (cases x)
    case (Inl e)
    with Pair set_permissions_failed [of p m s e t] show ?thesis by simp
  next
    case (Inr u)
    with Pair set_permissions_ok [of p m s u t] obtain n where "lookup s (key p) = Some n"
      "t = set_node (key p) (Some (n\<lparr>mode := m AND 4095\<rparr>)) s" by auto
    with Pair show ?thesis by (auto simp: lookup_def set_node_def)
  qed
qed

lemma set_permissions_fields:
  "listening (snd (set_permissions p m s)) = listening s" "faults (snd (set_permissions p m s)) = faults s"
  "next_socket (snd (set_permissions p m s)) = next_socket s"
  using set_permissions_agrees [of p s m] by (simp_all add: agrees_off_def)

lemma serving_content:
  "map_option content (lookup t (key p)) = map_option content (lookup s (key p)) \<Longrightarrow> listening t = listening s \<Longrightarrow>
   serving t p = serving s p"
  by (cases "lookup s (key p)"; cases "lookup t (key p)") (simp_all add: serving_def cong: content.case_cong)

lemma serving_perms: "serving (snd (set_permissions p m s)) p = serving s p"
  by (rule serving_content) (simp_all add: set_permissions_content set_permissions_fields)

text \<open>What one process does to a path that somebody serves.\<close>

lemma bind_micro_settled:
  assumes "chown_changes_owner_only nix" and "bo_path opts = p"
    and "serving s p = Some l" and "faults s SysConnect (key p) = None"
    and "pc \<noteq> AtUnlink" and "pc \<noteq> AtBind" and "\<not> holds pc l"
    and "bind_micro nix j opts (pc, s) = (pc', s')"
  shows "serving s' p = Some l \<and> faults s' SysConnect (key p) = None \<and>
    pc' \<noteq> AtUnlink \<and> pc' \<noteq> AtBind \<and> \<not> holds pc' l"
proof (cases pc)
  case AtParent
  then show ?thesis
    using assms create_parent_serving [of p s] create_parent_fields [of p s]
    by (auto simp: holds_def split: prod.splits sum.splits)
next
  case AtProbe
  with connect_serving [OF assms(3,4)] assms show ?thesis by (auto simp: holds_def)
next
  case (AtListen l')
  with assms show ?thesis
    using serving_listen_other [OF assms(3), of l'] by (auto simp: holds_def listen_def)
next
  case (AtStat l')
  with assms metadata_pure [of p s] serving_close_other [OF assms(3), of l'] show ?thesis
    by (auto simp: holds_def split: prod.splits sum.splits) (auto simp: close_listener_def)
next
  case (AtChmod l')
  with assms serving_perms [of p "bo_mode opts" s] set_permissions_fields [of p "bo_mode opts" s] show ?thesis
    by (auto simp: holds_def split: prod.splits sum.splits intro: serving_close_other)
      (auto simp: close_listener_def)
next
  case (AtChown l')
  show ?thesis
  proof (cases "bo_chown opts")
    case None
    with AtChown assms show ?thesis by (auto simp: holds_def)
  next
    case (Some ug)
    obtain res where "chown_socket nix (bo_path opts) (fst ug) (snd ug) s = (res, s)"
      using assms(1) by (metis chown_changes_owner_only_def chown_socket_def prod.collapse)
    with AtChown Some assms show ?thesis
      by (cases ug; cases res)
        (auto simp: holds_def close_listener_def [of l'] intro: serving_close_other [unfolded close_listener_def])
  qed
qed (use assms in auto)

lemma settledI:
  assumes "settled p i l r" and "j \<noteq> i" and "serving t p = Some l"
    and "faults t SysConnect (key p) = None" and "pc \<noteq> AtUnlink" and "pc \<noteq> AtBind" and "\<not> holds pc l"
  shows "settled p i l (r\<lparr>pcs := (pcs r)(j := pc), os := t\<rparr>)"
  using assms by (simp add: settled_def)

lemma settled_step:
  assumes "chown_changes_owner_only nix" and "\<And>j. bo_path (opts j) = p"
    and inv: "settled p i l r" and "race_step nix opts r a r'" and "a \<noteq> Exit i"
  shows "settled p i l r'"
  using assms(4)
proof cases
  case (run j pc s)
  show ?thesis
  proof (cases "j = i")
    case True
    with run(3) inv have "pc = pcs r i" "s = os r" by (simp_all add: settled_def)
    with True run(2) have "r' = r" by simp
    with inv show ?thesis by simp
  next
    case False
    with inv have pc: "\<not> holds (pcs r j) l" "pcs r j \<noteq> AtUnlink" "pcs r j \<noteq> AtBind"
      and os: "serving (os r) p = Some l" "faults (os r) SysConnect (key p) = None"
      by (simp_all add: settled_def) blast
    from bind_micro_settled [OF assms(1,2) os pc(2,3,1) run(3)]
    show ?thesis unfolding run(2) using inv False by (intro settledI) simp_all
  qed
next
  case (exit j l')
  with assms(5) have "j \<noteq> i" by simp
  with exit inv have "l' \<noteq> l" by (auto simp: settled_def holds_def)
  with inv have "serving (close_listener l' (os r)) p = Some l"
    and "faults (close_listener l' (os r)) SysConnect (key p) = None"
    by (simp_all add: settled_def serving_close_other) (simp add: close_listener_def)
  with inv \<open>j \<noteq> i\<close> show ?thesis unfolding exit(2) by (intro settledI) (simp_all add: holds_def)
qed

lemma settled_runs:
  assumes "chown_changes_owner_only nix" and "\<And>j. bo_path (opts j) = p"
    and "race_runs nix opts r acts r'" and "settled p i l r" and "Exit i \<notin> set acts"
  shows "settled p i l r'"
  using assms(3,4)
proof (rule runs_invariant)
  fix r a r'
  assume a: "a \<in> set acts" and step: "race_step nix opts r a r'" and inv: "settled p i l r"
  from a assms(5) have "a \<noteq> Exit i" by auto
  from settled_step [OF assms(1,2) inv step this] show "settled p i l r'" .
qed

section \<open>Run alone\<close>

definition bind_outcome :: "(bind_error + nat) \<times> sys \<Rightarrow> bind_pc \<times> sys" where
  "bind_outcome r = (case r of (Inl e, t) \<Rightarrow> (Failed e, t) | (Inr l, t) \<Rightarrow> (Serving l, t))"

lemma bind_outcome_simps [simp]:
  "bind_outcome (Inl e, t) = (Failed e, t)" "bind_outcome (Inr l, t) = (Serving l, t)"
  by (simp_all add: bind_outcome_def)

lemma micro_done:
  "(bind_micro nix pid opts ^^ n) (Failed e, s) = (Failed e, s)"
  "(bind_micro nix pid opts ^^ n) (Serving l, s) = (Serving l, s)"
  by (induction n) simp_all

lemma micro_owner_steps:
  "(bind_micro nix pid opts ^^ 3) (AtStat l, s) =
     bind_outcome (closing_on_error l (try_bind (set_owner_and_mode nix opts) (\<lambda>_. ok l)) s)"
  by (auto simp: numeral_3_eq_3 set_owner_and_mode_def apply_socket_perms_def closing_on_error_def unfold_io
      split: prod.splits sum.splits option.splits)

lemma micro_bind_steps:
  "(bind_micro nix pid opts ^^ 5) (AtBind, s) =
     bind_outcome (try_bind (map_err (io_at (bo_path opts)) (listener_bind pid (bo_path opts)))
       (\<lambda>l. closing_on_error l (try_bind (set_owner_and_mode nix opts) (\<lambda>_. ok l))) s)"
proof -
  let ?m = "bind_micro nix pid opts"
  have five: "(?m ^^ 5) x = (?m ^^ 3) (?m (?m x))" for x by (simp add: numeral_eq_Suc)
  obtain r t where "socket_bind (bo_path opts) s = (r, t)" by fastforce
  then show ?thesis
    by (cases r) (simp_all add: five listener_bind_calls micro_done micro_owner_steps)
qed

section \<open>Properties\<close>

text \<open>
  C25: Cut at its system calls, \<open>bind\<close> run without interference is \<open>bind\<close>: eight steps from the start
  end in the listener or the error that \<open>bind\<close> returns, and in the same system state.
\<close>

theorem bind_micro_refines_bind:
  "(bind_micro nix pid opts ^^ 8) (AtParent, s) = bind_outcome (bind nix pid opts s)"
proof -
  let ?p = "bo_path opts"
  let ?m = "bind_micro nix pid opts"
  have eight: "(?m ^^ 8) x = (?m ^^ 5) (?m (?m (?m x)))" for x
    by (simp add: numeral_eq_Suc)
  obtain r1 s1 where 1: "create_parent ?p s = (r1, s1)" by fastforce
  obtain r2 s2 where 2: "connect ?p s1 = (r2, s2)" by fastforce
  obtain r3 s3 where 3: "remove_file ?p s2 = (r3, s3)" by fastforce
  show ?thesis
  proof (cases r1)
    case (Inl e)
    with 1 show ?thesis by (simp add: eight bind_def micro_done)
  next
    case i1: (Inr u1)
    show ?thesis
    proof (cases r2)
      case (Inr stream)
      with 1 2 i1 show ?thesis by (simp add: eight bind_def claim_def micro_done)
    next
      case i2: (Inl e)
      show ?thesis
      proof (cases r3)
        case (Inl e')
        with 1 2 3 i1 i2 show ?thesis
          by (cases "is_stale_socket_connect_error e"; cases "kind e' = NotFound")
            (simp_all add: eight bind_def claim_def micro_done micro_bind_steps del: bind_micro.simps(4-8))
      next
        case (Inr u3)
        with 1 2 3 i1 i2 show ?thesis
          by (cases "is_stale_socket_connect_error e")
            (simp_all add: eight bind_def claim_def micro_done micro_bind_steps del: bind_micro.simps(4-8))
      qed
    qed
  qed
qed

text \<open>
  C2: A settled path stays settled. Once one process serves the path, no other process is past its
  probe and nobody else holds its listener, then in every interleaving of any number of binding
  and exiting processes, as long as that process does not exit itself, the path leads to it.
\<close>

theorem settled_path_is_never_taken:
  assumes "chown_changes_owner_only nix" and "\<And>j. bo_path (opts j) = p"
    and "race_runs nix opts r acts r'" and "settled p i l r" and "Exit i \<notin> set acts"
  shows "serving (os r') p = Some l \<and> pcs r' i = Serving l \<and>
    (\<forall>j. j \<noteq> i \<longrightarrow> pcs r' j \<noteq> Serving l \<and> pcs r' j \<noteq> AtUnlink)"
proof -
  from assms have "settled p i l r'" by (rule settled_runs)
  then show ?thesis by (auto simp: settled_def holds_def)
qed

text \<open>The race of the witnesses: two processes on the example system.\<close>

definition race_start :: race where
  "race_start = \<lparr>pcs = (\<lambda>_. AtParent), os = hub_sys\<rparr>"

abbreviation "hub_race schedule \<equiv> race_exec no_nix (\<lambda>_. hub_opts) schedule race_start"

theorem settled_path_is_never_taken_witness:
  "pcs (hub_race [1, 1, 1, 1, 1, 1, 1, 1]) 1 = Serving 0 \<and>
   serving (os (race_exec no_nix (\<lambda>_. hub_opts) [2, 2, 2] (hub_race [1, 1, 1, 1, 1, 1, 1, 1]))) ''/run/d.sock''
     = Some 0"
proof -
  let ?r = "hub_race [1, 1, 1, 1, 1, 1, 1, 1]"
  have one: "pcs ?r 1 = Serving 0" by code_simp
  have "pcs ?r j = AtParent" if "j \<noteq> 1" for j
    using that by (simp add: race_start_def split: prod.splits)
  moreover have "serving (os ?r) (bo_path hub_opts) = Some 0" by code_simp
  moreover have "faults (os ?r) SysConnect (key (bo_path hub_opts)) = None" by code_simp
  ultimately have "settled (bo_path hub_opts) 1 0 ?r"
    using one unfolding settled_def holds_def
    by (metis bind_pc.distinct insertE empty_iff)
  note settled = this
  have path: "bo_path hub_opts = ''/run/d.sock''" by (simp add: hub_opts_def)
  have stays: "Exit 1 \<notin> set (map Run [2, 2, 2])" by simp
  note end_state = settled_path_is_never_taken [OF hub_facts(1) refl race_exec_runs settled stays, unfolded path]
  show ?thesis by (rule conjI, rule one, rule conjunct1 [OF end_state])
qed

text \<open>
  C35: Binding is not atomic, and the race can steal a live socket. Two processes that start together
  on a free path can both report success: the second one probed before the first one was
  listening, and then unlinks the first one's live socket. The first keeps a listener no client can
  reach.
\<close>

theorem concurrent_bind_steals_live_socket:
  "\<exists>acts r'. race_runs no_nix (\<lambda>_. hub_opts) race_start acts r' \<and>
     pcs r' 1 = Serving 0 \<and> pcs r' 2 = Serving 1 \<and>
     listening (os r') 0 = Some 1 \<and> listening (os r') 1 = Some 2 \<and>
     serving (os r') (bo_path hub_opts) = Some 1"
proof -
  let ?is = "[1, 2, 1, 2, 1, 1, 1, 1, 1, 1, 2, 2, 2, 2, 2, 2] :: nat list"
  have "pcs (hub_race ?is) 1 = Serving 0" "pcs (hub_race ?is) 2 = Serving 1"
    "listening (os (hub_race ?is)) 0 = Some 1" "listening (os (hub_race ?is)) 1 = Some 2"
    "serving (os (hub_race ?is)) (bo_path hub_opts) = Some 1"
    by code_simp+
  then show ?thesis using race_exec_runs by blast
qed

end
