(* ===== verification/Config.thy ===== *)
theory Config
  imports Frame Unix_Env
begin

text \<open>
  \<open>config/mod.rs\<close>: the error type of the configuration layer, the shared live snapshot behind a
  read-write lock, and the reload that replaces it. The lock keeps the poison flag of
  \<open>std::sync::RwLock\<close>: every operation goes through it and ignores it. A loader is any function
  of the environment.
\<close>

section \<open>Errors\<close>

datatype config_error =
    ConfigIo (config_path: string) (config_source: io_error)
  | ConfigJson json_error
  | ConfigOther string

definition config_io_at :: "path \<Rightarrow> io_error \<Rightarrow> config_error" where
  "config_io_at p source = ConfigIo (path_display p) source"

text \<open>The display text of the three variants, up to that of the underlying error.\<close>

fun config_error_display :: "config_error \<Rightarrow> string" where
  "config_error_display (ConfigIo p source) = ''I/O error on '' @ p @ '': '' @ message source"
| "config_error_display (ConfigJson e) = ''JSON error: '' @ json_message e"
| "config_error_display (ConfigOther text) = text"

section \<open>The live snapshot\<close>

record 'a live =
  inner :: 'a
  poisoned :: bool

definition live_new :: "'a \<Rightarrow> 'a live" where
  "live_new value = \<lparr>inner = value, poisoned = False\<rparr>"

definition replace :: "'a \<Rightarrow> 'a live \<Rightarrow> 'a live" where
  "replace next l = (if poisoned l then l\<lparr>inner := next\<rparr> else l\<lparr>inner := next\<rparr>)"

definition with_live :: "('a \<Rightarrow> 'r) \<Rightarrow> 'a live \<Rightarrow> 'r" where
  "with_live f l = (if poisoned l then f (inner l) else f (inner l))"

definition snapshot :: "'a live \<Rightarrow> 'a" where
  "snapshot l = with_live (\<lambda>v. v) l"

section \<open>Reload\<close>

definition try_reload :: "('e, config_error, 'a) fallible \<Rightarrow> ('e \<times> 'a live, config_error, unit) fallible" where
  "try_reload load st =
     (case st of (env, live) \<Rightarrow>
        (case load env of
           (Inl e, env') \<Rightarrow> (Inl e, env', live)
         | (Inr next, env') \<Rightarrow> (Inr (), env', replace next live)))"

section \<open>The interface of a cell\<close>

text \<open>
  What the reload needs of the shared cell: a value that has been put in is the one that is read.
  Then a history of loads leaves the last one that succeeded.
\<close>

locale cell =
  fixes put :: "'a \<Rightarrow> 'c \<Rightarrow> 'c" and look :: "'c \<Rightarrow> 'a"
  assumes look_put: "look (put a c) = a"
begin

fun put_all :: "('e + 'a) list \<Rightarrow> 'c \<Rightarrow> 'c" where
  "put_all [] c = c"
| "put_all (Inl e # rs) c = put_all rs c"
| "put_all (Inr a # rs) c = put_all rs (put a c)"

lemma look_put_all: "look (put_all rs c) = last (look c # [a. Inr a \<leftarrow> rs])"
  by (induction rs c rule: put_all.induct) (auto simp: look_put)

end

interpretation live: cell replace snapshot
  by unfold_locales (simp add: replace_def snapshot_def with_live_def)

text \<open>A process that reloads once for each of its loaders, in order.\<close>

fun reload_all ::
  "('e, config_error, 'a) fallible list \<Rightarrow> 'e \<times> 'a live \<Rightarrow> (config_error + 'a) list \<times> 'e \<times> 'a live" where
  "reload_all [] st = ([], st)"
| "reload_all (load # loads) st =
     (case reload_all loads (snd (try_reload load st)) of (rs, st') \<Rightarrow> (fst (load (fst st)) # rs, st'))"

lemma reload_all_put_all: "snd (snd (reload_all loads (env, l))) = live.put_all (fst (reload_all loads (env, l))) l"
proof (induction loads arbitrary: env l)
  case Nil
  then show ?case by simp
next
  case (Cons load loads)
  obtain r env' where r: "load env = (r, env')" by fastforce
  show ?case
  proof (cases r)
    case (Inl e)
    with Cons.IH [of env' l] r show ?thesis
      by (cases "reload_all loads (env', l)") (simp add: try_reload_def)
  next
    case (Inr v)
    with Cons.IH [of env' "replace v l"] r show ?thesis
      by (cases "reload_all loads (env', replace v l)") (simp add: try_reload_def)
  qed
qed

section \<open>Properties\<close>

text \<open>
  The snapshot is the last value that was loaded. After any number of reloads from any loaders,
  whether or not the lock is poisoned, the live snapshot is the value of the last load that
  succeeded, or the initial one if none did: a failed reload keeps what was there.
\<close>

theorem snapshot_is_last_successful_load:
  "snapshot (snd (snd (reload_all loads (env, l)))) =
     last (snapshot l # [v. Inr v \<leftarrow> fst (reload_all loads (env, l))])"
  unfolding reload_all_put_all by (rule live.look_put_all)

text \<open>
  A reload does one load and returns its error, if any, unchanged; the snapshot changes exactly
  when the load succeeds, and the poison flag of the lock is neither looked at nor changed.
\<close>

theorem try_reload_swaps_on_success_only:
  "try_reload load (env, l) =
     (case load env of
        (Inl e, env') \<Rightarrow> (Inl e, env', l)
      | (Inr v, env') \<Rightarrow> (Inr (), env', \<lparr>inner = v, poisoned = poisoned l\<rparr>))"
  by (auto simp: try_reload_def replace_def split: prod.split sum.split)

end
