(* ===== verification/Json_File.thy ===== *)
theory Json_File
  imports Config
begin

text \<open>
  \<open>config/json.rs\<close>: a loader that reads a JSON file and, where it is missing, fails, uses the
  default in memory, or writes the default. The JSON coder and the default of the loaded type are
  parameters.
\<close>

section \<open>The loader\<close>

datatype seed = ErrorIfMissing | DefaultInMemory | CreateFile

record json_file =
  jf_path :: path
  jf_seed :: seed

definition json_file_new :: "path \<Rightarrow> json_file" where
  "json_file_new p = \<lparr>jf_path = p, jf_seed = ErrorIfMissing\<rparr>"

definition missing_defaults :: "json_file \<Rightarrow> json_file" where
  "missing_defaults self = self\<lparr>jf_seed := DefaultInMemory\<rparr>"

definition create_default :: "json_file \<Rightarrow> json_file" where
  "create_default self = self\<lparr>jf_seed := CreateFile\<rparr>"

definition json_file_path :: "json_file \<Rightarrow> path" where
  "json_file_path self = jf_path self"

record 'v config_codec =
  from_str :: "string \<Rightarrow> json_error + 'v"
  to_string_pretty :: "'v \<Rightarrow> json_error + string"
  default_value :: 'v

definition seed_file :: "'v config_codec \<Rightarrow> path \<Rightarrow> (sys, config_error, 'v) fallible" where
  "seed_file codec p =
     (let cfg = default_value codec in
      try_bind (case parent p of
                  Some par \<Rightarrow> map_err (config_io_at par) (create_dir_all par)
                | None \<Rightarrow> ok ()) (\<lambda>_.
        case to_string_pretty codec cfg of
          Inl e \<Rightarrow> fail (ConfigJson e)
        | Inr body \<Rightarrow>
            try_bind (map_err (config_io_at p) (write_file p (body @ [CHR 0x0A]))) (\<lambda>_. ok cfg)))"

definition load :: "'v config_codec \<Rightarrow> json_file \<Rightarrow> (sys, config_error, 'v) fallible" where
  "load codec self s =
     (case read_to_string (jf_path self) s of
        (Inr text, s') \<Rightarrow>
          (case from_str codec text of Inl e \<Rightarrow> (Inl (ConfigJson e), s') | Inr v \<Rightarrow> (Inr v, s'))
      | (Inl e, s') \<Rightarrow>
          if kind e = NotFound then
            (case jf_seed self of
               ErrorIfMissing \<Rightarrow> (Inl (config_io_at (jf_path self) e), s')
             | DefaultInMemory \<Rightarrow> (Inr (default_value codec), s')
             | CreateFile \<Rightarrow> seed_file codec (jf_path self) s')
          else (Inl (config_io_at (jf_path self) e), s'))"

section \<open>Reading and writing one file\<close>

lemma read_missing:
  "faults s SysOpenRead (key p) = None \<Longrightarrow> lookup s (key p) = None \<Longrightarrow>
   read_to_string p s = (Inl (err NotFound), s)"
  by (simp add: read_to_string_def)

lemma read_regular:
  "faults s SysOpenRead (key p) = None \<Longrightarrow> lookup s (key p) = Some n \<Longrightarrow> content n = Regular text \<Longrightarrow>
   utf8_valid text \<Longrightarrow> read_to_string p s = (Inr text, s)"
  by (simp add: read_to_string_def)

text \<open>An existing inode is never reported as missing.\<close>

lemma read_existing_not_missing:
  assumes "lookup s (key p) = Some n" and "read_to_string p s = (Inl e, s')"
    and "faults s SysOpenRead (key p) = None"
  shows "kind e \<noteq> NotFound"
  using assms by (auto simp: read_to_string_def split: content.splits if_splits)

lemma write_file_ok:
  assumes "write_file p text s = (Inr u, t)"
  shows "\<exists>n. t = set_node (key p) (Some (n\<lparr>content := Regular text\<rparr>)) (snd (open_truncated p s)) \<and>
    key p \<noteq> [] \<and> key p \<noteq> [RootDir]"
proof -
  from assms obtain n s1 where o: "open_truncated p s = (Inr n, s1)"
    and t: "t = set_node (key p) (Some (n\<lparr>content := Regular text\<rparr>)) s1"
    by (auto simp: write_file_def elim!: try_bind_eq_InrE split: option.splits)
  from o have "key p \<noteq> [] \<and> key p \<noteq> [RootDir]"
    by (auto simp: open_truncated_def lookup_def split: option.splits if_splits)
  with o t show ?thesis by auto
qed

lemma seed_file_ok:
  assumes "seed_file codec p s = (Inr v, t)"
  shows "v = default_value codec \<and> (\<exists>body n. to_string_pretty codec v = Inr body \<and>
    lookup t (key p) = Some n \<and> content n = Regular (body @ [CHR 0x0A]))"
proof -
  from assms obtain body s1 u s2 where v: "v = default_value codec"
    and body: "to_string_pretty codec v = Inr body"
    and w: "write_file p (body @ [CHR 0x0A]) s1 = (Inr u, s2)" and t: "t = s2"
    by (auto simp: seed_file_def Let_def elim!: try_bind_eq_InrE dest!: map_err_eq_InrD split: sum.splits)
  with write_file_ok [OF w] show ?thesis by auto
qed

text \<open>What a failed write leaves behind.\<close>

lemma write_file_broken:
  assumes "lookup s (key p) = None" and "parent_error (key p) s = None"
    and "faults s SysOpenWrite (key p) = None" and "faults s SysWrite (key p) = Some e"
    and "key p \<noteq> []" and "key p \<noteq> [RootDir]"
  shows "\<exists>n. write_file p text s = (Inl e, set_node (key p) (Some n) s) \<and> content n = Regular []"
  using assms by (intro exI [of _ "\<lparr>content = Regular [], mode = umask_file s\<rparr>"])
    (simp add: write_file_def open_truncated_def try_bind_def Let_def)

section \<open>Properties\<close>

text \<open>
  Loading never changes a configuration that is there, and only \<open>create_default\<close> ever writes.
  If the file exists, or the loader is not in the create mode, the file system after the load is
  the one before, whatever the outcome.
\<close>

theorem load_writes_missing_defaults_only:
  assumes "jf_seed self = CreateFile \<Longrightarrow>
    lookup s (key (jf_path self)) \<noteq> None \<and> faults s SysOpenRead (key (jf_path self)) = None"
  shows "snd (load codec self s) = s"
proof -
  obtain r s' where rd: "read_to_string (jf_path self) s = (r, s')" by fastforce
  with read_to_string_pure [of "jf_path self" s] have s': "s' = s" by simp
  show ?thesis
  proof (cases r)
    case (Inr body)
    with rd s' show ?thesis by (simp add: load_def split: sum.split)
  next
    case (Inl e)
    have "kind e \<noteq> NotFound" if "jf_seed self = CreateFile"
      using read_existing_not_missing [of s "jf_path self" _ e s'] assms [OF that] rd Inl by auto
    with rd Inl s' show ?thesis by (cases "jf_seed self") (simp_all add: load_def)
  qed
qed

text \<open>A codec for the witnesses: the value is the text of the file without its last character.\<close>

definition line_codec :: "string config_codec" where
  "line_codec =
     \<lparr>from_str = (\<lambda>text. if text = [] then Inl (JsonError ''EOF'') else Inr (butlast text)),
      to_string_pretty = Inr, default_value = ''{}''\<rparr>"

definition etc_sys :: sys where
  "etc_sys =
     \<lparr>nodes = (\<lambda>_. None), listening = (\<lambda>_. None), next_socket = 0, umask_dir = 493, umask_file = 420,
      umask_socket = 493, faults = (\<lambda>_ _. None)\<rparr>"

definition etc_path :: path where
  "etc_path = ''/etc/net.json''"

definition etc_loader :: json_file where
  "etc_loader = create_default (json_file_new etc_path)"

lemma etc_facts:
  "key etc_path = [RootDir, Normal ''etc'', Normal ''net.json'']"
  "lookup etc_sys (key etc_path) = None" "faults etc_sys c k = None"
  "jf_seed etc_loader = CreateFile" "jf_path etc_loader = etc_path"
proof -
  show k: "key etc_path = [RootDir, Normal ''etc'', Normal ''net.json'']" by code_simp
  show "lookup etc_sys (key etc_path) = None" by (simp add: k lookup_def etc_sys_def)
qed (simp_all add: etc_sys_def etc_loader_def create_default_def json_file_new_def)

theorem load_writes_missing_defaults_only_witness:
  "snd (load line_codec (missing_defaults (json_file_new etc_path)) etc_sys) = etc_sys \<and>
   fst (load line_codec (missing_defaults (json_file_new etc_path)) etc_sys) = Inr ''{}''"
proof
  show "snd (load line_codec (missing_defaults (json_file_new etc_path)) etc_sys) = etc_sys"
    by (rule load_writes_missing_defaults_only) (simp add: missing_defaults_def)
  show "fst (load line_codec (missing_defaults (json_file_new etc_path)) etc_sys) = Inr ''{}''"
    by code_simp
qed



text \<open>
  C37: A seeding that breaks off bricks the configuration. \<open>fs::write\<close> creates the file before it
  writes; when the write fails, the load reports it and leaves an empty file. From then on the file
  exists, so no load seeds it again: each of them fails, for any coder that refuses the empty text.
\<close>

theorem broken_seed_is_never_repaired:
  assumes "jf_seed self = CreateFile" and "faults s SysOpenRead (key (jf_path self)) = None"
    and "lookup s (key (jf_path self)) = None" and "parent (jf_path self) = Some par"
    and "create_dir_all par s = (Inr u, s1)"
    and "lookup s1 (key (jf_path self)) = None" and "parent_error (key (jf_path self)) s1 = None"
    and "key (jf_path self) \<noteq> []" and "key (jf_path self) \<noteq> [RootDir]"
    and "faults s1 SysOpenWrite (key (jf_path self)) = None"
    and "faults s1 SysWrite (key (jf_path self)) = Some e"
    and "to_string_pretty codec (default_value codec) = Inr body" and "from_str codec [] = Inl je"
  shows "\<exists>t. load codec self s = (Inl (config_io_at (jf_path self) e), t) \<and>
    (\<forall>f. f SysOpenRead (key (jf_path self)) = None \<longrightarrow>
      load codec self (t\<lparr>faults := f\<rparr>) = (Inl (ConfigJson je), t\<lparr>faults := f\<rparr>))"
proof -
  let ?p = "jf_path self"
  from write_file_broken [OF assms(6,7,10,11,8,9), of "body @ [CHR 0x0A]"] obtain n where
    w: "write_file ?p (body @ [CHR 0x0A]) s1 = (Inl e, set_node (key ?p) (Some n) s1)"
    and n: "content n = Regular []" by blast
  let ?t = "set_node (key ?p) (Some n) s1"
  have "load codec self s = (Inl (config_io_at ?p e), ?t)"
    using assms(1-5,12) w by (simp add: load_def read_missing seed_file_def Let_def try_bind_def map_err_def)
  moreover have "load codec self (?t\<lparr>faults := f\<rparr>) = (Inl (ConfigJson je), ?t\<lparr>faults := f\<rparr>)"
    if "f SysOpenRead (key ?p) = None" for f
  proof -
    have "lookup (?t\<lparr>faults := f\<rparr>) (key ?p) = Some n"
      using assms(8,9) by (simp add: lookup_def set_node_def)
    moreover have "utf8_valid []" by code_simp
    ultimately have "read_to_string ?p (?t\<lparr>faults := f\<rparr>) = (Inr [], ?t\<lparr>faults := f\<rparr>)"
      using that n by (intro read_regular) simp_all
    with assms(13) show ?thesis by (simp add: load_def)
  qed
  ultimately show ?thesis by blast
qed

definition full_sys :: sys where
  "full_sys = etc_sys\<lparr>faults := (\<lambda>call k. if call = SysWrite then Some (err StorageFull) else None)\<rparr>"

theorem broken_seed_is_never_repaired_witness:
  "\<exists>t. load line_codec etc_loader full_sys = (Inl (config_io_at etc_path (err StorageFull)), t) \<and>
     fst (load line_codec etc_loader (t\<lparr>faults := (\<lambda>_ _. None)\<rparr>)) = Inl (ConfigJson (JsonError ''EOF''))"
proof -
  have par: "parent etc_path = Some ''/etc''" by code_simp
  define s1 where "s1 = snd (create_dir_all ''/etc'' full_sys)"
  have "fst (create_dir_all ''/etc'' full_sys) = Inr ()" by code_simp
  then have mk: "create_dir_all ''/etc'' full_sys = (Inr (), s1)" unfolding s1_def by (metis prod.collapse)
  have facts: "lookup s1 (key etc_path) = None" "parent_error (key etc_path) s1 = None"
    "faults s1 SysOpenWrite (key etc_path) = None" "faults s1 SysWrite (key etc_path) = Some (err StorageFull)"
    unfolding s1_def by code_simp+
  have "jf_seed etc_loader = CreateFile" "jf_path etc_loader = etc_path"
    "faults full_sys SysOpenRead (key etc_path) = None" "lookup full_sys (key etc_path) = None"
    using etc_facts by (simp_all add: full_sys_def etc_sys_def lookup_def)
  with broken_seed_is_never_repaired [of etc_loader full_sys "''/etc''" "()" s1 "err StorageFull" line_codec
      "''{}''" "JsonError ''EOF''"] par mk facts etc_facts(1)
  show ?thesis by (auto simp: line_codec_def)
qed

end
