(* ===== verification/Watch_Filter.thy ===== *)
theory Watch_Filter
  imports Unix_Env
begin

text \<open>
  The pure part of \<open>config/watch.rs\<close>: which file-system events concern a configuration. A path is
  judged by its last component, which must be text and no editor artifact.
\<close>

section \<open>Filters and specs\<close>

datatype path_filter =
    Basename string
  | AnyName (extensions: "string list") (extra_names: "string list") (ignore_suffixes: "string list")

record watch_spec =
  ws_path :: path
  ws_recursive :: bool
  ws_filter :: path_filter

definition watch_file :: "path \<Rightarrow> watch_spec" where
  "watch_file p =
     (let name = (case Option.bind (file_name p) to_str of Some n \<Rightarrow> n | None \<Rightarrow> ''config'')
      in \<lparr>ws_path = p, ws_recursive = False, ws_filter = Basename name\<rparr>)"

definition watch_dir :: "path \<Rightarrow> bool \<Rightarrow> watch_spec" where
  "watch_dir p recursive = \<lparr>ws_path = p, ws_recursive = recursive, ws_filter = AnyName [] [] []\<rparr>"

definition is_junk_name :: "string \<Rightarrow> bool" where
  "is_junk_name name \<longleftrightarrow>
     prefix ''.'' name \<or> suffix ''~'' name \<or> suffix ''.swp'' name \<or> suffix ''.tmp'' name"

definition is_relevant_path :: "path \<Rightarrow> path_filter \<Rightarrow> bool" where
  "is_relevant_path p f =
     (case Option.bind (file_name p) to_str of
        None \<Rightarrow> False
      | Some name \<Rightarrow>
          if is_junk_name name then False
          else (case f of
              Basename want \<Rightarrow> name = want
            | AnyName exts extras ignored \<Rightarrow>
                if \<exists>s \<in> set ignored. suffix s name then False
                else if \<exists>n \<in> set extras. n = name then True
                else if exts = [] then True
                else (case Option.bind (extension p) to_str of
                        None \<Rightarrow> False
                      | Some ext \<Rightarrow> \<exists>e \<in> set exts. e = ext)))"

section \<open>Properties\<close>

lemma bind_to_str: "Option.bind x to_str = Some name \<longleftrightarrow> x = Some name \<and> utf8_valid name"
  by (cases x) (auto simp: to_str_def)

lemma file_spec_relevant:
  assumes "file_name p = Some name" and "utf8_valid name"
  shows "is_relevant_path q (ws_filter (watch_file p)) \<longleftrightarrow> file_name q = Some name \<and> \<not> is_junk_name name"
proof (cases "Option.bind (file_name q) to_str")
  case None
  with assms show ?thesis by (auto simp: is_relevant_path_def to_str_def)
next
  case (Some n)
  with assms show ?thesis
    by (auto simp: is_relevant_path_def watch_file_def Let_def bind_to_str to_str_def)
qed

text \<open>
  Which paths count for a drop-in filter: the last component is valid text and no artifact, it
  does not end in an ignored suffix, and it is an extra name, or there is no list of extensions, or
  its extension is on the list. So the ignored suffixes and the artifact rule come before the extra
  names, which therefore do not always match.
\<close>

theorem dropin_relevant_exactly:
  "is_relevant_path p (AnyName exts extras ignored) \<longleftrightarrow>
     (\<exists>name. file_name p = Some name \<and> utf8_valid name \<and> \<not> is_junk_name name \<and>
        \<not> (\<exists>s \<in> set ignored. suffix s name) \<and>
        (name \<in> set extras \<or> exts = [] \<or>
         (\<exists>ext. extension p = Some ext \<and> utf8_valid ext \<and> ext \<in> set exts)))"
proof (cases "Option.bind (file_name p) to_str")
  case None
  then have "\<nexists>name. file_name p = Some name \<and> utf8_valid name"
    by (auto simp: to_str_def)
  with None show ?thesis by (auto simp: is_relevant_path_def)
next
  case (Some name)
  then have name: "file_name p = Some name" "utf8_valid name" by (simp_all add: bind_to_str)
  have ext: "(case Option.bind (extension p) to_str of None \<Rightarrow> False | Some ext \<Rightarrow> \<exists>e \<in> set exts. e = ext) \<longleftrightarrow>
      (\<exists>ext. extension p = Some ext \<and> utf8_valid ext \<and> ext \<in> set exts)"
    by (cases "extension p") (auto simp: to_str_def)
  from Some name show ?thesis
    unfolding is_relevant_path_def by (auto simp: ext)
qed

text \<open>
  A single-file spec reacts to the events of its own file name in any directory and to nothing
  else; and where that name is hidden or looks like an editor artifact, to nothing at all: such a
  configuration file is never reloaded.
\<close>

theorem file_spec_matches_its_name:
  assumes "file_name p = Some name" and "utf8_valid name"
  shows "is_relevant_path q (ws_filter (watch_file p)) \<longleftrightarrow> file_name q = Some name \<and> \<not> is_junk_name name"
  using assms by (rule file_spec_relevant)

theorem file_spec_matches_its_name_witness:
  "is_relevant_path ''/data/etc/net.json'' (ws_filter (watch_file ''net.json'')) \<and>
   \<not> is_relevant_path ''/data/etc/.net.json'' (ws_filter (watch_file ''/data/etc/.net.json''))"
proof -
  have names: "file_name ''net.json'' = Some ''net.json''" "file_name ''/data/etc/net.json'' = Some ''net.json''"
    "file_name ''/data/etc/.net.json'' = Some ''.net.json''" "utf8_valid ''net.json''" "utf8_valid ''.net.json''"
    "\<not> is_junk_name ''net.json''" "is_junk_name ''.net.json''"
    by code_simp+
  show ?thesis
    using file_spec_matches_its_name [OF names(1,4), of "''/data/etc/net.json''"]
      file_spec_matches_its_name [OF names(3,5), of "''/data/etc/.net.json''"] names
    by simp
qed

end
