(* ===== verification/Watch_Loop.thy ===== *)
theory Watch_Loop
  imports Watch_Filter Config
begin

text \<open>
  The thread of \<open>config/watch.rs\<close>: attaching the specs to inotify, and the loop that debounces
  events into reloads. The \<open>notify\<close> crate is the parameter \<open>inotify\<close>: its \<open>watch\<close> call on a
  state of its own. Instants are nanoseconds of one clock that does not run backwards; the loop
  reads it at its head and again when the receive has returned. What the receive returns, and when,
  is up to the environment, within the contract of \<open>recv_timeout\<close>: a timeout comes after the
  time that was asked for.
\<close>

section \<open>Attaching\<close>

type_synonym 'w inotify = "path \<Rightarrow> bool \<Rightarrow> ('w, string, unit) fallible"

definition watch_dir_for :: "path \<Rightarrow> sys \<Rightarrow> path" where
  "watch_dir_for p s =
     (if is_dir p s then p else (case parent p of Some q \<Rightarrow> q | None \<Rightarrow> ''.''))"

definition attach_spec :: "'w inotify \<Rightarrow> watch_spec \<Rightarrow> sys \<times> 'w \<Rightarrow> bool \<times> sys \<times> 'w" where
  "attach_spec inotify spec env =
     (case env of (s, w) \<Rightarrow>
        (let target = if ws_recursive spec then ws_path spec else watch_dir_for (ws_path spec) s;
             s1 = if \<not> ws_recursive spec \<and> \<not> is_dir target s then snd (create_dir_all target s) else s
         in if \<not> is_dir target s1 then (False, s1, w)
            else (case inotify target (ws_recursive spec) w of
                    (Inr _, w') \<Rightarrow> (True, s1, w')
                  | (Inl _, w') \<Rightarrow> (False, s1, w'))))"

text \<open>The loop over \<open>specs.iter().enumerate()\<close> and the flags with the same indices.\<close>

fun attach_pending ::
  "'w inotify \<Rightarrow> watch_spec list \<Rightarrow> bool list \<Rightarrow> sys \<times> 'w \<Rightarrow> bool \<times> bool list \<times> sys \<times> 'w" where
  "attach_pending inotify (spec # specs) (a # attached) env =
     (if a then
        (case attach_pending inotify specs attached env of
           (newly, attached', env') \<Rightarrow> (newly, a # attached', env'))
      else
        (case attach_spec inotify spec env of
           (now, env1) \<Rightarrow>
             (case attach_pending inotify specs attached env1 of
                (newly, attached', env') \<Rightarrow> (now \<or> newly, now # attached', env'))))"
| "attach_pending inotify specs attached env = (False, attached, env)"

section \<open>The loop\<close>

definition DEFAULT_DEBOUNCE :: nat where
  "DEFAULT_DEBOUNCE = 300 * 1000000"

text \<open>The event kinds the code names, and the others.\<close>

datatype event_kind = EvCreate | EvModify | EvRemove | EvAny | EvOther

record event =
  ev_kind :: event_kind
  ev_paths :: "path list"

definition is_relevant_event :: "watch_spec list \<Rightarrow> event \<Rightarrow> bool" where
  "is_relevant_event specs e \<longleftrightarrow>
     ev_kind e \<in> {EvCreate, EvModify, EvRemove, EvAny} \<and>
     (\<exists>p \<in> set (ev_paths e). \<exists>s \<in> set specs. is_relevant_path p (ws_filter s))"

datatype notification = Signal | Callback

definition fire_reload :: "bool \<Rightarrow> bool \<Rightarrow> notification list" where
  "fire_reload reload_tx on_reload = (if reload_tx then [Signal] else []) @ (if on_reload then [Callback] else [])"

record 'w watch_config =
  wc_inotify :: "'w inotify"
  wc_specs :: "watch_spec list"
  wc_debounce :: nat
  wc_reload_tx :: bool
  wc_on_reload :: bool

record 'w watch_state =
  fs :: sys
  watcher :: 'w
  attached :: "bool list"
  activity :: "nat option"    \<comment> \<open>\<open>pending\<close> in the code\<close>
  clock :: nat
  sent :: "notification list"
  stop_set :: bool            \<comment> \<open>\<open>stop\<close>, the flag that \<open>spawn_signal\<close> and \<open>spawn_callback\<close> hand out\<close>
  stopped :: bool

definition watch_start :: "'w watch_config \<Rightarrow> sys \<Rightarrow> 'w \<Rightarrow> nat \<Rightarrow> 'w watch_state" where
  "watch_start cfg s w now =
     (case attach_pending (wc_inotify cfg) (wc_specs cfg) (replicate (length (wc_specs cfg)) False) (s, w) of
        (_, flags, s', w') \<Rightarrow>
          \<lparr>fs = s', watcher = w', attached = flags, activity = None, clock = now, sent = [], stop_set = False, stopped = False\<rparr>)"

text \<open>\<open>created\<close> is the outcome of \<open>RecommendedWatcher::new\<close>; without a watcher the thread ends.\<close>

definition watch_open ::
  "'w watch_config \<Rightarrow> string + 'w \<Rightarrow> sys \<Rightarrow> nat \<Rightarrow> config_error + 'w watch_state" where
  "watch_open cfg created s now =
     (case created of
        Inl e \<Rightarrow> Inl (ConfigOther (''inotify watcher: '' @ e))
      | Inr w \<Rightarrow> Inr (watch_start cfg s w now))"

text \<open>
  The two ways to start the thread, as the configuration it runs with; \<open>spawned\<close> is the error of
  the operating system when it refuses the thread.
\<close>

definition spawn_signal ::
  "'w inotify \<Rightarrow> string option \<Rightarrow> watch_spec list \<Rightarrow> nat \<Rightarrow> config_error + 'w watch_config" where
  "spawn_signal inotify spawned specs debounce =
     (case spawned of
        Some e \<Rightarrow> Inl (ConfigOther e)
      | None \<Rightarrow> Inr \<lparr>wc_inotify = inotify, wc_specs = specs, wc_debounce = debounce,
                     wc_reload_tx = True, wc_on_reload = False\<rparr>)"

definition spawn_callback ::
  "'w inotify \<Rightarrow> string option \<Rightarrow> watch_spec list \<Rightarrow> nat \<Rightarrow> config_error + 'w watch_config" where
  "spawn_callback inotify spawned specs debounce =
     (case spawned of
        Some e \<Rightarrow> Inl (ConfigOther e)
      | None \<Rightarrow> Inr \<lparr>wc_inotify = inotify, wc_specs = specs, wc_debounce = debounce,
                     wc_reload_tx = False, wc_on_reload = True\<rparr>)"

definition recv_wait :: "nat \<Rightarrow> nat option \<Rightarrow> nat \<Rightarrow> nat" where
  "recv_wait debounce since now =
     (case since of
        Some t \<Rightarrow>
          (let elapsed = now - t in
           if elapsed \<ge> debounce then 0 else debounce - elapsed)
      | None \<Rightarrow> 1000000000)"

datatype received = Message event | WatchError string | Timeout | Disconnected

text \<open>Attach what is still missing; a spec that attaches counts as activity.\<close>

definition attach_now :: "'w watch_config \<Rightarrow> nat \<Rightarrow> 'w watch_state \<Rightarrow> 'w watch_state" where
  "attach_now cfg now st =
     (case attach_pending (wc_inotify cfg) (wc_specs cfg) (attached st) (fs st, watcher st) of
        (newly, flags, s', w') \<Rightarrow>
          st\<lparr>fs := s', watcher := w', attached := flags,
             activity := if newly then Some now else activity st\<rparr>)"

definition watch_branch :: "'w watch_config \<Rightarrow> nat \<Rightarrow> received \<Rightarrow> 'w watch_state \<Rightarrow> 'w watch_state" where
  "watch_branch cfg now res st =
     (case res of
        Message e \<Rightarrow>
          (let st1 = attach_now cfg now st
           in if is_relevant_event (wc_specs cfg) e then st1\<lparr>activity := Some now\<rparr> else st1)
      | WatchError _ \<Rightarrow> st
      | Timeout \<Rightarrow>
          (let st1 = attach_now cfg now st
           in if (case activity st1 of Some t \<Rightarrow> now - t \<ge> wc_debounce cfg | None \<Rightarrow> False)
              then st1\<lparr>activity := None, sent := sent st1 @ fire_reload (wc_reload_tx cfg) (wc_on_reload cfg)\<rparr>
              else st1)
      | Disconnected \<Rightarrow> st\<lparr>stopped := True\<rparr>)"

text \<open>
  One turn: at the head of the loop, at time \<open>start\<close>, the stop flag is read and found clear, and the
  receive begins; at time \<open>now\<close> it has returned \<open>res\<close>. In between others may have changed the file
  system. Whoever holds the flag may set it at any time (\<open>SetStop\<close>); a loop that finds it set ends.
\<close>

datatype turn = SetStop | StopFlag | Turn nat nat received "sys \<Rightarrow> sys"

inductive watch_step :: "'w watch_config \<Rightarrow> 'w watch_state \<Rightarrow> turn \<Rightarrow> 'w watch_state \<Rightarrow> bool"
  for cfg :: "'w watch_config" where
  set_stop: "watch_step cfg st SetStop (st\<lparr>stop_set := True\<rparr>)"
| stop_flag: "\<not> stopped st \<Longrightarrow> stop_set st \<Longrightarrow> watch_step cfg st StopFlag (st\<lparr>stopped := True\<rparr>)"
| turn: "\<not> stopped st \<Longrightarrow> \<not> stop_set st \<Longrightarrow> clock st \<le> start \<Longrightarrow> start \<le> now \<Longrightarrow>
     (res = Timeout \<Longrightarrow> start + recv_wait (wc_debounce cfg) (activity st) start \<le> now) \<Longrightarrow>
     watch_step cfg st (Turn start now res others)
       (watch_branch cfg now res (st\<lparr>fs := others (fs st), clock := now\<rparr>))"

abbreviation watch_runs :: "'w watch_config \<Rightarrow> 'w watch_state \<Rightarrow> turn list \<Rightarrow> 'w watch_state \<Rightarrow> bool" where
  "watch_runs cfg \<equiv> runs (watch_step cfg)"

inductive_cases watch_turnE: "watch_step cfg st (Turn start now res others) st'"

text \<open>A step sets one of the two flags, or is a turn.\<close>

lemma watch_step_kinds [consumes 1, case_names flags turn]:
  assumes "watch_step cfg st a st'"
  obtains (flags) b c where "a = SetStop \<or> a = StopFlag" "st' = st\<lparr>stop_set := b, stopped := c\<rparr>"
  | (turn) start now res others where "a = Turn start now res others"
  using assms
proof cases
  case set_stop
  then show ?thesis by (intro flags [where b = True and c = "stopped st"]) simp_all
next
  case stop_flag
  then show ?thesis by (intro flags [where b = "stop_set st" and c = True]) simp_all
qed (rule turn)

section \<open>Attachment only grows\<close>

lemma attach_pending_grows:
  "attach_pending inotify specs flags env = (newly, flags', env') \<Longrightarrow>
   list_all2 (\<lambda>a b. a \<longrightarrow> b) flags flags' \<and> (newly \<longleftrightarrow> flags \<noteq> flags')"
proof (induction inotify specs flags env arbitrary: newly flags' env' rule: attach_pending.induct)
  case (1 inotify spec specs a flags env)
  then show ?case by (cases a) (auto split: prod.splits)
qed (auto simp: list_all2_refl list_all2_same)

lemma watch_branch_simps [simp]:
  "clock (watch_branch cfg now res st) = clock st"
  "clock (attach_now cfg now st) = clock st"
  "sent (attach_now cfg now st) = sent st"
  "stopped (attach_now cfg now st) = stopped st"
  by (auto simp: watch_branch_def attach_now_def Let_def split: prod.split received.split)

lemma attach_now_attached:
  "list_all2 (\<lambda>a b. a \<longrightarrow> b) (attached st) (attached (attach_now cfg now st))"
  using attach_pending_grows [of "wc_inotify cfg" "wc_specs cfg" "attached st" "(fs st, watcher st)"]
  by (auto simp: attach_now_def split: prod.split)

lemma attach_now_activity:
  "activity (attach_now cfg now st) =
     (if attached (attach_now cfg now st) = attached st then activity st else Some now)"
  using attach_pending_grows [of "wc_inotify cfg" "wc_specs cfg" "attached st" "(fs st, watcher st)"]
  by (auto simp: attach_now_def split: prod.split)

lemma watch_branch_attached_eq:
  "attached (watch_branch cfg now res st) =
     (case res of Message _ \<Rightarrow> attached (attach_now cfg now st) | Timeout \<Rightarrow> attached (attach_now cfg now st)
      | _ \<Rightarrow> attached st)"
  by (cases res) (simp_all add: watch_branch_def Let_def)

lemma watch_branch_attached:
  "list_all2 (\<lambda>a b. a \<longrightarrow> b) (attached st) (attached (watch_branch cfg now res st))"
  unfolding watch_branch_attached_eq using attach_now_attached [of st cfg now]
  by (cases res) (simp_all add: list_all2_same)

lemma watch_step_attached:
  "watch_step cfg st a st' \<Longrightarrow> list_all2 (\<lambda>a b. a \<longrightarrow> b) (attached st) (attached st')"
proof (induction rule: watch_step.induct)
  case (turn st start now res others)
  show ?case
    using watch_branch_attached [where st = "st\<lparr>fs := others (fs st), clock := now\<rparr>" and cfg = cfg and now = now and res = res]
    by simp
qed (simp_all add: list_all2_same)

lemma attached_runs:
  assumes "watch_runs cfg st turns st'"
  shows "list_all2 (\<lambda>a b. a \<longrightarrow> b) (attached st) (attached st')"
  using assms
proof induction
  case (halt st)
  then show ?case by (simp add: list_all2_same)
next
  case (more st a st' turns st'')
  show ?case
    by (rule list_all2_trans [OF _ watch_step_attached [OF more.hyps(1)] more.IH]) simp
qed

section \<open>What one turn does\<close>

text \<open>The activity a turn leaves before it looks whether to fire.\<close>

definition turn_activity :: "'w watch_config \<Rightarrow> nat \<Rightarrow> received \<Rightarrow> 'w watch_state \<Rightarrow> 'w watch_state \<Rightarrow> nat option" where
  "turn_activity cfg now res st st' =
     (if attached st' \<noteq> attached st \<or> (\<exists>e. res = Message e \<and> is_relevant_event (wc_specs cfg) e)
      then Some now else activity st)"

definition turn_fires :: "'w watch_config \<Rightarrow> nat \<Rightarrow> received \<Rightarrow> 'w watch_state \<Rightarrow> 'w watch_state \<Rightarrow> bool" where
  "turn_fires cfg now res st st' \<longleftrightarrow>
     res = Timeout \<and> (\<exists>t. turn_activity cfg now res st st' = Some t \<and> t + wc_debounce cfg \<le> now)"

lemma watch_branch_turn:
  fixes cfg :: "'w watch_config" and st :: "'w watch_state" and now res
  assumes "\<And>t. activity st = Some t \<Longrightarrow> t \<le> now"
  defines "st' \<equiv> watch_branch cfg now res st"
  shows "sent st' = sent st @ (if turn_fires cfg now res st st' then fire_reload (wc_reload_tx cfg) (wc_on_reload cfg) else [])"
    and "activity st' = (if turn_fires cfg now res st st' then None else turn_activity cfg now res st st')"
proof -
  let ?a = "attach_now cfg now st"
  let ?fire = "fire_reload (wc_reload_tx cfg) (wc_on_reload cfg)"
  have act: "activity ?a = (if attached ?a = attached st then activity st else Some now)"
    by (rule attach_now_activity)
  have le: "(case activity ?a of Some t \<Rightarrow> now - t \<ge> wc_debounce cfg | None \<Rightarrow> False) \<longleftrightarrow>
      (\<exists>t. activity ?a = Some t \<and> t + wc_debounce cfg \<le> now)"
  proof (cases "activity ?a")
    case (Some t)
    with act assms(1) have "t \<le> now" by (cases "attached ?a = attached st") auto
    with Some show ?thesis by auto
  qed simp
  have "sent st' = sent st @ (if turn_fires cfg now res st st' then ?fire else []) \<and>
    activity st' = (if turn_fires cfg now res st st' then None else turn_activity cfg now res st st')"
  proof (cases res)
    case (Message e)
    with act show ?thesis
      by (simp add: st'_def watch_branch_def turn_fires_def turn_activity_def Let_def)
  next
    case Timeout
    have at: "attached st' = attached ?a" using Timeout by (simp add: st'_def watch_branch_def Let_def)
    with Timeout act have ta: "turn_activity cfg now res st st' = activity ?a"
      by (simp add: turn_activity_def)
    let ?c = "case activity ?a of Some t \<Rightarrow> now - t \<ge> wc_debounce cfg | None \<Rightarrow> False"
    from ta have "turn_fires cfg now res st st' \<longleftrightarrow> ?c"
      unfolding le turn_fires_def using Timeout by simp
    moreover have "sent st' = sent st @ (if ?c then ?fire else [])"
      and "activity st' = (if ?c then None else activity ?a)"
      by (simp_all add: st'_def Timeout watch_branch_def Let_def)
    ultimately show ?thesis using ta by simp
  qed (simp_all add: st'_def watch_branch_def turn_fires_def turn_activity_def)
  then show "sent st' = sent st @ (if turn_fires cfg now res st st' then ?fire else [])"
    "activity st' = (if turn_fires cfg now res st st' then None else turn_activity cfg now res st st')"
    by simp_all
qed

text \<open>The recorded activity is never in the future.\<close>

definition clock_ok :: "'w watch_state \<Rightarrow> bool" where
  "clock_ok st \<longleftrightarrow> (\<forall>t. activity st = Some t \<longrightarrow> t \<le> clock st)"

lemma clock_ok_start: "clock_ok (watch_start cfg s w now)"
  by (simp add: clock_ok_def watch_start_def split: prod.split)

lemma watch_turn:
  assumes "watch_step cfg st (Turn start now res others) st'" and "clock_ok st"
  shows "sent st' = sent st @ (if turn_fires cfg now res st st' then fire_reload (wc_reload_tx cfg) (wc_on_reload cfg) else [])"
    and "activity st' = (if turn_fires cfg now res st st' then None else turn_activity cfg now res st st')"
    and "clock st' = now" and "clock st \<le> start" and "start \<le> now"
    and "res = Timeout \<Longrightarrow> start + recv_wait (wc_debounce cfg) (activity st) start \<le> now"
proof -
  from assms(1) have st': "st' = watch_branch cfg now res (st\<lparr>fs := others (fs st), clock := now\<rparr>)"
    and time: "clock st \<le> start" "start \<le> now"
    and wait: "res = Timeout \<Longrightarrow> start + recv_wait (wc_debounce cfg) (activity st) start \<le> now"
    by (auto elim: watch_turnE)
  let ?st = "st\<lparr>fs := others (fs st), clock := now\<rparr>"
  have "\<And>t. activity ?st = Some t \<Longrightarrow> t \<le> now" using assms(2) time by (fastforce simp: clock_ok_def)
  note branch = watch_branch_turn [where st = ?st and cfg = cfg and res = res and now = now, OF this]
  have same: "turn_fires cfg now res ?st st' = turn_fires cfg now res st st'"
    "turn_activity cfg now res ?st st' = turn_activity cfg now res st st'"
    by (simp_all add: turn_fires_def turn_activity_def cong: if_cong del: if_split)
  from branch show "sent st' = sent st @ (if turn_fires cfg now res st st' then fire_reload (wc_reload_tx cfg) (wc_on_reload cfg) else [])"
    "activity st' = (if turn_fires cfg now res st st' then None else turn_activity cfg now res st st')"
    using same by (simp_all add: st')
  show "clock st' = now" by (simp add: st')
qed (use assms(1) in \<open>auto elim: watch_turnE\<close>)

lemma clock_ok_step:
  assumes "watch_step cfg st a st'" and "clock_ok st"
  shows "clock_ok st'"
  using assms(1)
proof (cases rule: watch_step_kinds)
  case (flags b c)
  with assms(2) show ?thesis by (simp add: clock_ok_def)
next
  case (turn start now res others)
  note step = watch_turn [OF assms(1) [unfolded turn] assms(2)]
  show ?thesis
    using assms(2) step(2-5) by (fastforce simp: clock_ok_def turn_activity_def split: if_splits)
qed

lemma clock_ok_runs: "watch_runs cfg st turns st' \<Longrightarrow> clock_ok st \<Longrightarrow> clock_ok st'"
  by (erule runs_invariant [where P = clock_ok]) (assumption, rule clock_ok_step)

section \<open>What a run does\<close>

lemma reachable_clock_ok: "watch_runs cfg (watch_start cfg s w n) turns st \<Longrightarrow> clock_ok st"
  by (rule clock_ok_runs [OF _ clock_ok_start])

text \<open>Everything recorded is not older than \<open>n\<close>.\<close>

definition recent :: "nat \<Rightarrow> 'w watch_state \<Rightarrow> bool" where
  "recent n st \<longleftrightarrow> clock_ok st \<and> n \<le> clock st \<and> (\<forall>t. activity st = Some t \<longrightarrow> n \<le> t)"

lemma recent_step:
  assumes "watch_step cfg st a st'" and "recent n st"
  shows "recent n st'"
  using assms(1)
proof (cases rule: watch_step_kinds)
  case (flags b c)
  with assms(2) show ?thesis by (simp add: recent_def clock_ok_def)
next
  case (turn start now res others)
  have ok: "clock_ok st" using assms(2) by (simp add: recent_def)
  note turn = watch_turn [OF assms(1) [unfolded turn] ok]
  have "n \<le> now" using assms(2) turn(4,5) by (simp add: recent_def)
  moreover have "\<forall>t. activity st' = Some t \<longrightarrow> n \<le> t"
    using \<open>n \<le> now\<close> assms(2) unfolding turn(2) turn_activity_def recent_def by simp
  ultimately show ?thesis
    using turn(3) clock_ok_step [OF assms(1) ok] by (simp add: recent_def)
qed

lemma recent_runs: "watch_runs cfg st turns st' \<Longrightarrow> recent n st \<Longrightarrow> recent n st'"
  by (erule runs_invariant [where P = "recent n"]) (assumption, rule recent_step)

text \<open>A turn that brings nothing relevant.\<close>

fun idle_turn :: "watch_spec list \<Rightarrow> turn \<Rightarrow> bool" where
  "idle_turn specs (Turn start now (Message e) others) = (\<not> is_relevant_event specs e)"
| "idle_turn specs a = True"

fun timeout_turn :: "turn \<Rightarrow> bool" where
  "timeout_turn (Turn start now Timeout others) = True"
| "timeout_turn a = False"

lemma idle_activity:
  "idle_turn (wc_specs cfg) (Turn start now res others) \<Longrightarrow> attached st' = attached st \<Longrightarrow>
   turn_activity cfg now res st st' = activity st"
  by (cases res) (auto simp: turn_activity_def)

lemma attached_between:
  assumes "watch_step cfg st a st'" and "watch_runs cfg st' turns st''" and "attached st'' = attached st"
  shows "attached st' = attached st"
proof (rule nth_equalityI)
  have grow: "list_all2 (\<lambda>a b. a \<longrightarrow> b) (attached st) (attached st')"
    "list_all2 (\<lambda>a b. a \<longrightarrow> b) (attached st') (attached st)"
    using watch_step_attached [OF assms(1)] attached_runs [OF assms(2)] assms(3) by simp_all
  then show len: "length (attached st') = length (attached st)" by (blast dest: list_all2_lengthD)
  fix i assume "i < length (attached st')"
  with grow len show "attached st' ! i = attached st ! i" by (auto dest: list_all2_nthD)
qed

lemma idle_runs:
  assumes "watch_runs cfg st turns st'" and "clock_ok st" and "activity st = None"
    and "\<forall>a \<in> set turns. idle_turn (wc_specs cfg) a" and "attached st' = attached st"
  shows "sent st' = sent st \<and> activity st' = None"
  using assms
proof induction
  case (halt st)
  then show ?case by simp
next
  case (more st a st' turns st'')
  have att: "attached st' = attached st" by (rule attached_between [OF more.hyps more.prems(4)])
  have "sent st' = sent st \<and> activity st' = None"
    using more.hyps(1)
  proof (cases rule: watch_step_kinds)
    case (flags b c)
    with more.prems show ?thesis by simp
  next
    case Turn: (turn start now res others)
    with more.prems att have "turn_activity cfg now res st st' = None"
      using idle_activity [of cfg start now res others st' st] by simp
    with watch_turn(1,2) [OF more.hyps(1) [unfolded Turn] more.prems(1)] show ?thesis
      by (simp add: turn_fires_def)
  qed
  with more att clock_ok_step [OF more.hyps(1)] show ?case by simp
qed

text \<open>Without a timeout nothing is sent.\<close>

lemma no_timeout_runs:
  assumes "watch_runs cfg st turns st'" and "clock_ok st" and "\<forall>a \<in> set turns. \<not> timeout_turn a"
  shows "sent st' = sent st"
  using assms
proof induction
  case (halt st)
  then show ?case by simp
next
  case (more st a st' turns st'')
  have "sent st' = sent st"
    using more.hyps(1)
  proof (cases rule: watch_step_kinds)
    case (flags b c)
    then show ?thesis by simp
  next
    case Turn: (turn start now res others)
    with more.prems have "res \<noteq> Timeout" by auto
    with watch_turn(1) [OF more.hyps(1) [unfolded Turn] more.prems(1)] show ?thesis
      by (simp add: turn_fires_def)
  qed
  with more clock_ok_step [OF more.hyps(1)] show ?case by simp
qed

lemma attach_pending_all:
  "list_all (\<lambda>a. a) flags \<Longrightarrow> attach_pending inotify specs flags env = (False, flags, env)"
  by (induction inotify specs flags env rule: attach_pending.induct) auto

lemma attach_now_all: "list_all (\<lambda>a. a) (attached st) \<Longrightarrow> attach_now cfg now st = st"
  by (simp add: attach_now_def attach_pending_all)

text \<open>A run of events that concern nothing, \<open>gap\<close> apart.\<close>

lemma starving_run:
  assumes "list_all (\<lambda>a. a) (attached st)" and "\<not> stopped st" and "\<not> stop_set st"
  shows "\<exists>more st'. length more = k \<and> watch_runs cfg st more st' \<and> clock st + k * gap \<le> clock st' \<and>
    activity st' = activity st \<and> sent st' = sent st \<and> (\<forall>a \<in> set more. idle_turn (wc_specs cfg) a)"
  using assms
proof (induction k arbitrary: st)
  case 0
  show ?case by (intro exI [of _ "[]"] exI [of _ st]) simp
next
  case (Suc k)
  let ?now = "clock st + gap"
  let ?e = "\<lparr>ev_kind = EvOther, ev_paths = []\<rparr>"
  let ?a = "Turn (clock st) ?now (Message ?e) (\<lambda>s. s)"
  let ?st = "st\<lparr>clock := ?now\<rparr>"
  have idle: "\<not> is_relevant_event (wc_specs cfg) ?e" by (simp add: is_relevant_event_def)
  have "watch_branch cfg ?now (Message ?e) (st\<lparr>fs := fs st, clock := ?now\<rparr>) = ?st"
    using Suc.prems idle by (simp add: watch_branch_def attach_now_all Let_def)
  then have step: "watch_step cfg st ?a ?st"
    using watch_step.turn [of st "clock st" ?now "Message ?e" cfg "\<lambda>s. s"] Suc.prems by simp
  obtain more st' where more: "length more = k" "watch_runs cfg ?st more st'" "clock ?st + k * gap \<le> clock st'"
    "activity st' = activity ?st" "sent st' = sent ?st" "\<forall>a \<in> set more. idle_turn (wc_specs cfg) a"
    using Suc.IH [of ?st] Suc.prems by auto
  with step idle show ?case
    by (intro exI [of _ "?a # more"] exI [of _ st']) (auto intro: runs.more)
qed

section \<open>Properties\<close>

text \<open>The watcher of the witnesses: it records what it is asked to watch.\<close>

definition recorder :: "(path \<times> bool) list inotify" where
  "recorder p recursive w = (Inr (), w @ [(p, recursive)])"

definition net_cfg :: "(path \<times> bool) list watch_config" where
  "net_cfg =
     \<lparr>wc_inotify = recorder, wc_specs = [watch_file ''/etc/net.json''], wc_debounce = 5,
      wc_reload_tx = True, wc_on_reload = False\<rparr>"

lemma net_cfg_spawned: "spawn_signal recorder None [watch_file ''/etc/net.json''] 5 = Inr net_cfg"
  by (simp add: spawn_signal_def net_cfg_def)

definition net_sys :: sys where
  "net_sys =
     \<lparr>nodes = (\<lambda>k. if k = [RootDir, Normal ''etc''] then Some \<lparr>content = Dir, mode = 493\<rparr> else None),
      listening = (\<lambda>_. None), next_socket = 0, umask_dir = 493, umask_file = 420,
      umask_socket = 493, faults = (\<lambda>_ _. None)\<rparr>"

definition net_event :: event where
  "net_event = \<lparr>ev_kind = EvModify, ev_paths = [''/etc/net.json'']\<rparr>"

definition other_event :: event where
  "other_event = \<lparr>ev_kind = EvOther, ev_paths = []\<rparr>"

abbreviation "net0 \<equiv> watch_start net_cfg net_sys [] 0"
abbreviation "net1 \<equiv> watch_branch net_cfg 2 (Message net_event) (net0\<lparr>fs := fs net0, clock := 2\<rparr>)"
abbreviation "net2 \<equiv> watch_branch net_cfg 7 Timeout (net1\<lparr>fs := fs net1, clock := 7\<rparr>)"

lemma net_paths:
  "\<not> is_dir ''/etc/net.json'' net_sys" "parent ''/etc/net.json'' = Some ''/etc''" "is_dir ''/etc'' net_sys"
  "is_relevant_event [watch_file ''/etc/net.json''] net_event"
  by code_simp+

lemma net_cfg_simps [simp]:
  "wc_inotify net_cfg = recorder" "wc_specs net_cfg = [watch_file ''/etc/net.json'']" "wc_debounce net_cfg = 5"
  "wc_reload_tx net_cfg" "\<not> wc_on_reload net_cfg"
  by (simp_all add: net_cfg_def)

lemma net_start:
  assumes "wc_inotify cfg = recorder" and "wc_specs cfg = [watch_file ''/etc/net.json'']"
  shows "watch_start cfg net_sys [] 0 =
    \<lparr>fs = net_sys, watcher = [(''/etc'', False)], attached = [True], activity = None, clock = 0,
     sent = [], stop_set = False, stopped = False\<rparr>"
proof -
  have spec: "ws_path (watch_file p) = p" "\<not> ws_recursive (watch_file p)" for p
    by (simp_all add: watch_file_def Let_def)
  have "attach_spec recorder (watch_file ''/etc/net.json'') (net_sys, []) = (True, net_sys, [(''/etc'', False)])"
    using net_paths by (simp add: attach_spec_def spec watch_dir_for_def recorder_def)
  with assms show ?thesis by (simp add: watch_start_def)
qed

lemmas net0_eq = net_start [OF net_cfg_simps(1,2)]

lemma net1_eq: "net1 = net0\<lparr>clock := 2, activity := Some 2\<rparr>"
  using net_paths(4) by (simp add: watch_branch_def attach_now_all net0_eq Let_def)

lemma net2_eq: "net2 = net0\<lparr>clock := 7, sent := [Signal]\<rparr>"
  unfolding net1_eq by (simp add: watch_branch_def attach_now_all net0_eq Let_def fire_reload_def)

lemma net_facts:
  "attached net0 = [True]" "watcher net0 = [(''/etc'', False)]" "clock net0 = 0" "\<not> stopped net0" "\<not> stop_set net0" "activity net0 = None"
  "attached net1 = [True]" "clock net1 = 2" "\<not> stopped net1" "\<not> stop_set net1" "activity net1 = Some 2" "sent net1 = []"
  "attached net2 = [True]" "sent net2 = [Signal]"
  "is_relevant_event (wc_specs net_cfg) net_event" "wc_debounce net_cfg = 5"
  unfolding net2_eq unfolding net1_eq unfolding net0_eq by (simp_all add: net_paths(4))

lemma net_run1: "watch_step net_cfg net0 (Turn 0 2 (Message net_event) (\<lambda>s. s)) net1"
  using watch_step.turn [of net0 0 2 "Message net_event" net_cfg "\<lambda>s. s"] net_facts by simp

lemma net_run2: "watch_step net_cfg net1 (Turn 2 7 Timeout (\<lambda>s. s)) net2"
  using watch_step.turn [of net1 2 7 Timeout net_cfg "\<lambda>s. s"] net_facts by (simp add: recv_wait_def)

text \<open>
  A change is reported as soon as it is quiet. Whenever a change is pending and the receive times
  out with nothing new to attach, the reload is sent in that very turn, at least the debounce time
  after the change, and nothing is pending any more: the remaining wait is computed so that no
  timeout comes too early.
\<close>

theorem timeout_sends_pending_reload:
  assumes "watch_runs cfg (watch_start cfg s w n) turns st" and "activity st = Some t"
    and "watch_step cfg st (Turn start now Timeout others) st'" and "attached st' = attached st"
  shows "sent st' = sent st @ fire_reload (wc_reload_tx cfg) (wc_on_reload cfg) \<and> activity st' = None \<and>
    t + wc_debounce cfg \<le> now"
proof -
  have ok: "clock_ok st" by (rule reachable_clock_ok [OF assms(1)])
  note turn = watch_turn [OF assms(3) ok]
  have "t \<le> start" using ok assms(2) turn(4) by (simp add: clock_ok_def)
  moreover from turn(6) have "start + recv_wait (wc_debounce cfg) (Some t) start \<le> now"
    using assms(2) by simp
  ultimately have "t + wc_debounce cfg \<le> now"
    by (simp add: recv_wait_def Let_def split: if_splits)
  moreover have "turn_activity cfg now Timeout st st' = Some t"
    using assms(2,4) by (simp add: turn_activity_def)
  ultimately have "turn_fires cfg now Timeout st st'" by (simp add: turn_fires_def)
  with turn(1,2) \<open>t + wc_debounce cfg \<le> now\<close> show ?thesis by simp
qed

theorem timeout_sends_pending_reload_witness:
  "sent net2 = [Signal] \<and> activity net2 = None"
proof -
  have "watch_runs net_cfg net0 [Turn 0 2 (Message net_event) (\<lambda>s. s)] net1"
    using net_run1 by (auto simp: runs_Cons)
  from timeout_sends_pending_reload [OF this net_facts(11) net_run2] net_facts show ?thesis
    by (simp add: fire_reload_def net_cfg_def)
qed

text \<open>
  C23: The debounce time is kept. After an event that concerns a configuration, no reload is sent
  before the debounce time has passed, whatever arrives in between: a burst of writes and renames
  closer together than that is one reload.
\<close>

theorem no_reload_within_debounce:
  assumes "watch_runs cfg (watch_start cfg s w n) (before @ Turn start1 now1 (Message e) others1 # between) st"
    and "is_relevant_event (wc_specs cfg) e"
    and "watch_step cfg st (Turn start now res others) st'" and "sent st' \<noteq> sent st"
  shows "now1 + wc_debounce cfg \<le> now"
proof -
  from assms(1) obtain st0 st1 where run: "watch_runs cfg (watch_start cfg s w n) before st0"
    and event: "watch_step cfg st0 (Turn start1 now1 (Message e) others1) st1"
    and rest: "watch_runs cfg st1 between st"
    by (auto simp: runs_append runs_Cons)
  have "clock_ok st0" by (rule reachable_clock_ok [OF run])
  note turn1 = watch_turn [OF event this] clock_ok_step [OF event this]
  have "recent now1 st1"
    using turn1(2,3,7) assms(2) by (simp add: recent_def turn_fires_def turn_activity_def)
  from recent_runs [OF rest this] have recent: "recent now1 st" .
  then have "clock_ok st" by (simp add: recent_def)
  note turn = watch_turn [OF assms(3) this]
  from turn(1) assms(4) have "turn_fires cfg now res st st'" by (auto split: if_splits)
  then obtain t where t: "turn_activity cfg now res st st' = Some t" "t + wc_debounce cfg \<le> now"
    by (auto simp: turn_fires_def)
  from t(1) recent turn(4,5) have "now1 \<le> t"
    by (auto simp: turn_activity_def recent_def split: if_splits)
  with t(2) show ?thesis by simp
qed

theorem no_reload_within_debounce_witness:
  "sent net2 \<noteq> sent net1 \<and> 2 + wc_debounce net_cfg \<le> (7 :: nat)"
proof -
  have "watch_runs net_cfg net0 ([] @ Turn 0 2 (Message net_event) (\<lambda>s. s) # []) net1"
    using net_run1 by (auto simp: runs_Cons)
  from no_reload_within_debounce [OF this _ net_run2] net_facts show ?thesis by simp
qed

text \<open>
  No reload without a cause. Once nothing is pending, any number of turns in which no event
  concerns a configuration and no spec attaches sends nothing, however long they take.
\<close>

theorem no_reload_without_cause:
  assumes "watch_runs cfg (watch_start cfg s w n) before st" and "activity st = None"
    and "watch_runs cfg st turns st'" and "\<forall>a \<in> set turns. idle_turn (wc_specs cfg) a"
    and "attached st' = attached st"
  shows "sent st' = sent st"
  using idle_runs [OF assms(3) reachable_clock_ok [OF assms(1)] assms(2,4,5)] by simp

theorem no_reload_without_cause_witness:
  "sent (watch_branch net_cfg 9 (Message other_event) (net0\<lparr>fs := fs net0, clock := 9\<rparr>)) = sent net0"
proof -
  let ?st = "watch_branch net_cfg 9 (Message other_event) (net0\<lparr>fs := fs net0, clock := 9\<rparr>)"
  have "watch_step net_cfg net0 (Turn 0 9 (Message other_event) (\<lambda>s. s)) ?st"
    using watch_step.turn [of net0 0 9 "Message other_event" net_cfg "\<lambda>s. s"] net_facts by simp
  then have "watch_runs net_cfg net0 [Turn 0 9 (Message other_event) (\<lambda>s. s)] ?st"
    by (auto simp: runs_Cons)
  moreover have "attached ?st = [True]" by code_simp
  moreover have "idle_turn (wc_specs net_cfg) (Turn 0 9 (Message other_event) (\<lambda>s. s))"
    by (simp add: is_relevant_event_def other_event_def)
  ultimately show ?thesis
    using no_reload_without_cause [of net_cfg net_sys "[]" 0 "[]" net0 _ ?st] net_facts by simp
qed



text \<open>
  C39: A configuration file named without a directory is never watched. Its parent is the empty path,
  which is not a directory and which \<open>create_dir_all\<close> does not make one; the spec stays pending
  in every state of the file system, and \<open>inotify\<close> is never asked.
\<close>

theorem bare_file_name_is_never_watched:
  assumes "parent p = Some []" and "\<not> is_dir p s"
  shows "attach_spec inotify (watch_file p) (s, w) = (False, s, w)"
proof -
  have "create_dir_all [] s = (Inr (), s)"
    by (simp add: create_dir_all_def key_def components_def segments_def skipped_def create_dir_all_key.simps)
  with assms show ?thesis
    by (simp add: attach_spec_def watch_file_def watch_dir_for_def is_dir_def [of "[]"] Let_def)
qed

theorem bare_file_name_is_never_watched_witness:
  "attach_spec recorder (watch_file ''net.json'') (net_sys, []) = (False, net_sys, [])"
proof -
  have "parent ''net.json'' = Some []" "\<not> is_dir ''net.json'' net_sys" by code_simp+
  then show ?thesis by (rule bare_file_name_is_never_watched)
qed

text \<open>
  A directory spec on a directory that does not exist yet is not retried until it appears. If it
  is not recursive, it attaches to the parent instead, where the events inside the directory are not
  reported, and counts as attached from then on, in every later state of the watcher.
\<close>

theorem missing_dir_attaches_to_parent:
  assumes "\<not> is_dir p s" and "parent p = Some q" and "is_dir q s" and "inotify q False w = (Inr u, w')"
    and "attached st ! i" and "i < length (attached st)" and "watch_runs cfg st turns st'"
  shows "attach_spec inotify (watch_dir p False) (s, w) = (True, s, w') \<and> attached st' ! i"
proof
  show "attach_spec inotify (watch_dir p False) (s, w) = (True, s, w')"
    using assms(1-4) by (simp add: attach_spec_def watch_dir_def watch_dir_for_def Let_def)
  from list_all2_nthD [OF attached_runs [OF assms(7)] assms(6)] assms(5) show "attached st' ! i" by simp
qed

theorem missing_dir_attaches_to_parent_witness:
  "attach_spec recorder (watch_dir ''/etc/net.d'' False) (net_sys, []) = (True, net_sys, [(''/etc'', False)]) \<and>
   attached net1 ! 0"
proof -
  have "\<not> is_dir ''/etc/net.d'' net_sys" "parent ''/etc/net.d'' = Some ''/etc''" "is_dir ''/etc'' net_sys" by code_simp+
  moreover have "watch_runs net_cfg net0 [Turn 0 2 (Message net_event) (\<lambda>s. s)] net1"
    using net_run1 by (auto simp: runs_Cons)
  ultimately show ?thesis
    using missing_dir_attaches_to_parent [of "''/etc/net.d''" net_sys "''/etc''" recorder "[]" "()"
        "[(''/etc'', False)]" net0 0 net_cfg _ net1] net_facts
    by (simp add: recorder_def)
qed

end
