(* ===== verification/Well_Formed.thy ===== *)
theory Well_Formed
  imports Bind Json_File Watch_Loop
begin

text \<open>
  The type invariant of the system state, and that everything the crate does to the file system
  keeps it: every inode lies in a directory, the two directories that are always there are not
  entries, and a socket inode names a socket that has been handed out.
\<close>

section \<open>The invariant\<close>

definition socket_ok :: "sys \<Rightarrow> content \<Rightarrow> bool" where
  "socket_ok s c \<longleftrightarrow> (case c of Socket i \<Rightarrow> i < next_socket s | _ \<Rightarrow> True)"

definition placed :: "sys \<Rightarrow> file_key \<Rightarrow> bool" where
  "placed s k \<longleftrightarrow> k = [] \<or> k = [RootDir] \<or> parent_error k s = None"

definition sys_wf :: "sys \<Rightarrow> bool" where
  "sys_wf s \<longleftrightarrow>
     (\<forall>k n. lookup s k = Some n \<longrightarrow> placed s k \<and> socket_ok s (content n)) \<and> sockets_fresh s"

lemma parent_error_None: "parent_error k s = None \<longleftrightarrow> (\<exists>d. lookup s (butlast k) = Some d \<and> content d = Dir)"
  by (auto simp: parent_error_def split: option.splits)

lemma lookup_set_node_eq:
  "lookup (set_node k n s) k' =
     (if k' = [] \<or> k' = [RootDir] then Some \<lparr>content = Dir, mode = umask_dir s\<rparr>
      else if k' = k then n else lookup s k')"
  by (auto simp: lookup_def set_node_def)

lemma sys_wfD:
  assumes "sys_wf s" and "lookup s k = Some n"
  shows "placed s k" and "socket_ok s (content n)"
  using assms by (auto simp: sys_wf_def)

text \<open>
  The two ways in which the calls change the tree: an inode at a place that is free, or taken by one
  that is a directory only if the new one is; and the end of an inode that is no directory.
\<close>

lemma wf_set_node:
  assumes "sys_wf s" and "placed s k" and "socket_ok s (content n)"
    and keeps_dir: "\<And>d. lookup s k = Some d \<Longrightarrow> content d = Dir \<Longrightarrow> content n = Dir"
  shows "sys_wf (set_node k (Some n) s)"
proof -
  let ?t = "set_node k (Some n) s"
  have dir: "\<exists>d. lookup ?t q = Some d \<and> content d = Dir" if "\<exists>d. lookup s q = Some d \<and> content d = Dir" for q
    using that keeps_dir by (auto simp: lookup_set_node_eq)
  have placed: "placed ?t q" if "placed s q" for q
    using that dir [of "butlast q"] by (auto simp: placed_def parent_error_None)
  have "placed ?t k' \<and> socket_ok ?t (content m)" if "lookup ?t k' = Some m" for k' m
    using that placed [of k'] assms(2,3) sys_wfD [OF assms(1), of k' m]
    by (auto simp: lookup_set_node_eq socket_ok_def placed_def split: if_splits content.splits)
  with assms(1) show ?thesis by (simp add: sys_wf_def sockets_fresh_def)
qed

lemma wf_remove_node:
  assumes "sys_wf s" and "\<And>d. lookup s k = Some d \<Longrightarrow> content d \<noteq> Dir"
  shows "sys_wf (set_node k None s)"
proof -
  let ?t = "set_node k None s"
  have placed: "placed ?t q" if "placed s q" for q
    using that assms(2) by (auto simp: placed_def parent_error_None lookup_set_node_eq)
  have "placed ?t k' \<and> socket_ok ?t (content m)" if "lookup ?t k' = Some m" for k' m
    using that placed [of k'] sys_wfD [OF assms(1), of k' m]
    by (auto simp: lookup_set_node_eq socket_ok_def placed_def split: if_splits content.splits)
  with assms(1) show ?thesis by (simp add: sys_wf_def sockets_fresh_def)
qed

lemma wf_replace:
  assumes "sys_wf s" and "lookup s k = Some n" and "content n = Dir \<longleftrightarrow> content n' = Dir"
    and "socket_ok s (content n')"
  shows "sys_wf (set_node k (Some n') s)"
  using assms sys_wfD(1) [OF assms(1,2)] by (intro wf_set_node) auto

section \<open>The system calls keep it\<close>

lemma mkdir_wf: "sys_wf s \<Longrightarrow> sys_wf (snd (mkdir k s))"
  by (auto simp: mkdir_def placed_def socket_ok_def intro!: wf_set_node split: option.split)

lemma mkdir_or_dir_wf: "sys_wf s \<Longrightarrow> sys_wf (snd (mkdir_or_dir k s))"
  using mkdir_wf [of s k] by (auto simp: mkdir_or_dir_def split: prod.splits sum.splits)

lemma create_dir_all_key_invariant:
  assumes "\<And>k s. P s \<Longrightarrow> P (snd (mkdir k s))" and "P s"
  shows "P (snd (create_dir_all_key k s))"
  using assms(2)
proof (induction k arbitrary: s rule: length_induct)
  case (1 k)
  note own = assms(1) [OF 1(2), of k]
  show ?case
  proof (cases k s rule: create_dir_all_key_cases)
    case (above e e' t t')
    have "P (snd (create_dir_all_key (butlast k) t))" using 1(1) above(1,2) own by simp
    with above show ?thesis by simp
  next
    case (again e t t')
    have "P (snd (create_dir_all_key (butlast k) t))" using 1(1) again(1,2) own by simp
    then have "P t'" using again by simp
    from assms(1) [OF this, of k] again show ?thesis by (auto simp: mkdir_or_dir_def split: prod.split sum.split)
  qed (use own 1(2) in auto)
qed

lemma create_dir_all_key_wf: "sys_wf s \<Longrightarrow> sys_wf (snd (create_dir_all_key k s))"
  using mkdir_wf by (rule create_dir_all_key_invariant)

lemma create_dir_all_wf: "sys_wf s \<Longrightarrow> sys_wf (snd (create_dir_all p s))"
  by (simp add: create_dir_all_def create_dir_all_key_wf)

lemma remove_file_wf: "sys_wf s \<Longrightarrow> sys_wf (snd (remove_file p s))"
  by (auto simp: remove_file_def intro!: wf_remove_node split: option.split)

lemma lookup_root: "k = [] \<or> k = [RootDir] \<Longrightarrow> lookup s k = Some \<lparr>content = Dir, mode = umask_dir s\<rparr>"
  by (auto simp: lookup_def)

lemma open_truncated_wf: "sys_wf s \<Longrightarrow> open_truncated p s = (r, t) \<Longrightarrow> sys_wf t"
  using sys_wfD(1) [of s "key p"]
  by (auto simp: open_truncated_def Let_def placed_def socket_ok_def
      intro!: wf_set_node split: option.splits content.splits)

lemma open_truncated_file:
  assumes "open_truncated p s = (Inr n, t)"
  shows "lookup t (key p) = Some n \<and> content n = Regular []"
proof -
  have "key p \<noteq> [] \<and> key p \<noteq> [RootDir]"
    using assms by (auto simp: open_truncated_def lookup_root split: option.splits)
  with assms show ?thesis
    by (auto simp: open_truncated_def Let_def split: option.splits content.splits)
qed

lemma write_file_wf:
  assumes "sys_wf s"
  shows "sys_wf (snd (write_file p body s))"
proof (cases "open_truncated p s")
  case (Pair r t)
  with open_truncated_wf [OF assms Pair] open_truncated_file [of p s _ t] show ?thesis
    by (cases r) (auto simp: write_file_def try_bind_def socket_ok_def intro!: wf_replace split: option.split)
qed

text \<open>Opening and closing a listener changes the sockets; the tree is judged with the new ones.\<close>

lemma wf_sockets:
  assumes "sys_wf s" and "next_socket s \<le> m" and "\<forall>i \<ge> m. h i = None"
  shows "sys_wf (s\<lparr>listening := h, next_socket := m\<rparr>)"
proof -
  let ?t = "s\<lparr>listening := h, next_socket := m\<rparr>"
  have "lookup ?t k = lookup s k" for k by (simp add: lookup_def)
  moreover from this have "placed ?t k = placed s k" for k by (simp add: placed_def parent_error_None)
  moreover have "socket_ok s c \<Longrightarrow> socket_ok ?t c" for c
    using assms(2) by (auto simp: socket_ok_def split: content.splits)
  ultimately show ?thesis using assms(1,3) by (simp add: sys_wf_def sockets_fresh_def)
qed

lemma listener_bind_wf:
  assumes "sys_wf s"
  shows "sys_wf (snd (listener_bind pid p s))"
proof -
  let ?t = "s\<lparr>listening := (listening s)(next_socket s \<mapsto> pid), next_socket := Suc (next_socket s)\<rparr>"
  have t: "sys_wf ?t" using assms by (intro wf_sockets) (auto simp: sys_wf_def sockets_fresh_def)
  have "lookup ?t k = lookup s k" for k by (simp add: lookup_def)
  then have "placed ?t k" if "parent_error k s = None" for k
    using that by (simp add: placed_def parent_error_None)
  then have "sys_wf (set_node k (Some \<lparr>content = Socket (next_socket s), mode = m\<rparr>) ?t)"
    if "parent_error k s = None" "lookup s k = None" for k m
    using that t \<open>\<And>k. lookup ?t k = lookup s k\<close> by (intro wf_set_node) (simp_all add: socket_ok_def)
  with assms show ?thesis by (simp add: listener_bind_def Let_def split: option.split)
qed

lemma set_permissions_wf: "sys_wf s \<Longrightarrow> sys_wf (snd (set_permissions p m s))"
  by (auto simp: set_permissions_def dest: sys_wfD(2) intro!: wf_replace split: option.split)

lemma close_listener_wf: "sys_wf s \<Longrightarrow> sys_wf (close_listener l s)"
  using wf_sockets [of s "next_socket s" "(listening s)(l := None)"]
  by (simp add: close_listener_def sys_wf_def sockets_fresh_def)

section \<open>The operations of the crate keep it\<close>

lemmas call_wf =
  create_dir_all_wf remove_file_wf write_file_wf listener_bind_wf set_permissions_wf close_listener_wf

lemma create_parent_wf: "sys_wf s \<Longrightarrow> sys_wf (snd (create_parent p s))"
  by (simp add: create_parent_def ok_def call_wf split: option.split)

lemma claim_wf: "sys_wf s \<Longrightarrow> sys_wf (snd (claim nix p name s))"
  using connect_pure [of p s] remove_file_wf [of s p]
  by (auto simp: claim_def split: prod.splits sum.splits)

lemma set_owner_and_mode_wf:
  assumes "chown_changes_owner_only nix" and "sys_wf s"
  shows "sys_wf (snd (set_owner_and_mode nix opts s))"
  unfolding set_owner_and_mode_def apply_socket_perms_def
  using assms metadata_pure
  by (auto simp: chown_changes_owner_only_def chown_socket_def ok_def call_wf split: option.split
      intro!: try_bind_keeps [where P = sys_wf])

text \<open>What each call of \<open>bind\<close> keeps, \<open>bind\<close> keeps, wherever it stops.\<close>

lemma bind_keeps:
  assumes "P s" and "\<And>s. P s \<Longrightarrow> P (snd (create_parent (bo_path opts) s))"
    and "\<And>s. P s \<Longrightarrow> P (snd (claim nix (bo_path opts) (bo_process_name opts) s))"
    and "\<And>s. P s \<Longrightarrow> P (snd (listener_bind pid (bo_path opts) s))"
    and owner: "\<And>s. P s \<Longrightarrow> P (snd (set_owner_and_mode nix opts s))"
    and close: "\<And>l s. P s \<Longrightarrow> P (close_listener l s)"
  shows "P (snd (bind nix pid opts s))"
  unfolding bind_def
proof (intro try_bind_keeps [where P = P])
  fix l :: nat and s' :: sys
  assume "P s'"
  then have "P (snd (try_bind (set_owner_and_mode nix opts) (\<lambda>_. ok l) s'))"
    by (intro try_bind_keeps [where P = P]) (simp_all add: owner ok_def)
  then show "P (snd (closing_on_error l (try_bind (set_owner_and_mode nix opts) (\<lambda>_. ok l)) s'))"
    by (auto simp: closing_on_error_def close split: prod.split sum.split)
qed (simp_all add: assms)

lemma bind_wf:
  assumes "chown_changes_owner_only nix" and "sys_wf s"
  shows "sys_wf (snd (bind nix pid opts s))"
  by (rule bind_keeps [where P = sys_wf])
    (simp_all add: assms create_parent_wf claim_wf listener_bind_wf set_owner_and_mode_wf close_listener_wf)

lemma listener_bind_fields: "faults (snd (listener_bind pid p s)) = faults s"
  by (simp add: listener_bind_def Let_def split: option.split)

lemma bind_faults:
  assumes "chown_changes_owner_only nix"
  shows "faults (snd (bind nix pid opts s)) = faults s"
  by (rule bind_keeps [where P = "\<lambda>t. faults t = faults s"])
    (use agrees_off_fields(3) [OF claim_frame] agrees_off_fields(3) [OF set_owner_and_mode_frame [OF assms]] in
      \<open>simp_all add: create_parent_fields listener_bind_fields close_listener_def\<close>)

text \<open>A directory stays a directory.\<close>

definition dir_at :: "file_key \<Rightarrow> sys \<Rightarrow> bool" where
  "dir_at k s \<longleftrightarrow> (\<exists>d. lookup s k = Some d \<and> content d = Dir)"

lemma dir_at_nodes: "(\<And>n. nodes s k = Some n \<Longrightarrow> nodes t k = Some n) \<Longrightarrow> dir_at k s \<Longrightarrow> dir_at k t"
  by (auto simp: dir_at_def lookup_def split: if_splits)

lemma remove_file_dir_at: "dir_at k s \<Longrightarrow> dir_at k (snd (remove_file p s))"
  by (auto simp: remove_file_def dir_at_def lookup_set_node_eq split: option.splits)

lemma claim_dir_at: "dir_at k s \<Longrightarrow> dir_at k (snd (claim nix p name s))"
  using connect_pure [of p s] remove_file_dir_at [of k s p]
  by (auto simp: claim_def split: prod.splits sum.splits)

lemma listener_bind_dir_at [simp]: "dir_at k (snd (listener_bind pid p s)) = dir_at k s"
  by (auto simp: listener_bind_def Let_def dir_at_def lookup_def set_node_def split: option.splits if_splits)

lemma set_permissions_dir_at: "dir_at k (snd (set_permissions p m s)) = dir_at k s"
  by (auto simp: set_permissions_def dir_at_def lookup_def set_node_def split: option.splits if_splits)

lemma set_owner_and_mode_dir_at:
  assumes "chown_changes_owner_only nix"
  shows "dir_at k (snd (set_owner_and_mode nix opts s)) = dir_at k s"
  unfolding set_owner_and_mode_def apply_socket_perms_def
proof (intro try_bind_keeps [where P = "\<lambda>t. dir_at k t = dir_at k s"])
  show "dir_at k (snd (map_err (io_at (bo_path opts))
      (try_bind (metadata (bo_path opts)) (\<lambda>_. set_permissions (bo_path opts) (bo_mode opts))) s)) = dir_at k s"
    unfolding map_err_snd
    by (rule try_bind_keeps [where P = "\<lambda>t. dir_at k t = dir_at k s"])
      (simp_all add: metadata_pure set_permissions_dir_at)
qed (use assms in \<open>auto simp: chown_changes_owner_only_def chown_socket_def ok_def split: option.split\<close>)

lemma close_listener_dir_at [simp]: "dir_at k (close_listener l s) = dir_at k s"
  by (simp add: dir_at_def close_listener_def lookup_def)

lemma bind_dir_at:
  assumes "chown_changes_owner_only nix" and "dir_at k s"
  shows "dir_at k (snd (bind nix pid opts s))"
  by (rule bind_keeps [where P = "dir_at k"])
    (use assms dir_at_nodes [OF create_parent_keeps] in
      \<open>simp_all add: claim_dir_at set_owner_and_mode_dir_at\<close>)

text \<open>A place becomes a directory only as a parent of what is bound.\<close>

lemma create_parent_not_dir_at:
  "\<not> strict_prefix k (key p) \<Longrightarrow> dir_at k (snd (create_parent p s)) = dir_at k s"
  using lookup_agrees [OF create_parent_frame, of k p s] by (simp add: dir_at_def)

lemma remove_file_not_dir_at: "dir_at k (snd (remove_file p s)) \<Longrightarrow> dir_at k s"
  by (auto simp: remove_file_def dir_at_def lookup_set_node_eq lookup_root split: option.splits if_splits)

lemma claim_not_dir_at: "dir_at k (snd (claim nix p name s)) \<Longrightarrow> dir_at k s"
  using connect_pure [of p s] remove_file_not_dir_at [of k p s]
  by (auto simp: claim_def split: prod.splits sum.splits if_splits)

lemma bind_not_dir_at:
  assumes "chown_changes_owner_only nix" and "\<not> dir_at k s" and "\<not> strict_prefix k (key (bo_path opts))"
  shows "\<not> dir_at k (snd (bind nix pid opts s))"
  by (rule bind_keeps [where P = "\<lambda>s. \<not> dir_at k s"])
    (use assms claim_not_dir_at in \<open>auto simp: create_parent_not_dir_at set_owner_and_mode_dir_at\<close>)

text \<open>In a directory, on a place that is none itself, a bind is decided by who answers there.\<close>

text \<open>Where someone answers at the path, a bind reports it and changes nothing at all.\<close>

lemma bind_answered:
  assumes "sys_wf s" and "faults s = (\<lambda>_ _. None)" and "serving s (bo_path opts) = Some i"
  shows "create_parent (bo_path opts) s = (Inr (), s)"
    and "\<exists>location n. bind nix pid opts s = (Inl (AlreadyRunning (bo_process_name opts) location (bo_path opts) n), s)"
proof -
  let ?p = "bo_path opts"
  from assms(3) obtain n where n: "lookup s (key ?p) = Some n" by (auto simp: serving_lookup)
  with assms(1) serving_key [OF assms(3)] have "parent_error (key ?p) s = None"
    by (auto simp: sys_wf_def placed_def)
  then obtain d where "lookup s (butlast (key ?p)) = Some d" "content d = Dir" by (auto simp: parent_error_None)
  from create_parent_existing [OF assms(2) this] show par: "create_parent ?p s = (Inr (), s)" .
  obtain location q where "claim nix ?p (bo_process_name opts) s = (Inl (AlreadyRunning (bo_process_name opts) location ?p q), s)"
    using claim_serving [OF assms(3)] assms(2) by fastforce
  with par show "\<exists>location n. bind nix pid opts s = (Inl (AlreadyRunning (bo_process_name opts) location ?p n), s)"
    by (simp add: bind_def)
qed

lemma bind_on_good_place:
  assumes "chown_changes_owner_only nix" and "faults s = (\<lambda>_ _. None)" and "sockets_fresh s" and "bo_chown opts = None"
    and "dir_at (butlast (key (bo_path opts))) s" and "\<not> dir_at (key (bo_path opts)) s"
  shows "case serving s (bo_path opts) of
      None \<Rightarrow> \<exists>l t. bind nix pid opts s = (Inr l, t) \<and> serving t (bo_path opts) = Some l
    | Some _ \<Rightarrow> \<exists>location n. bind nix pid opts s = (Inl (AlreadyRunning (bo_process_name opts) location (bo_path opts) n), s)"
proof -
  let ?p = "bo_path opts"
  obtain d where d: "lookup s (butlast (key ?p)) = Some d" "content d = Dir" using assms(5) by (auto simp: dir_at_def)
  have root: "key ?p \<noteq> []" "key ?p \<noteq> [RootDir]" using assms(6) by (auto simp: dir_at_def lookup_root)
  show ?thesis
  proof (cases "serving s ?p")
    case None
    have "fst (bind nix pid opts s) = Inr (next_socket s)"
      by (rule bind_recovers_aux [OF assms(2,4) d root None]) (use assms(6) in \<open>auto simp: dir_at_def\<close>)
    then obtain t where t: "bind nix pid opts s = (Inr (next_socket s), t)" by (metis prod.collapse)
    with bind_success_serves_aux [OF assms(1,3) _ t] assms(2) None show ?thesis by simp
  next
    case (Some i)
    obtain location q where "claim nix ?p (bo_process_name opts) s = (Inl (AlreadyRunning (bo_process_name opts) location ?p q), s)"
      using claim_serving [OF Some] assms(2) by fastforce
    with create_parent_existing [OF assms(2) d] Some show ?thesis by (simp add: bind_def)
  qed
qed

lemma seed_file_wf: "sys_wf s \<Longrightarrow> sys_wf (snd (seed_file codec p s))"
  by (auto simp: seed_file_def Let_def call_wf ok_def fail_def split: option.split sum.split
      intro!: try_bind_keeps [where P = sys_wf])

lemma load_wf:
  assumes "sys_wf s"
  shows "sys_wf (snd (load codec src s))"
proof -
  obtain r where "read_to_string (jf_path src) s = (r, s)"
    using read_to_string_pure [of "jf_path src" s] by (metis prod.collapse)
  with assms seed_file_wf [OF assms] show ?thesis
    by (auto simp: load_def split: sum.split seed.split)
qed

lemma attach_spec_wf: "sys_wf (fst env) \<Longrightarrow> sys_wf (fst (snd (attach_spec inotify spec env)))"
  by (auto simp: attach_spec_def Let_def call_wf split: prod.split sum.split)

lemma attach_pending_wf: "sys_wf (fst env) \<Longrightarrow> sys_wf (fst (snd (snd (attach_pending inotify specs flags env))))"
proof (induction inotify specs flags env rule: attach_pending.induct)
  case (1 inotify spec specs a flags env)
  obtain now env1 where att: "attach_spec inotify spec env = (now, env1)" by (metis prod.collapse)
  with attach_spec_wf [OF 1(3), of inotify spec] have "sys_wf (fst env1)" by simp
  with 1 att show ?case by (cases a) (auto split: prod.split)
qed simp_all

section \<open>The state of the watcher\<close>

text \<open>
  What the watch loop relies on: one flag per spec, so that no index is out of range; no activity in the
  future, so that no subtraction of instants is below zero; only notifications of the kinds it was
  started with.
\<close>

definition watch_ok :: "'w watch_config \<Rightarrow> 'w watch_state \<Rightarrow> bool" where
  "watch_ok cfg st \<longleftrightarrow>
     length (attached st) = length (wc_specs cfg) \<and> clock_ok st \<and> sys_wf (fs st) \<and>
     set (sent st) \<subseteq> set (fire_reload (wc_reload_tx cfg) (wc_on_reload cfg))"

lemma attach_pending_length: "length (fst (snd (attach_pending inotify specs flags env))) = length flags"
proof (induction inotify specs flags env rule: attach_pending.induct)
  case (1 inotify spec specs a flags env)
  then show ?case by (cases a) (auto split: prod.split)
qed simp_all

lemma attach_now_ok:
  assumes "sys_wf (fs st)"
  shows "length (attached (attach_now cfg now st)) = length (attached st)" and "sys_wf (fs (attach_now cfg now st))"
  using attach_pending_length [of "wc_inotify cfg" "wc_specs cfg" "attached st" "(fs st, watcher st)"]
    attach_pending_wf [of "(fs st, watcher st)" "wc_inotify cfg" "wc_specs cfg" "attached st"] assms
  by (auto simp: attach_now_def split: prod.split)

lemma watch_start_ok: "sys_wf s \<Longrightarrow> watch_ok cfg (watch_start cfg s w n)"
  using attach_pending_length [of "wc_inotify cfg" "wc_specs cfg" "replicate (length (wc_specs cfg)) False" "(s, w)"]
    attach_pending_wf [of "(s, w)" "wc_inotify cfg" "wc_specs cfg" "replicate (length (wc_specs cfg)) False"]
    clock_ok_start [of cfg s w n]
  by (auto simp: watch_ok_def watch_start_def split: prod.splits)

lemma watch_branch_fs: "sys_wf (fs st) \<Longrightarrow> sys_wf (fs (watch_branch cfg now res st)) \<and>
    length (attached (watch_branch cfg now res st)) = length (attached st)"
  by (cases res) (simp_all add: watch_branch_def Let_def attach_now_ok)

definition keeps_files :: "turn \<Rightarrow> bool" where
  "keeps_files a = (case a of Turn _ _ _ others \<Rightarrow> \<forall>s. sys_wf s \<longrightarrow> sys_wf (others s) | _ \<Rightarrow> True)"

lemma watch_ok_step:
  assumes "watch_step cfg st a st'" and "keeps_files a" and "watch_ok cfg st"
  shows "watch_ok cfg st'"
  using assms(1)
proof (cases rule: watch_step_kinds)
  case (flags b c)
  with assms(3) show ?thesis by (simp add: watch_ok_def clock_ok_def)
next
  case Turn: (turn start now res others)
  have ok: "clock_ok st" "sys_wf (others (fs st))"
    using assms(2,3) Turn by (simp_all add: watch_ok_def keeps_files_def)
  let ?st = "st\<lparr>fs := others (fs st), clock := now\<rparr>"
  have st': "st' = watch_branch cfg now res ?st"
    using assms(1) Turn by (auto elim: watch_turnE)
  have "sys_wf (fs st') \<and> length (attached st') = length (attached st)"
    using watch_branch_fs [of ?st cfg now res] ok(2) by (simp add: st')
  moreover have "set (sent st') \<subseteq> set (fire_reload (wc_reload_tx cfg) (wc_on_reload cfg))"
    using watch_turn(1) [OF assms(1) [unfolded Turn] ok(1)] assms(3) by (auto simp: watch_ok_def)
  ultimately show ?thesis
    using clock_ok_step [OF assms(1) ok(1)] assms(3) by (simp add: watch_ok_def)
qed

lemma hub_sys_wf: "sys_wf hub_sys"
  by (auto simp: sys_wf_def hub_sys_def lookup_def placed_def parent_error_def socket_ok_def sockets_fresh_def)

section \<open>Properties\<close>

text \<open>
  C29: The data of a running watcher stays well-formed. If the others that change files keep every inode
  inside a directory, then in every state of every run there is one flag for each spec, so that
  \<open>attached[i]\<close> is never out of range and no spec is left out; the recorded activity is never later than
  the clock, so that no elapsed time is negative; only notifications of the kinds the thread was
  started with have been sent; and the file system is still a tree, whatever directories the watcher
  has made in it.
\<close>

theorem watcher_state_well_typed:
  assumes "sys_wf s" and "watch_runs cfg (watch_start cfg s w n) turns st" and "\<forall>a \<in> set turns. keeps_files a"
  shows "watch_ok cfg st"
  using assms(2) watch_start_ok [OF assms(1)]
  by (rule runs_invariant) (blast intro: watch_ok_step assms(3) [rule_format])

lemma net_sys_wf: "sys_wf net_sys"
  by (auto simp: sys_wf_def net_sys_def lookup_def placed_def parent_error_def socket_ok_def sockets_fresh_def)

theorem watcher_state_well_typed_witness:
  "watch_runs net_cfg net0 [Turn 0 2 (Message net_event) (\<lambda>s. s), Turn 2 7 Timeout (\<lambda>s. s)] net2 \<and>
   watch_ok net_cfg net2"
proof
  show run: "watch_runs net_cfg net0 [Turn 0 2 (Message net_event) (\<lambda>s. s), Turn 2 7 Timeout (\<lambda>s. s)] net2"
    by (rule runs.more, rule net_run1, rule runs.more, rule net_run2, rule runs.halt)
  show "watch_ok net_cfg net2"
    by (rule watcher_state_well_typed [OF net_sys_wf run]) (simp add: keeps_files_def)
qed

text \<open>
  What the crate does to the file system and the sockets keeps the tree: claiming and binding a socket,
  loading a configuration with or without seeding it, and making the directories to watch.
\<close>

theorem files_stay_well_formed:
  assumes "chown_changes_owner_only nix" and "sys_wf s"
  shows "sys_wf (snd (bind nix pid opts s)) \<and> sys_wf (snd (claim nix p name s)) \<and>
    sys_wf (snd (load codec self s)) \<and> sys_wf (fst (snd (snd (attach_pending inotify specs flags (s, w)))))"
  using bind_wf [OF assms] claim_wf load_wf attach_pending_wf [of "(s, w)"] assms(2) by simp

end
