(* ===== verification/Bind_Contest.thy ===== *)
theory Bind_Contest
  imports Bind_Race Well_Formed
begin

text \<open>
  What is left of the singleton when starts overlap. Processes that run \<open>bind\<close> on one path at the same time,
  interleaved at their system calls, may unlink each other's sockets, and more than one may report success
  (\<open>Bind_Race\<close>); but when all of them are done there is one that clients reach.
\<close>

section \<open>The place they contend for\<close>

definition spot :: "path \<Rightarrow> sys \<Rightarrow> content option" where
  "spot p s = map_option content (lookup s (key p))"

definition open_place :: "path \<Rightarrow> sys \<Rightarrow> bool" where
  "open_place p s \<longleftrightarrow>
     faults s = (\<lambda>_ _. None) \<and> sockets_fresh s \<and> dir_at (butlast (key p)) s \<and> \<not> dir_at (key p) s \<and>
     (\<forall>l. spot p s = Some (Socket l) \<longrightarrow> l < next_socket s)"

lemma open_place_key: "open_place p s \<Longrightarrow> key p \<noteq> [] \<and> key p \<noteq> [RootDir]"
  by (auto simp: open_place_def dir_at_def lookup_def)

lemma serving_spot: "serving s p = Some l \<longleftrightarrow> spot p s = Some (Socket l) \<and> listening s l \<noteq> None"
  by (auto simp: serving_lookup spot_def)

lemma spot_None: "spot p s = None \<longleftrightarrow> lookup s (key p) = None"
  by (simp add: spot_def)

lemma spot_not_dir: "open_place p s \<Longrightarrow> spot p s \<noteq> Some Dir"
  by (auto simp: open_place_def dir_at_def spot_def)

text \<open>The system calls at that place.\<close>

lemma open_parent: "open_place p s \<Longrightarrow> create_parent p s = (Inr (), s)"
  using create_parent_existing [of s p] by (auto simp: open_place_def dir_at_def)

lemma connect_open:
  assumes "open_place p s"
  shows "connect p s =
    (case serving s p of
       Some l \<Rightarrow> (Inr \<lparr>stream_id = l, incoming = [], outgoing = [], out_room = None\<rparr>, s)
     | None \<Rightarrow> (Inl (err (if spot p s = None then NotFound else ConnectionRefused)), s))"
  using assms
  by (auto simp: connect_def serving_def spot_def open_place_def split: option.split content.split)

lemma remove_open:
  assumes "open_place p s"
  shows "remove_file p s =
    (if spot p s = None then (Inl (err NotFound), s) else (Inr (), set_node (key p) None s))"
  using assms spot_not_dir [OF assms]
  by (auto simp: remove_file_def spot_def open_place_def split: option.split)

lemma socket_bind_open:
  assumes "open_place p s"
  shows "socket_bind p s =
    (if spot p s = None
     then (Inr (next_socket s), set_node (key p) (Some \<lparr>content = Socket (next_socket s), mode = umask_socket s\<rparr>)
             (s\<lparr>next_socket := Suc (next_socket s)\<rparr>))
     else (Inl (err AddrInUse), s))"
  using assms by (auto simp: socket_bind_def spot_def open_place_def parent_error_def dir_at_def Let_def)

lemma metadata_open:
  assumes "open_place p s"
  shows "metadata p s = (case lookup s (key p) of None \<Rightarrow> (Inl (err NotFound), s) | Some n \<Rightarrow> (Inr n, s))"
  using assms by (simp add: metadata_def open_place_def)

lemma set_permissions_open:
  assumes "open_place p s"
  shows "fst (set_permissions p m s) = (if spot p s = None then Inl (err NotFound) else Inr ())"
  using assms by (auto simp: set_permissions_def spot_def open_place_def split: option.split)

text \<open>The place stays what it is.\<close>

lemma butlast_neq: "k \<noteq> [] \<Longrightarrow> butlast k \<noteq> k"
  by (metis append_butlast_last_id append_self_conv not_Cons_self2)

lemma spot_set_node:
  assumes "open_place p s"
  shows "spot p (set_node (key p) n s) = map_option content n"
    "dir_at (butlast (key p)) (set_node (key p) n s) = dir_at (butlast (key p)) s"
    "dir_at (key p) (set_node (key p) n s) = (\<exists>d. n = Some d \<and> content d = Dir)"
  using open_place_key [OF assms] butlast_neq [of "key p"]
  by (auto simp: spot_def dir_at_def lookup_set_node_other)

lemma open_place_removed:
  assumes "open_place p s"
  shows "open_place p (set_node (key p) None s)"
  using assms spot_set_node [OF assms, of None] by (simp add: open_place_def sockets_fresh_def)

lemma spot_next: "spot p (s\<lparr>next_socket := i\<rparr>) = spot p s" "dir_at k (s\<lparr>next_socket := i\<rparr>) = dir_at k s"
  by (simp_all add: spot_def dir_at_def lookup_def)

lemma open_place_bound:
  assumes "open_place p s"
  shows "open_place p (set_node (key p) (Some \<lparr>content = Socket (next_socket s), mode = m\<rparr>)
    (s\<lparr>next_socket := Suc (next_socket s)\<rparr>))"
proof -
  have "open_place p (s\<lparr>next_socket := Suc (next_socket s)\<rparr>)"
    using assms by (auto simp: open_place_def spot_next sockets_fresh_def)
  from spot_set_node [OF this] this show ?thesis by (simp add: open_place_def sockets_fresh_def)
qed

lemma listen_simps [simp]:
  "spot p (listen pid l s) = spot p s" "next_socket (listen pid l s) = next_socket s"
  "listening (listen pid l s) = (listening s)(l \<mapsto> pid)" "faults (listen pid l s) = faults s"
  "dir_at k (listen pid l s) = dir_at k s"
  by (simp_all add: listen_def spot_def lookup_def dir_at_def)

lemma open_place_listen: "open_place p s \<Longrightarrow> l < next_socket s \<Longrightarrow> open_place p (listen pid l s)"
  by (auto simp: open_place_def sockets_fresh_def)

lemma close_simps [simp]:
  "spot p (close_listener l s) = spot p s" "next_socket (close_listener l s) = next_socket s"
  "listening (close_listener l s) = (listening s)(l := None)"
  by (simp_all add: close_listener_def spot_def lookup_def)

lemma open_place_close: "open_place p s \<Longrightarrow> open_place p (close_listener l s)"
  by (auto simp: open_place_def sockets_fresh_def) (simp_all add: close_listener_def)

lemma spot_permissions [simp]: "spot p (snd (set_permissions q m s)) = spot p s"
  by (simp add: spot_def set_permissions_content)

lemma open_place_permissions: "open_place p s \<Longrightarrow> open_place p (snd (set_permissions q m s))"
  by (simp add: open_place_def sockets_fresh_def set_permissions_fields set_permissions_dir_at)

section \<open>The contest\<close>

text \<open>
  Who still may take the place: a process before its \<open>bind(2)\<close>. Who holds a socket holds one of its own,
  and listens on it from \<open>listen(2)\<close> on. Either some process holds the socket at the place, or the place is
  undecided: a contender is left, and the place is free or still as all of them have found it.
\<close>

definition contends :: "bind_pc \<Rightarrow> bool" where
  "contends pc \<longleftrightarrow> pc \<in> {AtParent, AtProbe, AtUnlink, AtBind}"

definition owns_sockets :: "race \<Rightarrow> bool" where
  "owns_sockets r \<longleftrightarrow>
     (\<forall>i l. holds (pcs r i) l \<longrightarrow>
        l < next_socket (os r) \<and> (\<forall>j. holds (pcs r j) l \<longrightarrow> j = i) \<and>
        (pcs r i \<noteq> AtListen l \<longrightarrow> listening (os r) l = Some i))"

definition has_winner :: "path \<Rightarrow> race \<Rightarrow> bool" where
  "has_winner p r \<longleftrightarrow> (\<exists>i l. holds (pcs r i) l \<and> spot p (os r) = Some (Socket l))"

definition undecided :: "path \<Rightarrow> race \<Rightarrow> bool" where
  "undecided p r \<longleftrightarrow> (\<exists>i. contends (pcs r i)) \<and>
     (spot p (os r) = None \<or>
      serving (os r) p = None \<and> (\<forall>i. pcs r i \<noteq> AtBind \<and> (\<forall>l. \<not> holds (pcs r i) l)))"

definition contest :: "path \<Rightarrow> race \<Rightarrow> bool" where
  "contest p r \<longleftrightarrow> open_place p (os r) \<and> owns_sockets r \<and> (has_winner p r \<or> undecided p r)"

lemma holds_simps [simp]:
  "holds (AtListen l) m \<longleftrightarrow> m = l" "holds (AtStat l) m \<longleftrightarrow> m = l" "holds (AtChmod l) m \<longleftrightarrow> m = l"
  "holds (AtChown l) m \<longleftrightarrow> m = l" "holds (Serving l) m \<longleftrightarrow> m = l" "\<not> holds AtParent m" "\<not> holds AtProbe m"
  "\<not> holds AtUnlink m" "\<not> holds AtBind m" "\<not> holds (Failed e) m" "\<not> holds Exited m"
  by (auto simp: holds_def)

lemma contends_simps [simp]:
  "contends AtParent" "contends AtProbe" "contends AtUnlink" "contends AtBind" "\<not> contends (AtListen l)"
  "\<not> contends (AtStat l)" "\<not> contends (AtChmod l)" "\<not> contends (AtChown l)" "\<not> contends (Serving l)"
  "\<not> contends (Failed e)" "\<not> contends Exited"
  by (simp_all add: contends_def)

lemma holds_contends: "holds pc l \<Longrightarrow> \<not> contends pc"
  by (auto simp: holds_def)

abbreviation moves :: "race \<Rightarrow> nat \<Rightarrow> bind_pc \<Rightarrow> sys \<Rightarrow> race" where
  "moves r j pc s \<equiv> r\<lparr>pcs := (pcs r)(j := pc), os := s\<rparr>"

text \<open>A step by which no process gets a socket, and the sockets of the others stay.\<close>

lemma owns_sockets_keep:
  assumes "owns_sockets r" and "\<And>l. holds pc l \<Longrightarrow> holds (pcs r j) l" and "next_socket s = next_socket (os r)"
    and "\<And>i l. i \<noteq> j \<Longrightarrow> holds (pcs r i) l \<Longrightarrow> listening s l = listening (os r) l"
    and "\<And>l. holds pc l \<Longrightarrow> pc \<noteq> AtListen l \<Longrightarrow> listening s l = Some j"
  shows "owns_sockets (moves r j pc s)"
  using assms unfolding owns_sockets_def by auto

lemma winner_keeps:
  assumes "has_winner p r" and "spot p s = spot p (os r)" and "\<And>l. holds (pcs r j) l \<Longrightarrow> spot p s = Some (Socket l) \<Longrightarrow> holds pc l"
  shows "has_winner p (moves r j pc s)"
proof -
  from assms(1) obtain i l where il: "holds (pcs r i) l" "spot p (os r) = Some (Socket l)" by (auto simp: has_winner_def)
  then have "holds ((pcs (moves r j pc s)) i) l" using assms(2,3) by (cases "i = j") auto
  with il assms(2) show ?thesis unfolding has_winner_def by (intro exI [of _ i] exI [of _ l]) simp_all
qed

text \<open>A contender that goes on without touching the place.\<close>

lemma undecided_keeps:
  assumes "undecided p r" and "contends pc" and "\<not> holds (pcs r j) l" and "pc \<noteq> AtBind"
  shows "undecided p (moves r j pc (os r))"
proof -
  have "\<not> holds pc m" for m using assms(2) holds_contends by blast
  with assms show ?thesis unfolding undecided_def by (auto intro: exI [of _ j])
qed

text \<open>One that holds a socket, while the place is free.\<close>

lemma undecided_holder:
  assumes "undecided p r" and "holds (pcs r j) l" and "spot p s = spot p (os r)"
  shows "undecided p (moves r j pc s)"
proof -
  from assms(1,2) obtain i where i: "contends (pcs r i)" "spot p (os r) = None" by (auto simp: undecided_def)
  with assms(2) holds_contends have "i \<noteq> j" by auto
  with i assms(3) show ?thesis unfolding undecided_def by (intro conjI exI [of _ i]) simp_all
qed

definition chown_works :: "nix_lib \<Rightarrow> bind_options \<Rightarrow> bool" where
  "chown_works nix opts \<longleftrightarrow> (\<forall>u g s. bo_chown opts = Some (u, g) \<longrightarrow> fst (nix_chown nix (bo_path opts) u g s) = Inr ())"

lemma contest_before_bind:
  assumes "bo_path opts = p" and "contest p r" and "bind_micro nix j opts (pcs r j, os r) = (pc, s)"
    and "contends (pcs r j)"
  shows "contest p (moves r j pc s)"
proof -
  from assms(2) have place: "open_place p (os r)" and owns: "owns_sockets r" and inv: "has_winner p r \<or> undecided p r"
    by (simp_all add: contest_def)
  have none: "\<not> holds (pcs r j) l" for l using assms(4) holds_contends by blast
  have same: "owns_sockets (moves r j pc s)" if "\<And>l. \<not> holds pc l" "next_socket s = next_socket (os r)" "listening s = listening (os r)"
    using owns that by (intro owns_sockets_keep) simp_all
  have stays: "contest p (moves r j pc s)" if "s = os r" and "contends pc" and "pc \<noteq> AtBind"
  proof -
    have "\<not> holds pc l" for l using that(2) holds_contends by blast
    with same that(1) have "owns_sockets (moves r j pc s)" by simp
    with place inv that none winner_keeps [of p r s j pc] undecided_keeps [of p r pc j] show ?thesis
      by (auto simp: contest_def)
  qed
  have loses: "contest p (moves r j pc s)" if "s = os r" and "pc = Failed e" and "has_winner p r" for e
    using same place that none winner_keeps [of p r s j pc] by (simp add: contest_def)
  consider "pcs r j = AtParent" | "pcs r j = AtProbe" | "pcs r j = AtUnlink" | "pcs r j = AtBind"
    using assms(4) by (auto simp: contends_def)
  then show ?thesis
  proof cases
    case 1
    with assms(1,3) open_parent [OF place] stays show ?thesis by simp
  next
    case 2
    show ?thesis
    proof (cases "serving (os r) p")
      case None
      with 2 assms(1,3) connect_open [OF place] have "pc = AtUnlink" "s = os r"
        by (simp_all add: is_stale_socket_connect_error_def split: if_splits)
      then show ?thesis by (intro stays) simp_all
    next
      case (Some l)
      then have "\<not> undecided p r" by (auto simp: undecided_def serving_spot)
      from Some 2 assms(1,3) connect_open [OF place] obtain e where "pc = Failed e" "s = os r" by auto
      with inv \<open>\<not> undecided p r\<close> show ?thesis by (intro loses) simp_all
    qed
  next
    case 3
    have gone: "pc = AtBind \<and> spot p s = None \<and> open_place p s \<and> next_socket s = next_socket (os r) \<and> listening s = listening (os r)"
      using 3 assms(1,3) remove_open [OF place] open_place_removed [OF place] spot_set_node(1) [OF place, of None] place
      by (cases "spot p (os r) = None") auto
    then have "undecided p (moves r j pc s)" unfolding undecided_def by (intro conjI exI [of _ j]) simp_all
    with gone same show ?thesis by (simp add: contest_def)
  next
    case 4
    show ?thesis
    proof (cases "spot p (os r) = None")
      case True
      let ?l = "next_socket (os r)"
      from 4 True assms(1,3) socket_bind_open [OF place] have pc: "pc = AtListen ?l"
        and s: "s = set_node (key p) (Some \<lparr>content = Socket ?l, mode = umask_socket (os r)\<rparr>) ((os r)\<lparr>next_socket := Suc ?l\<rparr>)"
        by auto
      have "spot p s = Some (Socket ?l)" unfolding s using open_place_key [OF place] by (simp add: spot_def)
      then have "has_winner p (moves r j pc s)"
        unfolding has_winner_def by (intro exI [of _ j] exI [of _ ?l]) (simp add: pc)
      moreover have "owns_sockets (moves r j pc s)"
        using owns none unfolding owns_sockets_def pc s by (auto simp: less_Suc_eq)
      ultimately show ?thesis using open_place_bound [OF place] by (simp add: contest_def s)
    next
      case False
      with 4 have "\<not> undecided p r" unfolding undecided_def by blast
      from False 4 assms(1,3) socket_bind_open [OF place] obtain e where "pc = Failed e" "s = os r" by auto
      with inv \<open>\<not> undecided p r\<close> show ?thesis by (intro loses) simp_all
    qed
  qed
qed

lemma contest_after_bind:
  assumes "chown_changes_owner_only nix" and "chown_works nix opts" and "bo_path opts = p" and "contest p r"
    and "bind_micro nix j opts (pcs r j, os r) = (pc, s)" and "holds (pcs r j) l"
  shows "contest p (moves r j pc s)"
proof -
  from assms(4) have place: "open_place p (os r)" and owns: "owns_sockets r" and inv: "has_winner p r \<or> undecided p r"
    by (simp_all add: contest_def)
  have mine: "l < next_socket (os r)" "\<And>i m. holds (pcs r i) m \<Longrightarrow> i \<noteq> j \<Longrightarrow> m \<noteq> l"
    using owns assms(6) unfolding owns_sockets_def by blast+
  have goes: "contest p (moves r j pc s)"
    if "holds pc l" "\<And>m. holds pc m \<Longrightarrow> m = l" "open_place p s" "spot p s = spot p (os r)" "next_socket s = next_socket (os r)"
      "\<And>m. m \<noteq> l \<Longrightarrow> listening s m = listening (os r) m" "listening s l = Some j"
  proof -
    have "owns_sockets (moves r j pc s)"
      by (rule owns_sockets_keep [OF owns]) (use that assms(6) mine(2) in blast)+
    moreover have "has_winner p (moves r j pc s)" if "has_winner p r"
      by (rule winner_keeps [OF that]) (use \<open>holds pc l\<close> assms(6) \<open>spot p s = spot p (os r)\<close> in \<open>auto simp: holds_def\<close>)
    moreover have "undecided p (moves r j pc s)" if "undecided p r"
      by (rule undecided_holder [OF that assms(6) \<open>spot p s = spot p (os r)\<close>])
    ultimately show ?thesis using inv that(3) by (auto simp: contest_def)
  qed
  have drops: "contest p (moves r j pc s)" if "pc = Failed e" "s = close_listener l (os r)" "spot p (os r) = None" for e
  proof -
    have "owns_sockets (moves r j pc s)"
      by (rule owns_sockets_keep [OF owns]) (use that mine(2) in auto)
    moreover have "undecided p r" using inv that(3) by (auto simp: has_winner_def)
    then have "undecided p (moves r j pc s)" by (rule undecided_holder [OF _ assms(6)]) (simp add: that(2))
    ultimately show ?thesis using open_place_close [OF place] that(2) by (simp add: contest_def)
  qed
  have on: "listening (os r) l = Some j" if "pcs r j \<noteq> AtListen l"
    using owns assms(6) that unfolding owns_sockets_def by blast
  consider "pcs r j = AtListen l" | "pcs r j = AtStat l" | "pcs r j = AtChmod l" | "pcs r j = AtChown l" | "pcs r j = Serving l"
    using assms(6) by (auto simp: holds_def)
  then show ?thesis
  proof cases
    case 1
    with assms(5) have "pc = AtStat l" "s = listen j l (os r)" by simp_all
    with open_place_listen [OF place mine(1)] show ?thesis by (intro goes) simp_all
  next
    case 2
    show ?thesis
    proof (cases "lookup (os r) (key p)")
      case None
      with 2 assms(3,5) metadata_open [OF place] have "pc = Failed (io_at p (err NotFound))" "s = close_listener l (os r)"
        by auto
      with None show ?thesis by (intro drops) (simp_all add: spot_None)
    next
      case (Some n)
      with 2 assms(3,5) metadata_open [OF place] have "pc = AtChmod l" "s = os r" by simp_all
      with 2 on place show ?thesis by (intro goes) simp_all
    qed
  next
    case 3
    obtain x t where x: "set_permissions p (bo_mode opts) (os r) = (x, t)" by fastforce
    show ?thesis
    proof (cases x)
      case (Inl e)
      with x set_permissions_failed [of p "bo_mode opts" "os r" e t] have "t = os r" by simp
      moreover have "spot p (os r) = None" using set_permissions_open [OF place, of "bo_mode opts"] x Inl by (auto split: if_splits)
      moreover obtain e' where "pc = Failed e'" "s = close_listener l t" using 3 assms(3,5) x Inl by auto
      ultimately show ?thesis by (intro drops) simp_all
    next
      case (Inr u)
      with 3 assms(3,5) x have pc: "pc = AtChown l" "s = snd (set_permissions p (bo_mode opts) (os r))" by auto
      with 3 on open_place_permissions [OF place] show ?thesis
        by (intro goes) (simp_all add: set_permissions_fields)
    qed
  next
    case 4
    have "pc = Serving l \<and> s = os r"
    proof (cases "bo_chown opts")
      case None
      with 4 assms(5) show ?thesis by simp
    next
      case (Some ug)
      obtain u g where ug: "ug = (u, g)" by fastforce
      have "chown_socket nix (bo_path opts) u g (os r) = (Inr (), os r)"
        using assms(1,2) Some ug unfolding chown_changes_owner_only_def chown_works_def chown_socket_def by (metis prod.collapse)
      with 4 assms(5) Some ug show ?thesis by simp
    qed
    with 4 on place show ?thesis by (intro goes) simp_all
  next
    case 5
    with assms(5) have "pc = pcs r j" "s = os r" by simp_all
    with assms(4) show ?thesis by simp
  qed
qed

lemma contest_step:
  assumes "chown_changes_owner_only nix" and "\<And>j. bo_path (opts j) = p" and "\<And>j. chown_works nix (opts j)"
    and "race_step nix opts r a r'" and "\<forall>i. a \<noteq> Exit i" and "contest p r"
  shows "contest p r'"
  using assms(4)
proof cases
  case (run j pc s)
  consider "contends (pcs r j)" | l where "holds (pcs r j) l" | "pc = pcs r j \<and> s = os r"
    using run(3) by (cases "pcs r j") auto
  then show ?thesis
  proof cases
    case 1
    with contest_before_bind [OF assms(2,6) run(3)] run(2) show ?thesis by simp
  next
    case 2
    with contest_after_bind [OF assms(1,3,2,6) run(3)] run(2) show ?thesis by simp
  next
    case 3
    with run(2) assms(6) show ?thesis by simp
  qed
next
  case exit
  with assms(5) show ?thesis by simp
qed

lemma contest_runs:
  assumes "chown_changes_owner_only nix" and "\<And>j. bo_path (opts j) = p" and "\<And>j. chown_works nix (opts j)"
    and "race_runs nix opts r acts r'" and "\<forall>i. Exit i \<notin> set acts" and "contest p r"
  shows "contest p r'"
  using assms(4,6)
proof (rule runs_invariant)
  fix r a r'
  assume a: "a \<in> set acts" and step: "race_step nix opts r a r'" and inv: "contest p r"
  from a assms(5) have "\<forall>i. a \<noteq> Exit i" by blast
  from contest_step [OF assms(1-3) step this inv] show "contest p r'" .
qed

section \<open>Every start comes to its end\<close>

fun calls_left :: "bind_pc \<Rightarrow> nat" where
  "calls_left AtParent = 8" | "calls_left AtProbe = 7" | "calls_left AtUnlink = 6" | "calls_left AtBind = 5"
| "calls_left (AtListen l) = 4" | "calls_left (AtStat l) = 3" | "calls_left (AtChmod l) = 2" | "calls_left (AtChown l) = 1"
| "calls_left (Serving l) = 0" | "calls_left (Failed e) = 0" | "calls_left Exited = 0"

lemma bind_micro_calls: "bind_micro nix j opts (pc, s) = (pc', s') \<Longrightarrow> calls_left pc' \<le> calls_left pc - 1"
  by (cases pc) (auto split: prod.splits sum.splits if_splits option.splits)

lemma race_calls:
  assumes "race_runs nix opts r acts r'" and "\<forall>i. Exit i \<notin> set acts"
  shows "calls_left (pcs r' i) \<le> calls_left (pcs r i) - count_list acts (Run i)"
  using assms
proof (induction rule: runs.induct)
  case (more r a r1 acts r2)
  then obtain j pc s where a: "a = Run j" "bind_micro nix j (opts j) (pcs r j, os r) = (pc, s)"
    "r1 = r\<lparr>pcs := (pcs r)(j := pc), os := s\<rparr>" by (auto elim: race_step.cases)
  have "calls_left (pcs r1 i) \<le> calls_left (pcs r i) - (if i = j then 1 else 0)"
    using bind_micro_calls [OF a(2)] a(3) by simp
  moreover have "calls_left (pcs r2 i) \<le> calls_left (pcs r1 i) - count_list acts (Run i)"
    using more.IH more.prems by simp
  ultimately show ?case using a(1) by (auto split: if_splits)
qed simp

lemma bind_micro_alive: "bind_micro nix j opts (pc, s) = (pc', s') \<Longrightarrow> pc \<noteq> Exited \<Longrightarrow> pc' \<noteq> Exited"
  by (cases pc) (auto split: prod.splits sum.splits if_splits option.splits)

lemma race_alive:
  assumes "race_runs nix opts r acts r'" and "\<forall>i. Exit i \<notin> set acts"
  shows "pcs r' i = Exited \<longleftrightarrow> pcs r i = Exited"
  using assms
proof (induction rule: runs.induct)
  case (more r a r1 acts r2)
  then obtain j pc s where a: "a = Run j" "bind_micro nix j (opts j) (pcs r j, os r) = (pc, s)"
    "r1 = r\<lparr>pcs := (pcs r)(j := pc), os := s\<rparr>" by (auto elim: race_step.cases)
  have "pcs r1 i = Exited \<longleftrightarrow> pcs r i = Exited"
    using bind_micro_alive [OF a(2)] a(2,3) by (cases "pcs r j = Exited") auto
  with more.IH more.prems show ?case by simp
qed simp

lemma calls_left_0: "calls_left pc = 0 \<longleftrightarrow> (\<exists>l. pc = Serving l) \<or> (\<exists>e. pc = Failed e) \<or> pc = Exited"
  by (cases pc) auto

section \<open>Property\<close>

definition starting :: "nat set \<Rightarrow> sys \<Rightarrow> race" where
  "starting A s = \<lparr>pcs = (\<lambda>i. if i \<in> A then AtParent else Exited), os = s\<rparr>"

lemma starting_contest:
  assumes "faults s = (\<lambda>_ _. None)" and "sys_wf s" and "dir_at (butlast (key p)) s" and "\<not> dir_at (key p) s"
    and "serving s p = None" and "i \<in> A"
  shows "contest p (starting A s)"
proof -
  have "l < next_socket s" if "spot p s = Some (Socket l)" for l
    using assms(2) that unfolding sys_wf_def socket_ok_def spot_def by fastforce
  then have "open_place p s" using assms sys_wf_def by (simp add: open_place_def)
  moreover have "undecided p (starting A s)"
    using assms(5,6) by (auto simp: undecided_def starting_def intro: exI [of _ i])
  moreover have "owns_sockets (starting A s)" by (simp add: owns_sockets_def starting_def)
  ultimately show ?thesis by (simp add: contest_def starting_def)
qed

text \<open>
  C3: Starts that overlap leave a daemon that clients reach. Any number of processes start on a path that
  nobody serves, in a directory that is there, and run through \<open>bind\<close> interleaved at their system calls in
  any way, unlinking each other's sockets as it happens. Eight calls each bring every one to success or
  failure; and then one that reports success is the one the path leads to. No schedule ends with the path
  dead or left to a process that has given up. (The machine has no faults, and \<open>chown\<close>, where asked for, works.)
\<close>

theorem overlapping_starts_leave_a_server:
  assumes "chown_changes_owner_only nix" and "\<And>j. bo_path (opts j) = p" and "\<And>j. chown_works nix (opts j)"
    and "faults s = (\<lambda>_ _. None)" and "sys_wf s" and "dir_at (butlast (key p)) s" and "\<not> dir_at (key p) s"
    and "serving s p = None" and "A \<noteq> {}" and "race_runs nix opts (starting A s) acts r"
    and "\<forall>i. Exit i \<notin> set acts" and "\<forall>i \<in> A. 8 \<le> count_list acts (Run i)"
  shows "(\<forall>i \<in> A. (\<exists>l. pcs r i = Serving l) \<or> (\<exists>e. pcs r i = Failed e)) \<and>
    (\<exists>i \<in> A. \<exists>l. pcs r i = Serving l \<and> serving (os r) p = Some l \<and> listening (os r) l = Some i)"
proof -
  from assms(9) obtain i0 where "i0 \<in> A" by blast
  then have contest: "contest p r"
    using contest_runs [OF assms(1-3,10,11)] starting_contest [OF assms(4-8)] by blast
  have alive: "pcs r i = Exited \<longleftrightarrow> i \<notin> A" for i
    using race_alive [OF assms(10,11)] by (simp add: starting_def)
  have "calls_left (pcs r i) = 0" for i
    using race_calls [OF assms(10,11), of i] assms(12) by (cases "i \<in> A") (auto simp: starting_def)
  then have ended: "(\<exists>l. pcs r i = Serving l) \<or> (\<exists>e. pcs r i = Failed e) \<or> pcs r i = Exited" for i
    by (simp add: calls_left_0)
  have "\<not> contends (pcs r i)" for i using ended [of i] by auto
  then have "has_winner p r" using contest by (auto simp: contest_def undecided_def)
  then obtain i l where il: "holds (pcs r i) l" "spot p (os r) = Some (Socket l)" by (auto simp: has_winner_def)
  with ended [of i] have i: "pcs r i = Serving l" by auto
  with contest il(1) have "listening (os r) l = Some i"
    unfolding contest_def owns_sockets_def by (metis bind_pc.distinct holds_simps(1,5))
  then have "serving (os r) p = Some l \<and> listening (os r) l = Some i" using il(2) by (simp add: serving_spot)
  moreover have "i \<in> A" using alive [of i] i by simp
  ultimately show ?thesis using ended alive i by blast
qed

text \<open>The witness is the schedule of \<open>Bind_Race\<close> in which the second process unlinks the first one's socket.\<close>

theorem overlapping_starts_leave_a_server_witness:
  "\<exists>i \<in> {1, 2}. \<exists>l. pcs (race_exec no_nix (\<lambda>_. hub_opts) [1, 2, 1, 2, 1, 1, 1, 1, 1, 1, 2, 2, 2, 2, 2, 2] (starting {1, 2} hub_sys)) i = Serving l \<and>
     serving (os (race_exec no_nix (\<lambda>_. hub_opts) [1, 2, 1, 2, 1, 1, 1, 1, 1, 1, 2, 2, 2, 2, 2, 2] (starting {1, 2} hub_sys)))
       ''/run/d.sock'' = Some l"
proof -
  let ?is = "[1, 2, 1, 2, 1, 1, 1, 1, 1, 1, 2, 2, 2, 2, 2, 2] :: nat list"
  have chown: "chown_works no_nix hub_opts" by (simp add: chown_works_def hub_facts(4))
  have place: "dir_at (butlast (key (bo_path hub_opts))) hub_sys" "\<not> dir_at (key (bo_path hub_opts)) hub_sys"
    using hub_facts(7,9) by (auto simp: dir_at_def)
  have enough: "\<forall>i. Exit i \<notin> set (map Run ?is)" "\<forall>i \<in> {1, 2}. 8 \<le> count_list (map Run ?is) (Run i)"
    by auto
  have two: "{1, 2} \<noteq> ({} :: nat set)" by simp
  have path: "bo_path hub_opts = ''/run/d.sock''" by (simp add: hub_opts_def)
  from overlapping_starts_leave_a_server [OF hub_facts(1) refl chown hub_facts(3) hub_sys_wf place hub_facts(8) two
      race_exec_runs enough, unfolded path]
  show ?thesis by blast
qed

end
