(* ===== verification/Command.thy ===== *)
theory Command
  imports Frame Unix_Env
begin

text \<open>
  \<open>ipc/command.rs\<close>, with the error and session types of \<open>ipc/server.rs\<close> it refers to: one
  framed connection, the command trait as a record of its two methods, and the router. Commands
  and error hooks are the daemons' code, so they are parameters: any functions of the shared state,
  the request body and the connection. \<open>serde_json\<close> is the parameter \<open>json_lib\<close>.
\<close>

section \<open>JSON values\<close>

text \<open>The three functions of \<open>serde_json\<close> the server calls on a request.\<close>

record 'v json_lib =
  json_from_slice :: "byte list \<Rightarrow> json_error + 'v"
  json_get :: "'v \<Rightarrow> string \<Rightarrow> 'v option"
  json_as_str :: "'v \<Rightarrow> string option"

definition json_type_field :: "'v json_lib \<Rightarrow> 'v \<Rightarrow> string option" where
  "json_type_field json body = Option.bind (json_get json body ''type'') (json_as_str json)"

section \<open>Connections\<close>

record connection =
  conn_stream :: unix_stream
  conn_max_frame :: usize

definition conn_new :: "unix_stream \<Rightarrow> usize \<Rightarrow> connection" where
  "conn_new stream max_frame = \<lparr>conn_stream = stream, conn_max_frame = max_frame\<rparr>"

text \<open>Run a call on the connection's stream.\<close>

definition on_stream :: "(unix_stream, 'e, 'a) fallible \<Rightarrow> (connection, 'e, 'a) fallible" where
  "on_stream m conn =
     (case m (conn_stream conn) of (r, stream) \<Rightarrow> (r, conn\<lparr>conn_stream := stream\<rparr>))"

definition reply :: "('m \<Rightarrow> json_error + byte list) \<Rightarrow> 'm \<Rightarrow> (connection, frame_error, unit) fallible" where
  "reply to_vec msg conn =
     on_stream (write_frame_with_limit stream_write_all stream_flush to_vec msg (conn_max_frame conn)) conn"

definition read_json :: "(byte list \<Rightarrow> json_error + 'm) \<Rightarrow> (connection, frame_error, 'm) fallible" where
  "read_json from_slice conn =
     on_stream (read_frame_with_limit stream_read from_slice (conn_max_frame conn)) conn"

definition conn_frame_cap :: "connection \<Rightarrow> usize" where
  "conn_frame_cap conn = conn_max_frame conn"

definition read_value :: "'v json_lib \<Rightarrow> (connection, frame_error, 'v) fallible" where
  "read_value json = read_json (json_from_slice json)"

section \<open>Errors, commands, hooks\<close>

datatype ipc_error = FrameErr frame_error | OtherErr string | Hangup

datatype reject_reason = RejectAuth | RejectBusy

record ('s, 'v) command =
  cmd_name :: string
  cmd_execute :: "'s \<Rightarrow> 'v \<Rightarrow> connection \<Rightarrow> (ipc_error + unit) \<times> 's \<times> connection"

record ('s, 'v) error_handler =
  hook_unknown :: "'s \<Rightarrow> string \<Rightarrow> 'v \<Rightarrow> connection \<Rightarrow> 's \<times> connection"
  hook_error :: "'s \<Rightarrow> ipc_error \<Rightarrow> connection \<Rightarrow> 's \<times> connection"
  hook_reject :: "'s \<Rightarrow> reject_reason \<Rightarrow> connection \<Rightarrow> 's \<times> connection"

section \<open>The router\<close>

datatype duplicate_command = DuplicateCommand string

fun duplicate_command_display :: "duplicate_command \<Rightarrow> string" where
  "duplicate_command_display (DuplicateCommand name) = ''duplicate IPC command '' @ name"

record ('s, 'v) router =
  commands :: "string \<rightharpoonup> ('s, 'v) command"

definition router_new :: "('s, 'v) router" where
  "router_new = \<lparr>commands = Map.empty\<rparr>"

text \<open>\<open>Router::default\<close>\<close>

definition router_default :: "('s, 'v) router" where
  "router_default = router_new"

definition router_add :: "('s, 'v) command \<Rightarrow> (('s, 'v) router, duplicate_command, unit) fallible" where
  "router_add cmd r =
     (let name = cmd_name cmd in
      if commands r name \<noteq> None then (Inl (DuplicateCommand name), r)
      else (Inr (), r\<lparr>commands := (commands r)(name \<mapsto> cmd)\<rparr>))"

definition router_get :: "('s, 'v) router \<Rightarrow> string \<Rightarrow> ('s, 'v) command option" where
  "router_get r name = commands r name"

text \<open>Every entry is filed under its own name.\<close>

definition router_wf :: "('s, 'v) router \<Rightarrow> bool" where
  "router_wf r \<longleftrightarrow> (\<forall>n c. commands r n = Some c \<longrightarrow> cmd_name c = n)"

section \<open>The interface of a dispatch table\<close>

text \<open>
  What the server needs of the table: a lookup after an insertion, and that an insertion under a
  taken name is refused and changes nothing. From this alone, a start-up that registers a list of
  commands ends with the first command of each name.
\<close>

locale dispatch_table =
  fixes empty :: 't
    and add :: "'c \<Rightarrow> ('t, 'e, unit) fallible"
    and get :: "'t \<Rightarrow> string \<Rightarrow> 'c option"
    and name_of :: "'c \<Rightarrow> string"
  assumes get_empty: "get empty n = None"
    and add_free: "get t (name_of c) = None \<Longrightarrow> fst (add c t) = Inr () \<and>
      get (snd (add c t)) = (get t)(name_of c \<mapsto> c)"
    and add_taken: "get t (name_of c) = Some d \<Longrightarrow> (\<exists>e. fst (add c t) = Inl e) \<and> snd (add c t) = t"
begin

lemma get_after_add:
  "get (snd (add c t)) n =
     (case get t n of Some d \<Rightarrow> Some d | None \<Rightarrow> if n = name_of c then Some c else None)"
proof (cases "get t (name_of c)")
  case None
  with add_free [OF None] show ?thesis by (auto split: option.split)
next
  case (Some d)
  with add_taken [OF Some] show ?thesis by (auto split: option.split)
qed

lemma get_after_adds:
  "get (fold (\<lambda>c t. snd (add c t)) cs t) n =
     (case get t n of Some d \<Rightarrow> Some d | None \<Rightarrow> find (\<lambda>c. name_of c = n) cs)"
proof (induction cs arbitrary: t)
  case Nil
  then show ?case by (simp split: option.split)
next
  case (Cons c cs)
  then show ?case by (auto simp: get_after_add split: option.splits)
qed

lemma get_registered:
  "get (fold (\<lambda>c t. snd (add c t)) cs empty) n = find (\<lambda>c. name_of c = n) cs"
  by (simp add: get_after_adds get_empty)

lemma add_ok_iff: "(\<exists>e. fst (add c t) = Inl e) \<longleftrightarrow> get t (name_of c) \<noteq> None"
  using add_free [of t c] add_taken [of t c] by (cases "get t (name_of c)") auto

end

interpretation router: dispatch_table router_new router_add router_get cmd_name
  by unfold_locales (auto simp: router_new_def router_add_def router_get_def Let_def)

lemma router_add_wf: "router_wf r \<Longrightarrow> router_wf (snd (router_add cmd r))"
  by (auto simp: router_wf_def router_add_def Let_def)

lemma router_registered_wf:
  "router_wf r \<Longrightarrow> router_wf (fold (\<lambda>c t. snd (router_add c t)) cs r)"
  by (induction cs arbitrary: r) (simp_all add: router_add_wf)

section \<open>What reading and replying do to a connection\<close>

lemma on_stream_eq:
  "on_stream m conn = (r, conn') \<longleftrightarrow>
     (\<exists>st. m (conn_stream conn) = (r, st) \<and> conn' = conn\<lparr>conn_stream := st\<rparr>)"
  by (cases "m (conn_stream conn)") (auto simp: on_stream_def)

lemma reply_socket:
  assumes "out_room (conn_stream conn) = None" and "to_vec msg = Inr p" and "length p \<le> conn_max_frame conn"
  shows "reply to_vec msg conn = (Inr (), conn\<lparr>conn_stream :=
    (conn_stream conn)\<lparr>outgoing := outgoing (conn_stream conn) @ frame_bytes p\<rparr>\<rparr>)"
  using assms by (simp add: reply_def on_stream_def write_frame_with_limit_def write_frame_bytes_socket)

lemma read_value_only_input:
  "\<exists>cs. snd (read_value json conn) = conn\<lparr>conn_stream := (conn_stream conn)\<lparr>incoming := cs\<rparr>\<rparr>"
proof -
  let ?P = "\<lambda>r. \<exists>cs. r = (conn_stream conn)\<lparr>incoming := cs\<rparr>"
  have "?P (snd (read_frame_bytes stream_read (conn_max_frame conn) (conn_stream conn)))"
  proof (rule read_frame_bytes_keeps [where P = ?P])
    show "?P (conn_stream conn)" by (rule exI [of _ "incoming (conn_stream conn)"]) simp
  qed (auto simp: stream_read_def split: prod.split)
  moreover have "snd (read_frame_with_limit rd d m r) = snd (read_frame_bytes rd m r)"
    for rd :: "unix_stream \<Rightarrow> nat \<Rightarrow> (io_error + byte list) \<times> unix_stream" and d :: "byte list \<Rightarrow> json_error + 'a" and m r
    by (auto simp: read_frame_with_limit_def try_bind_def fail_def ok_def split: prod.split sum.split)
  ultimately have "?P (snd (read_frame_with_limit stream_read (json_from_slice json) (conn_max_frame conn)
      (conn_stream conn)))" by simp
  then show ?thesis
    by (auto simp: read_value_def read_json_def on_stream_def split: prod.splits)
qed

lemma read_value_consumes:
  assumes "read_value json conn = (Inr v, conn')"
  shows "size (conn_stream conn') < size (conn_stream conn)"
proof -
  from assms obtain p where
    "read_frame_bytes stream_read (conn_max_frame conn) (conn_stream conn) = (Inr p, conn_stream conn')"
    by (auto simp: read_value_def read_json_def on_stream_eq read_frame_with_limit_def
        elim!: try_bind_eq_InrE split: sum.splits)
  from read_frame_bytes_consumes [where weight = size, OF _ this] show ?thesis
    using stream_read_size by fastforce
qed

text \<open>A frame at the front of a connection is read, decoded and gone.\<close>

lemma read_value_frame:
  assumes "pending (conn_stream conn) = frame_bytes p @ rest" and "length p \<le> conn_max_frame conn"
    and "length p < 2 ^ 32" and "json_from_slice json p = Inr v"
  shows "\<exists>cs. read_value json conn = (Inr v, conn\<lparr>conn_stream := (conn_stream conn)\<lparr>incoming := cs\<rparr>\<rparr>) \<and>
    chunks_pending cs = rest \<and> chunks_ending cs = ending (conn_stream conn)"
proof -
  from socket_in.read_frame_bytes_after_frame [OF assms(1-3)] obtain r' where
    "read_frame_bytes stream_read (conn_max_frame conn) (conn_stream conn) = (Inr p, r')"
    and rest: "pending r' = rest" "ending r' = ending (conn_stream conn)" by blast
  with assms(4) have r: "read_value json conn = (Inr v, conn\<lparr>conn_stream := r'\<rparr>)"
    by (simp add: read_value_def read_json_def on_stream_def read_frame_with_limit_def ok_def)
  obtain cs where "conn\<lparr>conn_stream := r'\<rparr> = conn\<lparr>conn_stream := (conn_stream conn)\<lparr>incoming := cs\<rparr>\<rparr>"
    using read_value_only_input [of json conn] r by auto
  moreover from arg_cong [OF this, of conn_stream] have "r' = (conn_stream conn)\<lparr>incoming := cs\<rparr>" by simp
  ultimately show ?thesis using r rest by (intro exI [of _ cs]) simp
qed

text \<open>A stream at its end, or broken, gives an error and no value.\<close>

lemma read_value_end:
  assumes "pending (conn_stream conn) = []"
  shows "fst (read_value json conn) =
    Inl (case ending (conn_stream conn) of None \<Rightarrow> UnexpectedEof 0 4 | Some e \<Rightarrow> Io e)"
proof -
  have "fst (read_frame_bytes stream_read (conn_max_frame conn) (conn_stream conn)) =
      Inl (case ending (conn_stream conn) of None \<Rightarrow> UnexpectedEof 0 4 | Some e \<Rightarrow> Io e)"
    using assms
    by (auto simp: socket_in.read_frame_bytes_spec frame_spec_def exact_spec_def split: option.split)
  then show ?thesis
    by (cases "read_frame_bytes stream_read (conn_max_frame conn) (conn_stream conn)")
      (simp add: read_value_def read_json_def on_stream_def read_frame_with_limit_def)
qed

section \<open>Properties\<close>

text \<open>
  Start-up registration: registering any list of commands on a new router gives, under each
  name, the first command of the list with that name; later ones of the same name are refused.
  Every command is found under the name it reports itself.
\<close>

theorem router_first_registration_wins:
  "router_get (fold (\<lambda>c r. snd (router_add c r)) cs router_new) n = find (\<lambda>c. cmd_name c = n) cs \<and>
   router_wf (fold (\<lambda>c r. snd (router_add c r)) cs router_new)"
  using router.get_registered [of cs n] router_registered_wf [of router_new cs]
  by (simp add: router_wf_def router_new_def)

text \<open>
  A duplicate registration is an error that names the command and leaves the router as it was;
  any other registration succeeds, adds that one command and leaves every other lookup alone.
\<close>

theorem router_add_refuses_duplicates:
  "router_add cmd r =
     (case router_get r (cmd_name cmd) of
        Some _ \<Rightarrow> (Inl (DuplicateCommand (cmd_name cmd)), r)
      | None \<Rightarrow> (Inr (), snd (router_add cmd r))) \<and>
   router_get (snd (router_add cmd r)) n =
     (case router_get r n of Some d \<Rightarrow> Some d | None \<Rightarrow> if n = cmd_name cmd then Some cmd else None)"
  using router.get_after_add [of cmd r n]
  by (auto simp: router_add_def router_get_def Let_def split: option.split)

end
