(* ===== verification/Session.thy ===== *)
theory Session
  imports Command Peer_Auth
begin

text \<open>
  One client of \<open>ipc/server.rs\<close>: reading a request and routing it, the one-shot and the persistent
  session, and the authentication check in front of them. A persistent session is a loop without a
  bound, so \<open>session_loop\<close> is a partial function: \<open>None\<close> is a session that never ends.
  The shared state \<open>'s\<close> is threaded through the calls; the commands and hooks are parameters.
\<close>

section \<open>One request\<close>

datatype session_mode = OneShot | Persistent

definition dispatch_body ::
  "'v json_lib \<Rightarrow> ('s, 'v) router \<Rightarrow> ('s, 'v) error_handler \<Rightarrow> 's \<Rightarrow> 'v \<Rightarrow> connection \<Rightarrow>
   (frame_error + unit) \<times> 's \<times> connection" where
  "dispatch_body json router hooks st body conn =
     (case json_type_field json body of
        None \<Rightarrow> (Inr (), hook_unknown hooks st '''' body conn)
      | Some name \<Rightarrow>
          (case router_get router name of
             None \<Rightarrow> (Inr (), hook_unknown hooks st name body conn)
           | Some cmd \<Rightarrow>
               (case cmd_execute cmd st body conn of
                  (Inr _, st', conn') \<Rightarrow> (Inr (), st', conn')
                | (Inl e, st', conn') \<Rightarrow>
                    (case e of
                       Hangup \<Rightarrow> (Inl (UnexpectedEof 0 0), st', conn')
                     | _ \<Rightarrow> (Inr (), hook_error hooks st' e conn')))))"

definition dispatch_one ::
  "'v json_lib \<Rightarrow> ('s, 'v) router \<Rightarrow> ('s, 'v) error_handler \<Rightarrow> 's \<Rightarrow> connection \<Rightarrow>
   (frame_error + unit) \<times> 's \<times> connection" where
  "dispatch_one json router hooks st conn =
     (case read_value json conn of
        (Inl e, conn') \<Rightarrow> (Inl e, st, conn')
      | (Inr body, conn') \<Rightarrow> dispatch_body json router hooks st body conn')"

section \<open>Sessions\<close>

text \<open>The errors that end a persistent session without a word.\<close>

definition session_over :: "frame_error \<Rightarrow> bool" where
  "session_over e =
     (case e of
        UnexpectedEof _ _ \<Rightarrow> True
      | Io e \<Rightarrow> kind e = UnexpectedEofKind \<or> kind e = ConnectionReset
      | _ \<Rightarrow> False)"

definition end_session ::
  "('s, 'v) error_handler \<Rightarrow> frame_error \<Rightarrow> 's \<Rightarrow> connection \<Rightarrow> 's \<times> connection" where
  "end_session hooks e st conn =
     (if session_over e then (st, conn) else hook_error hooks st (FrameErr e) conn)"

partial_function (option) session_loop ::
  "'v json_lib \<Rightarrow> ('s, 'v) router \<Rightarrow> ('s, 'v) error_handler \<Rightarrow> 's \<Rightarrow> connection \<Rightarrow>
   ('s \<times> connection) option" where
  "session_loop json router hooks st conn =
     (case dispatch_one json router hooks st conn of
        (res, st', conn') \<Rightarrow>
          (case res of
             Inr _ \<Rightarrow> session_loop json router hooks st' conn'
           | Inl e \<Rightarrow> Some (end_session hooks e st' conn')))"

definition one_shot ::
  "'v json_lib \<Rightarrow> ('s, 'v) router \<Rightarrow> ('s, 'v) error_handler \<Rightarrow> 's \<Rightarrow> connection \<Rightarrow> 's \<times> connection" where
  "one_shot json router hooks st conn =
     (case dispatch_one json router hooks st conn of
        (Inr _, st', conn') \<Rightarrow> (st', conn')
      | (Inl e, st', conn') \<Rightarrow> hook_error hooks st' (FrameErr e) conn')"

definition handle_conn ::
  "nix_lib \<Rightarrow> 'v json_lib \<Rightarrow> unix_stream \<Rightarrow> 's \<Rightarrow> ('s, 'v) router \<Rightarrow> ('s, 'v) error_handler \<Rightarrow> auth \<Rightarrow>
   session_mode \<Rightarrow> usize \<Rightarrow> ('s \<times> connection) option" where
  "handle_conn nix json stream st router hooks auth session max_frame =
     (let conn = conn_new stream max_frame in
      if \<not> allows nix auth (conn_stream conn) then Some (hook_reject hooks st RejectAuth conn)
      else (case session of
              OneShot \<Rightarrow> Some (one_shot json router hooks st conn)
            | Persistent \<Rightarrow> session_loop json router hooks st conn))"

section \<open>Sessions step by step\<close>

text \<open>
  A client thread cut at its calls, for the interleavings of the accept loop: reading a request, running
  the command or the \<open>unknown\<close> hook, and reporting an error are steps of their own, and other threads
  may run in between. The flag of \<open>Reporting\<close> says that the session ends with that report. Run alone
  the steps compute \<open>handle_conn\<close>.
\<close>

datatype 'v handler_pc =
    Starting unix_stream | Dispatching connection | Executing 'v connection
  | Reporting ipc_error bool connection | Returned connection

definition returned :: "'s \<times> connection \<Rightarrow> 'v handler_pc \<times> 's" where
  "returned r = (Returned (snd r), fst r)"

definition after_dispatch :: "session_mode \<Rightarrow> connection \<Rightarrow> 'v handler_pc" where
  "after_dispatch session conn = (case session of OneShot \<Rightarrow> Returned conn | Persistent \<Rightarrow> Dispatching conn)"

definition after_failure :: "session_mode \<Rightarrow> frame_error \<Rightarrow> connection \<Rightarrow> 'v handler_pc" where
  "after_failure session e conn =
     (case session of
        OneShot \<Rightarrow> Reporting (FrameErr e) True conn
      | Persistent \<Rightarrow> if session_over e then Returned conn else Reporting (FrameErr e) True conn)"

fun handle_micro ::
  "nix_lib \<Rightarrow> 'v json_lib \<Rightarrow> ('s, 'v) router \<Rightarrow> ('s, 'v) error_handler \<Rightarrow> auth \<Rightarrow> session_mode \<Rightarrow> usize \<Rightarrow>
   'v handler_pc \<times> 's \<Rightarrow> 'v handler_pc \<times> 's" where
  "handle_micro nix json router hooks auth session max_frame (Starting stream, st) =
     (let conn = conn_new stream max_frame in
      if \<not> allows nix auth (conn_stream conn) then returned (hook_reject hooks st RejectAuth conn)
      else (Dispatching conn, st))"
| "handle_micro nix json router hooks auth session max_frame (Dispatching conn, st) =
     (case read_value json conn of
        (Inl e, conn') \<Rightarrow> (after_failure session e conn', st)
      | (Inr body, conn') \<Rightarrow> (Executing body conn', st))"
| "handle_micro nix json router hooks auth session max_frame (Executing body conn, st) =
     (case json_type_field json body of
        None \<Rightarrow> (case hook_unknown hooks st '''' body conn of (st', conn') \<Rightarrow> (after_dispatch session conn', st'))
      | Some name \<Rightarrow>
          (case router_get router name of
             None \<Rightarrow> (case hook_unknown hooks st name body conn of (st', conn') \<Rightarrow> (after_dispatch session conn', st'))
           | Some cmd \<Rightarrow>
               (case cmd_execute cmd st body conn of
                  (Inr _, st', conn') \<Rightarrow> (after_dispatch session conn', st')
                | (Inl e, st', conn') \<Rightarrow>
                    (case e of
                       Hangup \<Rightarrow> (after_failure session (UnexpectedEof 0 0) conn', st')
                     | _ \<Rightarrow> (Reporting e False conn', st')))))"
| "handle_micro nix json router hooks auth session max_frame (Reporting e final conn, st) =
     (case hook_error hooks st e conn of
        (st', conn') \<Rightarrow> (if final then Returned conn' else after_dispatch session conn', st'))"
| "handle_micro nix json router hooks auth session max_frame (Returned conn, st) = (Returned conn, st)"

lemma returned_eq [simp]: "returned r = (pc, st) \<longleftrightarrow> pc = Returned (snd r) \<and> st = fst r"
  by (auto simp: returned_def)

lemma after_simps [simp]:
  "after_dispatch OneShot conn = Returned conn" "after_dispatch Persistent conn = Dispatching conn"
  "after_failure OneShot e conn = Reporting (FrameErr e) True conn"
  "after_failure Persistent e conn = (if session_over e then Returned conn else Reporting (FrameErr e) True conn)"
  by (simp_all add: after_dispatch_def after_failure_def)

section \<open>Sessions that end\<close>

text \<open>
  A command or a hook may read from the connection, but it cannot put bytes into it that the
  client has not sent. Under that condition every request uses up input, so every session ends.
\<close>

definition adds_no_input :: "('s, 'v) router \<Rightarrow> ('s, 'v) error_handler \<Rightarrow> bool" where
  "adds_no_input router hooks \<longleftrightarrow>
     (\<forall>n cmd st v conn. router_get router n = Some cmd \<longrightarrow>
        size (conn_stream (snd (snd (cmd_execute cmd st v conn)))) \<le> size (conn_stream conn)) \<and>
     (\<forall>st n v conn. size (conn_stream (snd (hook_unknown hooks st n v conn))) \<le> size (conn_stream conn)) \<and>
     (\<forall>st e conn. size (conn_stream (snd (hook_error hooks st e conn))) \<le> size (conn_stream conn))"

lemma adds_no_inputD:
  assumes "adds_no_input router hooks"
  shows "router_get router n = Some cmd \<Longrightarrow> cmd_execute cmd st v conn = (r, st', conn') \<Longrightarrow>
      size (conn_stream conn') \<le> size (conn_stream conn)"
    and "hook_unknown hooks st n v conn = (st', conn') \<Longrightarrow> size (conn_stream conn') \<le> size (conn_stream conn)"
    and "hook_error hooks st e conn = (st', conn') \<Longrightarrow> size (conn_stream conn') \<le> size (conn_stream conn)"
  using assms unfolding adds_no_input_def by (metis snd_conv)+

lemma dispatch_body_input:
  assumes "adds_no_input router hooks" and "dispatch_body json router hooks st v conn = (r, st', conn')"
  shows "size (conn_stream conn') \<le> size (conn_stream conn)"
proof -
  note le = adds_no_inputD [OF assms(1)]
  have trans: "size (conn_stream conn') \<le> size (conn_stream conn)"
    if "cmd_execute cmd st v conn = (Inl e, st1, conn1)" and "router_get router n = Some cmd"
      and "hook_error hooks st1 e conn1 = (st', conn')" for cmd e st1 conn1 n
    using le(1) [OF that(2,1)] le(3) [OF that(3)] by simp
  from assms(2) show ?thesis
    by (auto simp: dispatch_body_def split: option.splits sum.splits prod.splits ipc_error.splits
        intro: le trans)
qed

lemma dispatch_one_input:
  assumes "adds_no_input router hooks" and "dispatch_one json router hooks st conn = (Inr u, st', conn')"
  shows "size (conn_stream conn') < size (conn_stream conn)"
proof -
  from assms(2) obtain v conn1 where "read_value json conn = (Inr v, conn1)"
    and "dispatch_body json router hooks st v conn1 = (Inr u, st', conn')"
    by (auto simp: dispatch_one_def split: prod.splits sum.splits)
  with read_value_consumes dispatch_body_input [OF assms(1)] show ?thesis
    by (metis le_less_trans)
qed

lemma session_loop_ends:
  assumes "adds_no_input router hooks"
  shows "\<exists>r. session_loop json router hooks st conn = Some r"
proof (induction "size (conn_stream conn)" arbitrary: st conn rule: less_induct)
  case less
  obtain res st' conn' where d: "dispatch_one json router hooks st conn = (res, st', conn')"
    by (metis prod.collapse)
  show ?case
  proof (cases res)
    case (Inl e)
    with d show ?thesis by (subst session_loop.simps) simp
  next
    case (Inr u)
    with d dispatch_one_input [OF assms] less have "\<exists>r. session_loop json router hooks st' conn' = Some r"
      by blast
    with d Inr show ?thesis by (subst session_loop.simps) simp
  qed
qed

section \<open>The two forms of a session agree\<close>

lemma session_loop_step:
  "session_loop json router hooks st conn =
     (case dispatch_one json router hooks st conn of
        (Inr _, st', conn') \<Rightarrow> session_loop json router hooks st' conn'
      | (Inl e, st', conn') \<Rightarrow> Some (end_session hooks e st' conn'))"
  by (subst session_loop.simps) (simp split: prod.split sum.split)

text \<open>
  What is left to do at a step of the thread, as the functions of the code would do it. A step of the
  thread does not change it.
\<close>

definition finish_dispatch ::
  "'v json_lib \<Rightarrow> ('s, 'v) router \<Rightarrow> ('s, 'v) error_handler \<Rightarrow> session_mode \<Rightarrow>
   (frame_error + unit) \<times> 's \<times> connection \<Rightarrow> ('s \<times> connection) option" where
  "finish_dispatch json router hooks session r =
     (case r of
        (Inr _, st, conn) \<Rightarrow>
          (case session of OneShot \<Rightarrow> Some (st, conn) | Persistent \<Rightarrow> session_loop json router hooks st conn)
      | (Inl e, st, conn) \<Rightarrow>
          (case session of
             OneShot \<Rightarrow> Some (hook_error hooks st (FrameErr e) conn)
           | Persistent \<Rightarrow> Some (end_session hooks e st conn)))"

fun left_to_do ::
  "nix_lib \<Rightarrow> 'v json_lib \<Rightarrow> ('s, 'v) router \<Rightarrow> ('s, 'v) error_handler \<Rightarrow> auth \<Rightarrow> session_mode \<Rightarrow> usize \<Rightarrow>
   'v handler_pc \<times> 's \<Rightarrow> ('s \<times> connection) option" where
  "left_to_do nix json router hooks auth session m (Starting stream, st) =
     handle_conn nix json stream st router hooks auth session m"
| "left_to_do nix json router hooks auth session m (Dispatching conn, st) =
     finish_dispatch json router hooks session (dispatch_one json router hooks st conn)"
| "left_to_do nix json router hooks auth session m (Executing body conn, st) =
     finish_dispatch json router hooks session (dispatch_body json router hooks st body conn)"
| "left_to_do nix json router hooks auth session m (Reporting e final conn, st) =
     (if final then Some (hook_error hooks st e conn)
      else finish_dispatch json router hooks session (Inr (), hook_error hooks st e conn))"
| "left_to_do nix json router hooks auth session m (Returned conn, st) = Some (st, conn)"

lemma finish_dispatch_simps [simp]:
  "finish_dispatch json router hooks OneShot (Inr u, st, conn) = Some (st, conn)"
  "finish_dispatch json router hooks Persistent (Inr u, st, conn) = session_loop json router hooks st conn"
  "finish_dispatch json router hooks OneShot (Inl e, st, conn) = Some (hook_error hooks st (FrameErr e) conn)"
  "finish_dispatch json router hooks Persistent (Inl e, st, conn) = Some (end_session hooks e st conn)"
  by (simp_all add: finish_dispatch_def)

lemma handle_conn_finish:
  "handle_conn nix json stream st router hooks auth session m =
     (let conn = conn_new stream m in
      if \<not> allows nix auth (conn_stream conn) then Some (hook_reject hooks st RejectAuth conn)
      else finish_dispatch json router hooks session (dispatch_one json router hooks st conn))"
  by (cases session; cases "dispatch_one json router hooks st (conn_new stream m)")
    (auto simp: handle_conn_def Let_def one_shot_def session_loop_step [of _ _ _ _ "conn_new stream m"] split: sum.split)

lemma left_to_do_after:
  "left_to_do nix json router hooks auth session m (after_dispatch session conn, st) =
     finish_dispatch json router hooks session (Inr (), st, conn)"
  "left_to_do nix json router hooks auth session m (after_failure session e conn, st) =
     finish_dispatch json router hooks session (Inl e, st, conn)"
  by (cases session; cases "dispatch_one json router hooks st conn";
      auto simp: end_session_def session_loop_step [of _ _ _ _ conn] split: sum.split)+

lemma left_to_do_micro:
  "left_to_do nix json router hooks auth session m (handle_micro nix json router hooks auth session m x) =
     left_to_do nix json router hooks auth session m x"
proof (cases x)
  case (Pair pc st)
  show ?thesis
  proof (cases pc)
    case (Starting stream)
    with Pair show ?thesis by (simp add: handle_conn_finish Let_def returned_def)
  next
    case (Dispatching conn)
    with Pair show ?thesis
      by (cases "read_value json conn") (auto simp: dispatch_one_def left_to_do_after split: sum.split)
  next
    case (Executing body conn)
    with Pair show ?thesis
      by (auto simp: dispatch_body_def left_to_do_after split: option.split prod.split sum.split ipc_error.split)
  next
    case (Reporting e final conn)
    with Pair show ?thesis
      by (cases "hook_error hooks st e conn") (simp add: left_to_do_after)
  next
    case (Returned conn)
    with Pair show ?thesis by simp
  qed
qed

lemma left_to_do_steps:
  "left_to_do nix json router hooks auth session m ((handle_micro nix json router hooks auth session m ^^ n) x) =
     left_to_do nix json router hooks auth session m x"
  by (induction n) (simp_all add: left_to_do_micro)

lemma micro_returned:
  "(handle_micro nix json router hooks auth session m ^^ n) (returned r) = returned r"
  by (induction n) (simp_all add: returned_def)

text \<open>A thread that runs alone gets through its session, if the session ends.\<close>

definition finishes ::
  "nix_lib \<Rightarrow> 'v json_lib \<Rightarrow> ('s, 'v) router \<Rightarrow> ('s, 'v) error_handler \<Rightarrow> auth \<Rightarrow> session_mode \<Rightarrow> usize \<Rightarrow>
   'v handler_pc \<times> 's \<Rightarrow> 's \<times> connection \<Rightarrow> bool" where
  "finishes nix json router hooks auth session m x r \<longleftrightarrow>
     (\<exists>n. (handle_micro nix json router hooks auth session m ^^ n) x = returned r)"

lemma finishes_returned: "finishes nix json router hooks auth session m (Returned conn, st) (st, conn)"
  unfolding finishes_def by (rule exI [of _ 0]) (simp add: returned_def)

lemma finishes_step:
  assumes "finishes nix json router hooks auth session m (handle_micro nix json router hooks auth session m x) r"
  shows "finishes nix json router hooks auth session m x r"
proof -
  from assms obtain n where
    "(handle_micro nix json router hooks auth session m ^^ n) (handle_micro nix json router hooks auth session m x) = returned r"
    by (auto simp: finishes_def)
  then have "(handle_micro nix json router hooks auth session m ^^ Suc n) x = returned r"
    by (simp only: funpow_Suc_right o_apply)
  then show ?thesis unfolding finishes_def ..
qed

lemma finishes_report_last: "finishes nix json router hooks auth session m (Reporting e True conn, st) (hook_error hooks st e conn)"
  by (rule finishes_step, cases "hook_error hooks st e conn") (simp add: finishes_returned)

lemma finishes_body:
  assumes "dispatch_body json router hooks st body conn = (res, st', conn')"
    and "finishes nix json router hooks auth session m
      (case res of Inr _ \<Rightarrow> after_dispatch session conn' | Inl e \<Rightarrow> after_failure session e conn', st') r"
  shows "finishes nix json router hooks auth session m (Executing body conn, st) r"
proof (cases "\<exists>st1 conn1 e. handle_micro nix json router hooks auth session m (Executing body conn, st) = (Reporting e False conn1, st1)")
  case False
  with assms(1) have "handle_micro nix json router hooks auth session m (Executing body conn, st) =
      (case res of Inr _ \<Rightarrow> after_dispatch session conn' | Inl e \<Rightarrow> after_failure session e conn', st')"
    by (auto simp: dispatch_body_def split: option.splits prod.splits sum.splits ipc_error.splits)
  with assms(2) show ?thesis by (intro finishes_step [where x = "(Executing body conn, st)"]) simp
next
  case True
  then obtain st1 conn1 e where one: "handle_micro nix json router hooks auth session m (Executing body conn, st) = (Reporting e False conn1, st1)"
    by blast
  with assms(1) have "hook_error hooks st1 e conn1 = (st', conn')" and "res = Inr ()"
    by (cases session; auto simp: dispatch_body_def split: option.splits prod.splits sum.splits ipc_error.splits if_splits)+
  with assms(2) have "finishes nix json router hooks auth session m (Reporting e False conn1, st1) r"
    by (intro finishes_step [where x = "(Reporting e False conn1, st1)"]) simp
  with one show ?thesis by (intro finishes_step [where x = "(Executing body conn, st)"]) simp
qed

lemma finishes_dispatch:
  assumes "dispatch_one json router hooks st conn = (res, st', conn')"
    and "finishes nix json router hooks auth session m
      (case res of Inr _ \<Rightarrow> after_dispatch session conn' | Inl e \<Rightarrow> after_failure session e conn', st') r"
  shows "finishes nix json router hooks auth session m (Dispatching conn, st) r"
proof (rule finishes_step)
  obtain v conn1 where rd: "read_value json conn = (v, conn1)" by fastforce
  show "finishes nix json router hooks auth session m
      (handle_micro nix json router hooks auth session m (Dispatching conn, st)) r"
  proof (cases v)
    case (Inl e)
    with rd assms show ?thesis by (auto simp: dispatch_one_def)
  next
    case (Inr body)
    with rd assms finishes_body [where body = body and conn = conn1] show ?thesis by (simp add: dispatch_one_def)
  qed
qed

lemma finishes_after_failure:
  "finishes nix json router hooks auth session m (after_failure session e conn, st)
     (case session of OneShot \<Rightarrow> hook_error hooks st (FrameErr e) conn | Persistent \<Rightarrow> end_session hooks e st conn)"
  by (cases session) (auto simp: end_session_def finishes_returned finishes_report_last)

lemma session_loop_finishes:
  assumes "session_loop json router hooks st conn = Some r"
  shows "finishes nix json router hooks auth Persistent m (Dispatching conn, st) r"
  using assms
proof (induction json router hooks st conn r rule: session_loop.raw_induct [rotated, consumes 1])
  case (1 loop json router hooks st conn r)
  obtain res st' conn' where d: "dispatch_one json router hooks st conn = (res, st', conn')"
    by (metis prod.collapse)
  show ?case
  proof (rule finishes_dispatch [OF d], cases res)
    case (Inl e)
    with d 1(2) finishes_after_failure [where session = Persistent and e = e and conn = conn' and st = st']
    show "finishes nix json router hooks auth Persistent m
      (case res of Inr _ \<Rightarrow> after_dispatch Persistent conn' | Inl e \<Rightarrow> after_failure Persistent e conn', st') r"
      by fastforce
  next
    case (Inr u)
    with d 1 show "finishes nix json router hooks auth Persistent m
      (case res of Inr _ \<Rightarrow> after_dispatch Persistent conn' | Inl e \<Rightarrow> after_failure Persistent e conn', st') r"
      by simp
  qed
qed

lemma left_to_do_finishes:
  assumes "left_to_do nix json router hooks auth session m (Dispatching conn, st) = Some r"
  shows "finishes nix json router hooks auth session m (Dispatching conn, st) r"
proof -
  obtain res st' conn' where d: "dispatch_one json router hooks st conn = (res, st', conn')"
    by (metis prod.collapse)
  show ?thesis
  proof (rule finishes_dispatch [OF d], cases res)
    case (Inl e)
    with d assms finishes_after_failure [of nix json router hooks auth session m e conn' st']
    show "finishes nix json router hooks auth session m
      (case res of Inr _ \<Rightarrow> after_dispatch session conn' | Inl e \<Rightarrow> after_failure session e conn', st') r"
      by (cases session) auto
  next
    case (Inr u)
    with d assms show "finishes nix json router hooks auth session m
      (case res of Inr _ \<Rightarrow> after_dispatch session conn' | Inl e \<Rightarrow> after_failure session e conn', st') r"
      by (cases session) (auto simp: finishes_returned session_loop_finishes)
  qed
qed

section \<open>Services that answer every request\<close>

text \<open>
  The contract of a service that answers each request by itself: what it sends and the next state
  depend on the request and the state alone, as long as the client takes what it is sent. A client
  that pipelines its frames gets the answers in order, whatever the kernel makes of the chunks.
\<close>

definition push_out :: "byte list \<Rightarrow> connection \<Rightarrow> connection" where
  "push_out bs conn =
     conn\<lparr>conn_stream := (conn_stream conn)\<lparr>outgoing := outgoing (conn_stream conn) @ bs\<rparr>\<rparr>"

definition set_input :: "chunk list \<Rightarrow> connection \<Rightarrow> connection" where
  "set_input cs conn = conn\<lparr>conn_stream := (conn_stream conn)\<lparr>incoming := cs\<rparr>\<rparr>"

lemma push_out_simps [simp]:
  "incoming (conn_stream (push_out bs conn)) = incoming (conn_stream conn)"
  "out_room (conn_stream (push_out bs conn)) = out_room (conn_stream conn)"
  "outgoing (conn_stream (push_out bs conn)) = outgoing (conn_stream conn) @ bs"
  "conn_max_frame (push_out bs conn) = conn_max_frame conn"
  "push_out bs' (push_out bs conn) = push_out (bs @ bs') conn"
  "push_out [] conn = conn"
  by (simp_all add: push_out_def)

lemma set_input_simps [simp]:
  "incoming (conn_stream (set_input cs conn)) = cs"
  "out_room (conn_stream (set_input cs conn)) = out_room (conn_stream conn)"
  "outgoing (conn_stream (set_input cs conn)) = outgoing (conn_stream conn)"
  "conn_max_frame (set_input cs conn) = conn_max_frame conn"
  "set_input cs' (set_input cs conn) = set_input cs' conn"
  "push_out bs (set_input cs conn) = set_input cs (push_out bs conn)"
  "set_input (incoming (conn_stream conn)) conn = conn"
  by (simp_all add: set_input_def push_out_def)

locale replying_service =
  fixes json :: "'v json_lib"
    and router :: "('s, 'v) router"
    and hooks :: "('s, 'v) error_handler"
    and max_frame :: usize
    and step :: "'v \<Rightarrow> 's \<Rightarrow> 's"
    and answer :: "'v \<Rightarrow> 's \<Rightarrow> byte list"
  assumes answers: "out_room (conn_stream conn) = None \<Longrightarrow> conn_max_frame conn = max_frame \<Longrightarrow>
    dispatch_body json router hooks st v conn = (Inr (), step v st, push_out (answer v st) conn)"
begin

fun answer_all :: "'v list \<Rightarrow> 's \<Rightarrow> byte list" where
  "answer_all [] st = []"
| "answer_all (v # vs) st = answer v st @ answer_all vs (step v st)"

definition request :: "byte list \<Rightarrow> 'v \<Rightarrow> bool" where
  "request p v \<longleftrightarrow> length p \<le> max_frame \<and> length p < 2 ^ 32 \<and> json_from_slice json p = Inr v"

lemma dispatch_frame:
  assumes "pending (conn_stream conn) = frame_bytes p @ rest" and "request p v"
    and "out_room (conn_stream conn) = None" and "conn_max_frame conn = max_frame"
  shows "\<exists>cs. dispatch_one json router hooks st conn =
      (Inr (), step v st, set_input cs (push_out (answer v st) conn)) \<and>
    chunks_pending cs = rest \<and> chunks_ending cs = ending (conn_stream conn)"
proof -
  from read_value_frame [OF assms(1), of json v] assms(2,4) obtain cs where
    "read_value json conn = (Inr v, set_input cs conn)"
    and "chunks_pending cs = rest \<and> chunks_ending cs = ending (conn_stream conn)"
    by (auto simp: request_def set_input_def)
  with assms(3,4) show ?thesis
    by (intro exI [of _ cs]) (simp add: dispatch_one_def answers)
qed

lemma session_frames:
  assumes "list_all2 request ps vs" and "pending (conn_stream conn) = concat (map frame_bytes ps) @ rest"
    and "out_room (conn_stream conn) = None" and "conn_max_frame conn = max_frame"
  shows "\<exists>cs. session_loop json router hooks st conn =
      session_loop json router hooks (fold step vs st) (set_input cs (push_out (answer_all vs st) conn)) \<and>
    chunks_pending cs = rest \<and> chunks_ending cs = ending (conn_stream conn)"
  using assms
proof (induction arbitrary: conn st rule: list_all2_induct)
  case Nil
  then show ?case by (intro exI [of _ "incoming (conn_stream conn)"]) simp
next
  case (Cons p ps v vs)
  from Cons.prems have "pending (conn_stream conn) = frame_bytes p @ (concat (map frame_bytes ps) @ rest)"
    by simp
  from dispatch_frame [OF this Cons.hyps(1) Cons.prems(2,3), of st] obtain cs where
    d: "dispatch_one json router hooks st conn = (Inr (), step v st, set_input cs (push_out (answer v st) conn))"
    and cs: "chunks_pending cs = concat (map frame_bytes ps) @ rest"
      "chunks_ending cs = ending (conn_stream conn)"
    by blast
  let ?conn = "set_input cs (push_out (answer v st) conn)"
  from Cons.IH [of ?conn "step v st"] Cons.prems cs obtain cs' where
    "session_loop json router hooks (step v st) ?conn =
       session_loop json router hooks (fold step vs (step v st))
         (set_input cs' (push_out (answer_all vs (step v st)) ?conn))"
    and "chunks_pending cs' = rest" "chunks_ending cs' = ending (conn_stream conn)"
    by auto
  with d show ?case by (intro exI [of _ cs']) (subst session_loop_step, simp)
qed

text \<open>After the last whole frame the session ends as the rest of the input says.\<close>

lemma session_answers_all:
  assumes "list_all2 request ps vs" and "pending (conn_stream conn) = concat (map frame_bytes ps) @ rest"
    and "out_room (conn_stream conn) = None" and "conn_max_frame conn = max_frame"
    and "frame_spec max_frame rest (ending (conn_stream conn)) = Inl e"
  shows "\<exists>cs. session_loop json router hooks st conn =
    Some (end_session hooks e (fold step vs st) (set_input cs (push_out (answer_all vs st) conn)))"
proof -
  from session_frames [OF assms(1-4)] obtain cs where
    loop: "session_loop json router hooks st conn =
      session_loop json router hooks (fold step vs st) (set_input cs (push_out (answer_all vs st) conn))"
    and cs: "chunks_pending cs = rest" "chunks_ending cs = ending (conn_stream conn)"
    by blast
  let ?conn = "set_input cs (push_out (answer_all vs st) conn)"
  have "fst (read_frame_bytes stream_read max_frame (conn_stream ?conn)) = Inl e"
    using cs assms(5) by (simp add: socket_in.read_frame_bytes_spec)
  then have "fst (read_value json ?conn) = Inl e"
    using assms(4)
    by (cases "read_frame_bytes stream_read max_frame (conn_stream ?conn)")
      (simp add: read_value_def read_json_def on_stream_def read_frame_with_limit_def)
  moreover obtain cs' where "snd (read_value json ?conn) = set_input cs' ?conn"
    using read_value_only_input [of json ?conn] by (auto simp: set_input_def)
  ultimately have "read_value json ?conn = (Inl e, set_input cs' ?conn)" by (metis prod.collapse)
  then have "dispatch_one json router hooks (fold step vs st) ?conn = (Inl e, fold step vs st, set_input cs' ?conn)"
    by (simp add: dispatch_one_def)
  with loop show ?thesis by (intro exI [of _ cs']) (simp add: session_loop_step [of json router hooks _ ?conn])
qed

end

end
