(* ===== verification/Session_Service.thy ===== *)
theory Session_Service
  imports Session
begin

text \<open>
  The commands and hooks that \<open>ipc/server.rs\<close> itself contains: \<open>Echo\<close>, \<open>HangupCmd\<close> and
  \<open>Hooks\<close> of its test module. They are the provider of the contract \<open>replying_service\<close>
  and the concrete service of the witnesses. Then the properties of single sessions.
\<close>

section \<open>The service\<close>

text \<open>
  What the service uses of \<open>serde_json\<close> to write: \<open>to_vec\<close>, and the objects
  \<open>json!({key: text})\<close> and \<open>json!({key: flag})\<close>.
\<close>

record 'v json_out =
  json_to_vec :: "'v \<Rightarrow> json_error + byte list"
  json_text_object :: "string \<Rightarrow> string \<Rightarrow> 'v"
  json_flag_object :: "string \<Rightarrow> bool \<Rightarrow> 'v"

type_synonym atomic_usize = "64 word"

fun ipc_error_display :: "ipc_error \<Rightarrow> string" where
  "ipc_error_display (FrameErr e) = frame_error_display e"
| "ipc_error_display (OtherErr text) = text"
| "ipc_error_display Hangup = ''session closed''"

definition echo_execute ::
  "'v json_out \<Rightarrow> atomic_usize \<Rightarrow> 'v \<Rightarrow> connection \<Rightarrow> (ipc_error + unit) \<times> atomic_usize \<times> connection" where
  "echo_execute out st body conn =
     (case reply (json_to_vec out) body conn of
        (Inl e, conn') \<Rightarrow> (Inl (FrameErr e), st + 1, conn')
      | (Inr _, conn') \<Rightarrow> (Inr (), st + 1, conn'))"

definition Echo :: "'v json_out \<Rightarrow> (atomic_usize, 'v) command" where
  "Echo out = \<lparr>cmd_name = ''echo'', cmd_execute = echo_execute out\<rparr>"

definition hangup_execute ::
  "'v json_out \<Rightarrow> atomic_usize \<Rightarrow> 'v \<Rightarrow> connection \<Rightarrow> (ipc_error + unit) \<times> atomic_usize \<times> connection" where
  "hangup_execute out st body conn =
     (case reply (json_to_vec out) (json_flag_object out ''ok'' True) conn of
        (Inl e, conn') \<Rightarrow> (Inl (FrameErr e), st, conn')
      | (Inr _, conn') \<Rightarrow> (Inl Hangup, st, conn'))"

definition HangupCmd :: "'v json_out \<Rightarrow> (atomic_usize, 'v) command" where
  "HangupCmd out = \<lparr>cmd_name = ''done'', cmd_execute = hangup_execute out\<rparr>"

definition reply_error :: "'v json_out \<Rightarrow> string \<Rightarrow> atomic_usize \<Rightarrow> connection \<Rightarrow> atomic_usize \<times> connection" where
  "reply_error out text st conn =
     (st, snd (reply (json_to_vec out) (json_text_object out ''error'' text) conn))"

fun reject_code :: "reject_reason \<Rightarrow> string" where
  "reject_code RejectAuth = ''auth''"
| "reject_code RejectBusy = ''busy''"

definition Hooks :: "'v json_out \<Rightarrow> (atomic_usize, 'v) error_handler" where
  "Hooks out =
     \<lparr>hook_unknown = (\<lambda>st name body conn. reply_error out (''unknown:'' @ name) st conn),
      hook_error = (\<lambda>st e conn. reply_error out (ipc_error_display e) st conn),
      hook_reject = (\<lambda>st reason conn. reply_error out (reject_code reason) st conn)\<rparr>"

definition echo_router :: "'v json_out \<Rightarrow> (atomic_usize, 'v) router" where
  "echo_router out = snd (router_add (Echo out) router_new)"

definition hangup_router :: "'v json_out \<Rightarrow> (atomic_usize, 'v) router" where
  "hangup_router out = snd (router_add (HangupCmd out) router_new)"

section \<open>What the service sends\<close>

definition reply_outcome :: "('m \<Rightarrow> json_error + byte list) \<Rightarrow> usize \<Rightarrow> 'm \<Rightarrow> frame_error + byte list" where
  "reply_outcome to_vec m msg =
     (case to_vec msg of
        Inl e \<Rightarrow> Inl (Json e)
      | Inr p \<Rightarrow> if length p > m then Inl (TooLarge (length p) m) else Inr (frame_bytes p))"

definition error_frame :: "'v json_out \<Rightarrow> usize \<Rightarrow> string \<Rightarrow> byte list" where
  "error_frame out m text =
     (case reply_outcome (json_to_vec out) m (json_text_object out ''error'' text) of
        Inl _ \<Rightarrow> [] | Inr bs \<Rightarrow> bs)"

definition echo_step :: "'v json_lib \<Rightarrow> 'v \<Rightarrow> atomic_usize \<Rightarrow> atomic_usize" where
  "echo_step json v st = (if json_type_field json v = Some ''echo'' then st + 1 else st)"

definition echo_answer :: "'v json_lib \<Rightarrow> 'v json_out \<Rightarrow> usize \<Rightarrow> 'v \<Rightarrow> atomic_usize \<Rightarrow> byte list" where
  "echo_answer json out m v st =
     (case json_type_field json v of
        None \<Rightarrow> error_frame out m ''unknown:''
      | Some name \<Rightarrow>
          if name = ''echo''
          then (case reply_outcome (json_to_vec out) m v of
                  Inl e \<Rightarrow> error_frame out m (frame_error_display e)
                | Inr bs \<Rightarrow> bs)
          else error_frame out m (''unknown:'' @ name))"

lemma reply_eq:
  assumes "out_room (conn_stream conn) = None"
  shows "reply to_vec msg conn =
    (case reply_outcome to_vec (conn_max_frame conn) msg of
       Inl e \<Rightarrow> (Inl e, conn) | Inr bs \<Rightarrow> (Inr (), push_out bs conn))"
proof (cases "to_vec msg")
  case (Inl e)
  then show ?thesis
    by (simp add: reply_def on_stream_def write_frame_with_limit_def fail_def reply_outcome_def)
next
  case (Inr p)
  show ?thesis
  proof (cases "length p > conn_max_frame conn")
    case True
    with Inr show ?thesis
      by (simp add: reply_def on_stream_def write_frame_with_limit_def write_frame_bytes_def fail_def reply_outcome_def)
  next
    case False
    with Inr reply_socket [where to_vec = to_vec and msg = msg, OF assms Inr] show ?thesis by (simp add: reply_outcome_def push_out_def)
  qed
qed

lemma reply_error_eq:
  assumes "out_room (conn_stream conn) = None"
  shows "reply_error out text st conn = (st, push_out (error_frame out (conn_max_frame conn) text) conn)"
  by (simp add: reply_error_def error_frame_def reply_eq [OF assms] split: sum.split)

text \<open>A write leaves the input of the connection alone, also when it fails.\<close>

lemma reply_input: "incoming (conn_stream (snd (reply to_vec msg conn))) = incoming (conn_stream conn)"
proof -
  let ?P = "\<lambda>w. incoming w = incoming (conn_stream conn)"
  have "?P (snd (write_frame_bytes stream_write_all stream_flush p m (conn_stream conn)))" for p m
    by (auto simp: write_frame_bytes_def Let_def fail_def ok_def stream_flush_def stream_write_all_frame
        intro!: try_bind_keeps [where P = ?P])
  then show ?thesis
    by (auto simp: reply_def on_stream_def write_frame_with_limit_def fail_def split: prod.split sum.split)
      (metis snd_conv)
qed

lemma reply_size: "size (conn_stream (snd (reply to_vec msg conn))) = size (conn_stream conn)"
  by (simp add: size_unix_stream_ext_def reply_input)

lemma router_get_single: "router_get (snd (router_add cmd router_new)) n = (if n = cmd_name cmd then Some cmd else None)"
  by (simp add: router_get_def router_add_def router_new_def)

lemma echo_adds_no_input: "adds_no_input (echo_router out) (Hooks out)"
  by (auto simp: adds_no_input_def echo_router_def router_get_single Echo_def echo_execute_def Hooks_def
      reply_error_def reply_size split: prod.splits sum.splits)
    (metis order_refl reply_size snd_conv)+

interpretation echo: replying_service json "echo_router out" "Hooks out" m "echo_step json" "echo_answer json out m"
  for json :: "'v json_lib" and out :: "'v json_out" and m :: usize
proof
  fix conn :: connection and st :: atomic_usize and v :: 'v
  assume room: "out_room (conn_stream conn) = None" and m: "conn_max_frame conn = m"
  show "dispatch_body json (echo_router out) (Hooks out) st v conn =
      (Inr (), echo_step json v st, push_out (echo_answer json out m v st) conn)"
    using reply_eq [OF room, of "json_to_vec out" v] reply_error_eq [OF room, of out] m
    by (simp add: dispatch_body_def echo_router_def router_get_single Echo_def echo_execute_def Hooks_def
        echo_step_def echo_answer_def split: option.split sum.split)
qed

section \<open>A coding of requests for the witnesses\<close>

text \<open>
  Requests whose text is their \<open>type\<close> field, coded byte by byte: a concrete instance of the
  \<open>serde_json\<close> parameters.
\<close>

definition text_json :: "string json_lib" where
  "text_json =
     \<lparr>json_from_slice = (\<lambda>bs. if bs = [] then Inl (JsonError ''EOF'') else Inr (map (\<lambda>b. char_of (unat b)) bs)),
      json_get = (\<lambda>v k. if k = ''type'' then Some v else None), json_as_str = Some\<rparr>"

definition text_out :: "string json_out" where
  "text_out =
     \<lparr>json_to_vec = (\<lambda>v. Inr (map of_char v)), json_text_object = (\<lambda>k s. k @ '':'' @ s),
      json_flag_object = (\<lambda>k b. k)\<rparr>"

definition text_frame :: "string \<Rightarrow> byte list" where
  "text_frame v = frame_bytes (map of_char v)"

definition client :: "chunk list \<Rightarrow> unix_stream" where
  "client cs = \<lparr>stream_id = 0, incoming = cs, outgoing = [], out_room = None\<rparr>"

lemma client_simps [simp]:
  "incoming (client cs) = cs" "outgoing (client cs) = []" "out_room (client cs) = None"
  by (simp_all add: client_def)

lemma conn_new_simps [simp]:
  "conn_stream (conn_new stream m) = stream" "conn_max_frame (conn_new stream m) = m"
  by (simp_all add: conn_new_def)

lemma text_json_simps [simp]:
  "json_type_field text_json v = Some v"
  "json_to_vec text_out v = Inr (map of_char v)"
  by (simp_all add: text_json_def text_out_def json_type_field_def)

section \<open>Properties\<close>



text \<open>
  A peer the policy refuses gets nothing but the refusal. For the crate's own hooks and any
  router, session mode and input, no command runs, the shared state is unchanged, no byte of the
  client's is read, and the one frame sent is the \<open>auth\<close> error.
\<close>

theorem refused_peer_is_not_served:
  assumes "\<not> allows nix auth stream" and "out_room stream = None"
  shows "handle_conn nix json stream st router (Hooks out) auth session m =
    Some (st, push_out (error_frame out m ''auth'') (conn_new stream m))"
proof -
  have "reply_error out ''auth'' st (conn_new stream m) =
      (st, push_out (error_frame out m ''auth'') (conn_new stream m))"
    using reply_error_eq [of "conn_new stream m" out "''auth''" st] assms(2) by simp
  with assms(1) show ?thesis
    by (simp add: handle_conn_def Let_def Hooks_def)
qed

theorem refused_peer_is_not_served_witness:
  "handle_conn no_nix text_json (client [Data (text_frame ''echo'')]) 5 (echo_router text_out) (Hooks text_out)
     (PeerUid 7 []) Persistent 64 =
   Some (5, push_out (error_frame text_out 64 ''auth'') (conn_new (client [Data (text_frame ''echo'')]) 64))"
  by (rule refused_peer_is_not_served) (simp_all add: peer_uid_def no_nix_def)

text \<open>
  A request has no effect before it has arrived in full. When the input ends inside a frame,
  breaks, or announces a frame beyond the limit, the dispatch returns that error; no command and no
  hook has run, the shared state is as it was and nothing has been sent.
\<close>

theorem incomplete_request_has_no_effect:
  assumes "frame_spec (conn_max_frame conn) (pending (conn_stream conn)) (ending (conn_stream conn)) = Inl e"
  shows "\<exists>cs. dispatch_one json router hooks st conn = (Inl e, st, set_input cs conn)"
proof -
  obtain r where "read_frame_bytes stream_read (conn_max_frame conn) (conn_stream conn) = (Inl e, r)"
    using assms socket_in.read_frame_bytes_spec [of "conn_max_frame conn" "conn_stream conn"]
    by (metis prod.collapse)
  then have "fst (read_value json conn) = Inl e"
    by (simp add: read_value_def read_json_def on_stream_def read_frame_with_limit_def)
  moreover obtain cs where "snd (read_value json conn) = set_input cs conn"
    using read_value_only_input [of json conn] by (auto simp: set_input_def)
  ultimately have "read_value json conn = (Inl e, set_input cs conn)" by (metis prod.collapse)
  then show ?thesis by (intro exI [of _ cs]) (simp add: dispatch_one_def)
qed

theorem incomplete_request_has_no_effect_witness:
  "\<exists>cs. dispatch_one text_json (echo_router text_out) (Hooks text_out) 5
     (conn_new (client [Data [4, 0, 0], Data [0, 101, 99]]) 64) =
   (Inl (UnexpectedEof 2 4), 5, set_input cs (conn_new (client [Data [4, 0, 0], Data [0, 101, 99]]) 64))"
  by (rule incomplete_request_has_no_effect) (simp, code_simp)

text \<open>
  Requests are routed by their \<open>type\<close> field. For a whole frame at the front of the input, the
  command that runs is the one registered under the \<open>type\<close> of the decoded body, on that body and
  on the input after the frame; a body without a \<open>type\<close> or with an unregistered one goes to the
  \<open>unknown\<close> hook; an error of the command other than \<open>Hangup\<close> goes to the \<open>error\<close> hook.
\<close>

theorem request_reaches_its_command:
  assumes "pending (conn_stream conn) = frame_bytes p @ rest"
    and "length p \<le> conn_max_frame conn" and "length p < 2 ^ 32" and "json_from_slice json p = Inr v"
  shows "\<exists>cs. chunks_pending cs = rest \<and> chunks_ending cs = ending (conn_stream conn) \<and>
    dispatch_one json router hooks st conn =
      (let conn1 = set_input cs conn;
           name = (case json_type_field json v of Some n \<Rightarrow> n | None \<Rightarrow> [])
       in case Option.bind (json_type_field json v) (commands router) of
            None \<Rightarrow> (Inr (), hook_unknown hooks st name v conn1)
          | Some cmd \<Rightarrow>
              (let (r, st2, conn2) = cmd_execute cmd st v conn1
               in if r = Inl Hangup then (Inl (UnexpectedEof 0 0), st2, conn2)
                  else (Inr (), case r of Inr _ \<Rightarrow> (st2, conn2) | Inl e \<Rightarrow> hook_error hooks st2 e conn2)))"
proof -
  from read_value_frame [where json = json, OF assms] obtain cs where
    r: "read_value json conn = (Inr v, set_input cs conn)"
    and cs: "chunks_pending cs = rest" "chunks_ending cs = ending (conn_stream conn)"
    by (auto simp: set_input_def)
  from r cs show ?thesis
    by (intro exI [of _ cs])
      (auto simp: dispatch_one_def dispatch_body_def router_get_def Let_def
          split: option.split prod.split sum.split ipc_error.split)
qed

theorem request_reaches_its_command_witness:
  "fst (snd (dispatch_one text_json (echo_router text_out) (Hooks text_out) 5
     (conn_new (client [Data (text_frame ''echo'')]) 64))) = 6"
proof -
  let ?conn = "conn_new (client [Data (text_frame ''echo'')]) 64"
  have p: "pending (conn_stream ?conn) = frame_bytes (map of_char ''echo'') @ []"
    by (simp add: text_frame_def)
  have v: "json_from_slice text_json (map of_char ''echo'') = Inr ''echo''" by code_simp
  have "commands (echo_router text_out) ''echo'' = Some (Echo text_out)"
    using router_get_single [of "Echo text_out" "''echo''"]
    by (simp add: router_get_def echo_router_def Echo_def)
  with request_reaches_its_command [where json = text_json and router = "echo_router text_out"
      and hooks = "Hooks text_out" and st = 5, OF p _ _ v]
  show ?thesis
    by (auto simp: Echo_def echo_execute_def reply_eq reply_outcome_def)
qed


text \<open>The state and the answers of the echo service after a list of requests.\<close>

lemma echo_fold:
  "fold (echo_step json) vs st = st + of_nat (length (filter (\<lambda>v. json_type_field json v = Some ''echo'') vs))"
  by (induction vs arbitrary: st) (simp_all add: echo_step_def)

lemma echo_answer_all:
  "echo.answer_all json out m vs st = concat (map (\<lambda>v. echo_answer json out m v 0) vs)"
  by (induction vs arbitrary: st) (simp_all add: echo_answer_def)

text \<open>
  A persistent session answers every request, in the order sent, whatever chunks the kernel
  delivers. For the echo service, an admitted client and any list of well-formed frames followed by
  an end of input, the answers are sent one after the other, the state counts the echoes, and the
  end decides the rest: an end of file or a reset closes without a word, any other fault, an
  oversized frame among them, is reported once by the \<open>error\<close> hook.
\<close>

theorem persistent_session_answers_in_order:
  assumes "allows nix auth stream" and "out_room stream = None"
    and "list_all2 (\<lambda>p v. length p \<le> m \<and> length p < 2 ^ 32 \<and> json_from_slice json p = Inr v) ps vs"
    and "pending stream = concat (map frame_bytes ps) @ rest"
    and "frame_spec m rest (ending stream) = Inl e"
  shows "\<exists>cs. handle_conn nix json stream st (echo_router out) (Hooks out) auth Persistent m =
    Some (st + of_nat (length (filter (\<lambda>v. json_type_field json v = Some ''echo'') vs)),
      set_input cs (push_out
        (concat (map (\<lambda>v. echo_answer json out m v 0) vs) @
         (if session_over e then [] else error_frame out m (frame_error_display e)))
        (conn_new stream m)))"
proof -
  let ?conn = "conn_new stream m"
  have "list_all2 (echo.request json m) ps vs"
    using assms(3) by (simp add: echo.request_def [abs_def])
  from echo.session_answers_all [OF this, of ?conn rest e out st] assms(2,4,5) obtain cs where
    "session_loop json (echo_router out) (Hooks out) st ?conn =
      Some (end_session (Hooks out) e (fold (echo_step json) vs st)
        (set_input cs (push_out (echo.answer_all json out m vs st) ?conn)))"
    by auto
  moreover have "end_session (Hooks out) e st' conn =
      (st', push_out (if session_over e then [] else error_frame out m (frame_error_display e)) conn)"
    if "out_room (conn_stream conn) = None" "conn_max_frame conn = m" for st' conn
    using that by (simp add: end_session_def Hooks_def reply_error_eq)
  ultimately show ?thesis
    using assms(1,2) by (intro exI [of _ cs]) (simp add: handle_conn_def Let_def echo_fold echo_answer_all)
qed

theorem persistent_session_answers_in_order_witness:
  "\<exists>cs. handle_conn no_nix text_json
      (client [Data (take 6 (text_frame ''echo'')), Data (drop 6 (text_frame ''echo'') @ text_frame ''no'')])
      5 (echo_router text_out) (Hooks text_out) AuthNone Persistent 64 =
    Some (6, set_input cs (push_out (text_frame ''echo'' @ text_frame ''error:unknown:no'')
      (conn_new (client [Data (take 6 (text_frame ''echo'')), Data (drop 6 (text_frame ''echo'') @ text_frame ''no'')]) 64)))"
proof -
  let ?s = "client [Data (take 6 (text_frame ''echo'')), Data (drop 6 (text_frame ''echo'') @ text_frame ''no'')]"
  let ?ps = "[map of_char ''echo'', map of_char ''no''] :: byte list list"
  have "list_all2 (\<lambda>p v. length p \<le> 64 \<and> length p < 2 ^ 32 \<and> json_from_slice text_json p = Inr v) ?ps [''echo'', ''no'']"
    by simp code_simp
  moreover have "pending ?s = concat (map frame_bytes ?ps) @ []"
    by (simp add: text_frame_def flip: append_assoc)
  moreover have "frame_spec 64 [] (ending ?s) = Inl (UnexpectedEof 0 4)"
    by (simp add: frame_spec_def exact_spec_def)
  ultimately have "\<exists>cs. handle_conn no_nix text_json ?s 5 (echo_router text_out) (Hooks text_out) AuthNone Persistent 64 =
    Some (5 + of_nat (length (filter (\<lambda>v. json_type_field text_json v = Some ''echo'') [''echo'', ''no''])),
      set_input cs (push_out
        (concat (map (\<lambda>v. echo_answer text_json text_out 64 v 0) [''echo'', ''no'']) @
         (if session_over (UnexpectedEof 0 4) then []
          else error_frame text_out 64 (frame_error_display (UnexpectedEof 0 4))))
        (conn_new ?s 64)))"
    by (intro persistent_session_answers_in_order [where ps = ?ps and rest = "[]"]) simp_all
  moreover have "echo_answer text_json text_out 64 ''echo'' 0 = text_frame ''echo''"
    and "echo_answer text_json text_out 64 ''no'' 0 = text_frame ''error:unknown:no''"
    by (simp_all add: echo_answer_def reply_outcome_def error_frame_def text_frame_def text_out_def)
  ultimately show ?thesis by (simp add: session_over_def)
qed

text \<open>
  C40: \<open>Hangup\<close> means two things. In a persistent session a command that returns it ends the session
  without any further call. In a one-shot session the same command makes the server call the
  \<open>error\<close> hook with the made-up error "read 0 of 0 bytes", which the hooks write to the
  client, although \<open>Hangup\<close> is there to end a session without writing an error.
\<close>

theorem hangup_reported_in_one_shot:
  assumes "allows nix auth stream" and "read_value json (conn_new stream m) = (Inr v, conn1)"
    and "json_type_field json v = Some name" and "router_get router name = Some cmd"
    and "cmd_execute cmd st v conn1 = (Inl Hangup, st2, conn2)"
  shows "handle_conn nix json stream st router hooks auth Persistent m = Some (st2, conn2) \<and>
    handle_conn nix json stream st router hooks auth OneShot m =
      Some (hook_error hooks st2 (FrameErr (UnexpectedEof 0 0)) conn2)"
  using assms
  by (simp add: handle_conn_def Let_def one_shot_def dispatch_one_def dispatch_body_def
      session_loop_step end_session_def session_over_def)

theorem hangup_reported_in_one_shot_witness:
  "map (\<lambda>session. map_option (\<lambda>(st, conn). outgoing (conn_stream conn))
      (handle_conn no_nix text_json (client [Data (text_frame ''done'')]) 5 (hangup_router text_out)
        (Hooks text_out) AuthNone session 64)) [Persistent, OneShot] =
   [Some (text_frame ''ok''),
    Some (text_frame ''ok'' @ text_frame ''error:connection closed: read 0 of 0 bytes'')]"
proof -
  let ?conn = "conn_new (client [Data (text_frame ''done'')]) 64"
  have p: "pending (conn_stream ?conn) = frame_bytes (map of_char ''done'') @ []"
    by (simp add: text_frame_def)
  have v: "json_from_slice text_json (map of_char ''done'') = Inr ''done''" by code_simp
  from read_value_frame [where json = text_json, OF p _ _ v] obtain cs where
    r: "read_value text_json ?conn = (Inr ''done'', set_input cs ?conn)"
    by (auto simp: set_input_def)
  have cmd: "router_get (hangup_router text_out) ''done'' = Some (HangupCmd text_out)"
    by (simp add: hangup_router_def router_get_single HangupCmd_def)
  have run: "cmd_execute (HangupCmd text_out) 5 ''done'' (set_input cs ?conn) =
      (Inl Hangup, 5, push_out (text_frame ''ok'') (set_input cs ?conn))"
    by (simp add: HangupCmd_def hangup_execute_def reply_eq reply_outcome_def text_out_def text_frame_def)
  have zero: "show_nat 0 = ''0''" by code_simp
  have err: "hook_error (Hooks text_out) 5 (FrameErr (UnexpectedEof 0 0))
        (push_out (text_frame ''ok'') (set_input cs ?conn)) =
      (5, push_out (text_frame ''error:connection closed: read 0 of 0 bytes'')
        (push_out (text_frame ''ok'') (set_input cs ?conn)))"
    using zero by (simp add: Hooks_def reply_error_eq error_frame_def reply_outcome_def text_out_def text_frame_def)
  from hangup_reported_in_one_shot [OF _ r _ cmd run, of no_nix AuthNone "Hooks text_out"] err
  show ?thesis by simp
qed

text \<open>
  C27: The client threads of the accept loop, cut at their calls, do what \<open>handle_conn\<close> does:
  the handler returns a state and a connection exactly if the steps of the thread, run alone, get
  to the end with them.
\<close>

theorem handler_steps_refine_handle_conn:
  "handle_conn nix json stream st router hooks auth session m = Some r \<longleftrightarrow>
   (\<exists>n. (handle_micro nix json router hooks auth session m ^^ n) (Starting stream, st) = returned r)"
proof
  assume "\<exists>n. (handle_micro nix json router hooks auth session m ^^ n) (Starting stream, st) = returned r"
  then obtain n where "(handle_micro nix json router hooks auth session m ^^ n) (Starting stream, st) = returned r" ..
  with left_to_do_steps [of nix json router hooks auth session m n "(Starting stream, st)"]
  show "handle_conn nix json stream st router hooks auth session m = Some r" by (simp add: returned_def)
next
  assume handled: "handle_conn nix json stream st router hooks auth session m = Some r"
  let ?next = "handle_micro nix json router hooks auth session m (Starting stream, st)"
  have "finishes nix json router hooks auth session m ?next r"
  proof (cases "allows nix auth stream")
    case True
    with handled left_to_do_finishes [of nix json router hooks auth session m "conn_new stream m" st r] show ?thesis
      by (simp add: handle_conn_finish Let_def)
  next
    case False
    with handled finishes_returned [of nix json router hooks auth session m "snd r" "fst r"] show ?thesis
      by (simp add: handle_conn_def Let_def returned_def)
  qed
  from finishes_step [OF this] show "\<exists>n. (handle_micro nix json router hooks auth session m ^^ n) (Starting stream, st) = returned r"
    by (simp add: finishes_def)
qed

end
