(* ===== verification/Server.thy ===== *)
theory Server
  imports Session_Service Bind
begin

text \<open>
  The accept loop of \<open>ipc/server.rs\<close>: a bound server, the acceptor thread with its client cap, and
  the client threads, interleaved by a step relation. The acceptor reads the counter and adds to it
  in two steps, as the code does; a client thread runs the steps of \<open>handle_micro\<close> and then takes
  itself off the counter. Reading a request, running its command and reporting an error are steps of
  their own, between which other threads run; one call of a command or hook is one step. A command or
  hook that panics unwinds its thread.
\<close>

section \<open>The server\<close>

record accept_policy =
  ap_auth :: auth
  ap_session :: session_mode
  ap_max_clients :: "usize option"
  ap_max_frame :: usize

record ('s, 'v) server =
  sv_listener :: nat
  sv_path :: path
  sv_max_clients :: "usize option"
  sv_max_frame :: usize
  sv_auth :: auth
  sv_session :: session_mode
  sv_router :: "('s, 'v) router"
  sv_hooks :: "('s, 'v) error_handler"

definition from_listener ::
  "nat \<Rightarrow> path \<Rightarrow> accept_policy \<Rightarrow> ('s, 'v) router \<Rightarrow> ('s, 'v) error_handler \<Rightarrow> ('s, 'v) server" where
  "from_listener listener p policy router hooks =
     \<lparr>sv_listener = listener, sv_path = p, sv_max_clients = ap_max_clients policy,
      sv_max_frame = ap_max_frame policy, sv_auth = ap_auth policy, sv_session = ap_session policy,
      sv_router = router, sv_hooks = hooks\<rparr>"

definition server_bind ::
  "nix_lib \<Rightarrow> nat \<Rightarrow> bind_options \<Rightarrow> accept_policy \<Rightarrow> ('s, 'v) router \<Rightarrow> ('s, 'v) error_handler \<Rightarrow>
   (sys, bind_error, ('s, 'v) server) fallible" where
  "server_bind nix pid opts policy router hooks =
     try_bind (bind nix pid opts) (\<lambda>listener.
       ok \<lparr>sv_listener = listener, sv_path = bo_path opts, sv_max_clients = ap_max_clients policy,
           sv_max_frame = ap_max_frame policy, sv_auth = ap_auth policy, sv_session = ap_session policy,
           sv_router = router, sv_hooks = hooks\<rparr>)"

text \<open>
  \<open>spawned\<close> is what the operating system answers to the request for the \<open>ctl\<close> thread. Where
  it refuses, the server that was moved into the thread is dropped, and its listener with it.
\<close>

definition server_serve_background ::
  "io_error option \<Rightarrow> ('s, 'v) server \<Rightarrow> (sys, io_error, ('s, 'v) server) fallible" where
  "server_serve_background spawned srv s =
     (case spawned of
        None \<Rightarrow> (Inr srv, s)
      | Some e \<Rightarrow> (Inl e, close_listener (sv_listener srv) s))"

definition serve_background ::
  "nix_lib \<Rightarrow> nat \<Rightarrow> io_error option \<Rightarrow> bind_options \<Rightarrow> accept_policy \<Rightarrow> ('s, 'v) router \<Rightarrow>
   ('s, 'v) error_handler \<Rightarrow> (sys, bind_error, ('s, 'v) server) fallible" where
  "serve_background nix pid spawned opts policy router hooks =
     try_bind (server_bind nix pid opts policy router hooks) (\<lambda>srv.
       map_err (BindIo ''ctl thread'') (server_serve_background spawned srv))"

section \<open>The accept loop\<close>

datatype acceptor_pc =
    Accepting | Checking unix_stream | Counting unix_stream | Spawning unix_stream | Stopped | Aborted

text \<open>
  \<open>panics\<close> counts the client threads that panicked; the code has no such variable, and no step
  looks at it. \<open>path_there\<close> is what \<open>path.exists()\<close> would say.
\<close>

record ('s, 'v) accept_state =
  clients :: atomic_usize
  shared :: 's
  acceptor :: acceptor_pc
  threads :: "nat \<rightharpoonup> 'v handler_pc"
  next_thread :: nat
  path_there :: bool
  panics :: nat

definition accept_start :: "'s \<Rightarrow> ('s, 'v) accept_state" where
  "accept_start st =
     \<lparr>clients = 0, shared = st, acceptor = Accepting, threads = Map.empty, next_thread = 0,
      path_there = True, panics = 0\<rparr>"

text \<open>
  The two blocking forms hand the server to the accept loop: what they start is the server and the
  first state of \<open>serve_listener\<close>. They return when that loop has stopped (\<open>serve_step\<close>), and then with
  success whatever happened in it.
\<close>

definition server_serve :: "('s, 'v) server \<Rightarrow> 's \<Rightarrow> ('s, 'v) server \<times> ('s, 'v) accept_state" where
  "server_serve srv st = (srv, accept_start st)"

definition serve ::
  "nix_lib \<Rightarrow> nat \<Rightarrow> bind_options \<Rightarrow> accept_policy \<Rightarrow> ('s, 'v) router \<Rightarrow> ('s, 'v) error_handler \<Rightarrow> 's \<Rightarrow>
   (sys, bind_error, ('s, 'v) server \<times> ('s, 'v) accept_state) fallible" where
  "serve nix pid opts policy router hooks st =
     try_bind (server_bind nix pid opts policy router hooks) (\<lambda>srv. ok (server_serve srv st))"

definition at_cap :: "('s, 'v) server \<Rightarrow> ('s, 'v) accept_state \<Rightarrow> bool" where
  "at_cap srv r = (case sv_max_clients srv of Some cap \<Rightarrow> unat (clients r) \<ge> cap | None \<Rightarrow> False)"

text \<open>One step of the acceptor between two accepts.\<close>

fun acceptor_micro :: "('s, 'v) server \<Rightarrow> acceptor_pc \<Rightarrow> ('s, 'v) accept_state \<Rightarrow> ('s, 'v) accept_state" where
  "acceptor_micro srv (Checking stream) r =
     (if at_cap srv r
      then r\<lparr>shared := fst (hook_reject (sv_hooks srv) (shared r) RejectBusy (conn_new stream (sv_max_frame srv))),
             acceptor := Accepting\<rparr>
      else r\<lparr>acceptor := if sv_max_clients srv = None then Spawning stream else Counting stream\<rparr>)"
| "acceptor_micro srv (Counting stream) r = r\<lparr>clients := clients r + 1, acceptor := Spawning stream\<rparr>"
| "acceptor_micro srv (Spawning stream) r =
     r\<lparr>threads := (threads r)(next_thread r \<mapsto> Starting stream), next_thread := Suc (next_thread r),
       acceptor := Accepting\<rparr>"
| "acceptor_micro srv pc r = r"

text \<open>The end of a client thread: the closure after \<open>handle_conn\<close> has returned.\<close>

definition leave :: "('s, 'v) server \<Rightarrow> nat \<Rightarrow> ('s, 'v) accept_state \<Rightarrow> ('s, 'v) accept_state" where
  "leave srv i r =
     r\<lparr>threads := (threads r)(i := None),
       clients := if sv_max_clients srv \<noteq> None then clients r - 1 else clients r\<rparr>"

datatype accept_action =
    Accepted unix_stream | AcceptFailed | AcceptorRuns | AcceptorPanics
  | ClientRuns nat | ClientPanics nat | ClientLeaves nat | PathChanges bool

inductive serve_step ::
  "nix_lib \<Rightarrow> 'v json_lib \<Rightarrow> ('s, 'v) server \<Rightarrow> ('s, 'v) accept_state \<Rightarrow> accept_action \<Rightarrow> ('s, 'v) accept_state \<Rightarrow> bool"
  for nix :: nix_lib and json :: "'v json_lib" and srv :: "('s, 'v) server" where
  accepted: "acceptor r = Accepting \<Longrightarrow>
     serve_step nix json srv r (Accepted stream) (r\<lparr>acceptor := Checking stream\<rparr>)"
| accept_failed: "acceptor r = Accepting \<Longrightarrow>
     serve_step nix json srv r AcceptFailed (r\<lparr>acceptor := if path_there r then Accepting else Stopped\<rparr>)"
| acceptor_runs: "acceptor r \<in> {Checking stream, Counting stream, Spawning stream} \<Longrightarrow>
     serve_step nix json srv r AcceptorRuns (acceptor_micro srv (acceptor r) r)"
| acceptor_panics: "acceptor r = Spawning stream \<or> acceptor r = Checking stream \<and> at_cap srv r \<Longrightarrow>
     serve_step nix json srv r AcceptorPanics (r\<lparr>shared := st, acceptor := Aborted\<rparr>)"
| client_runs: "threads r i = Some pc \<Longrightarrow>
     handle_micro nix json (sv_router srv) (sv_hooks srv) (sv_auth srv) (sv_session srv) (sv_max_frame srv)
       (pc, shared r) = (pc', st) \<Longrightarrow>
     serve_step nix json srv r (ClientRuns i) (r\<lparr>threads := (threads r)(i \<mapsto> pc'), shared := st\<rparr>)"
| client_panics: "threads r i = Some pc \<Longrightarrow> \<forall>conn. pc \<noteq> Returned conn \<Longrightarrow>
     serve_step nix json srv r (ClientPanics i)
       (r\<lparr>threads := (threads r)(i := None), shared := st, panics := Suc (panics r)\<rparr>)"
| client_leaves: "threads r i = Some (Returned conn) \<Longrightarrow>
     serve_step nix json srv r (ClientLeaves i) (leave srv i r)"
| path_changes: "serve_step nix json srv r (PathChanges there) (r\<lparr>path_there := there\<rparr>)"

abbreviation serve_runs ::
  "nix_lib \<Rightarrow> 'v json_lib \<Rightarrow> ('s, 'v) server \<Rightarrow> ('s, 'v) accept_state \<Rightarrow> accept_action list \<Rightarrow> ('s, 'v) accept_state \<Rightarrow> bool" where
  "serve_runs nix json srv \<equiv> runs (serve_step nix json srv)"

section \<open>The counter\<close>

text \<open>
  With a cap, the counter is at all times the number of client threads, plus the panicked ones,
  plus the one the acceptor is about to start. \<open>usize\<close> has 64 bits, so the cap is below
  \<open>2 ^ 64\<close>, and the counter never wraps.
\<close>

definition about_to_spawn :: "acceptor_pc \<Rightarrow> nat" where
  "about_to_spawn pc = (case pc of Spawning _ \<Rightarrow> 1 | _ \<Rightarrow> 0)"

definition counter_inv :: "usize \<Rightarrow> ('s, 'v) accept_state \<Rightarrow> bool" where
  "counter_inv cap r \<longleftrightarrow>
     finite (dom (threads r)) \<and> (\<forall>i \<ge> next_thread r. threads r i = None) \<and>
     (acceptor r \<noteq> Aborted \<longrightarrow>
        unat (clients r) = card (dom (threads r)) + panics r + about_to_spawn (acceptor r)) \<and>
     (acceptor r = Aborted \<longrightarrow>
        card (dom (threads r)) + panics r \<le> unat (clients r)) \<and>
     unat (clients r) \<le> cap \<and>
     (\<forall>stream. acceptor r = Counting stream \<longrightarrow> unat (clients r) < cap)"

lemma about_to_spawn_simps [simp]:
  "about_to_spawn Accepting = 0" "about_to_spawn (Checking s) = 0" "about_to_spawn (Counting s) = 0"
  "about_to_spawn (Spawning s) = 1" "about_to_spawn Stopped = 0" "about_to_spawn Aborted = 0"
  by (simp_all add: about_to_spawn_def)

lemma unat_plus_1: "unat w < n \<Longrightarrow> n < 2 ^ 64 \<Longrightarrow> unat (w + 1 :: 64 word) = Suc (unat w)"
  by (simp add: unat_word_ariths)

lemma unat_minus_1: "0 < unat (w :: 64 word) \<Longrightarrow> unat (w - 1) = unat w - 1"
  by (metis One_nat_def unat_eq_zero unat_minus_one less_not_refl)

lemma counter_inv_start: "counter_inv cap (accept_start st)"
  by (simp add: counter_inv_def accept_start_def)

lemma card_dom_upd: "finite (dom m) \<Longrightarrow> card (dom (m(i \<mapsto> x))) = (if m i = None then Suc (card (dom m)) else card (dom m))"
  by (auto simp: insert_absorb domIff card_insert_if)

lemma card_dom_remove: "finite (dom m) \<Longrightarrow> m i = Some x \<Longrightarrow> Suc (card (dom m - {i})) = card (dom m)"
  by (intro card.remove [symmetric]) auto

lemma counter_inv_step:
  assumes "serve_step nix json srv r a r'" and "sv_max_clients srv = Some cap" and "cap < 2 ^ 64"
    and "counter_inv cap r"
  shows "counter_inv cap r'"
  using assms(1)
proof cases
  case (accepted stream)
  with assms(4) show ?thesis by (simp add: counter_inv_def)
next
  case accept_failed
  with assms(4) show ?thesis by (simp add: counter_inv_def)
next
  case (acceptor_runs stream)
  then consider "acceptor r = Checking stream" | "acceptor r = Counting stream" | "acceptor r = Spawning stream"
    by auto
  then show ?thesis
  proof cases
    case 1
    with acceptor_runs assms(2,4) show ?thesis by (auto simp: counter_inv_def at_cap_def)
  next
    case 2
    with assms(4) have "unat (clients r) < cap" by (simp add: counter_inv_def)
    with 2 acceptor_runs assms(3,4) unat_plus_1 [OF this assms(3)] show ?thesis
      by (auto simp: counter_inv_def)
  next
    case 3
    with acceptor_runs assms(4) show ?thesis
      by (auto simp: counter_inv_def card_insert_if domIff)
  qed
next
  case (acceptor_panics stream st)
  with assms(4) show ?thesis by (auto simp: counter_inv_def)
next
  case (client_runs i pc pc' st)
  with assms(4) show ?thesis
    by (auto simp: counter_inv_def insert_absorb domIff)
next
  case (client_panics i pc st)
  with assms(4) card_dom_remove [of "threads r" i pc] show ?thesis
    by (auto simp: counter_inv_def)
next
  case (client_leaves i conn)
  then have card: "Suc (card (dom (threads r) - {i})) = card (dom (threads r))"
    using assms(4) by (intro card_dom_remove) (auto simp: counter_inv_def)
  with assms(4) have pos: "0 < unat (clients r)" by (cases "acceptor r = Aborted") (auto simp: counter_inv_def)
  from client_leaves card assms(2,4) pos show ?thesis
    by (auto simp: counter_inv_def leave_def unat_minus_1 [OF pos])
next
  case (path_changes there)
  have "counter_inv cap (r\<lparr>path_there := there\<rparr>) = counter_inv cap r" by (simp add: counter_inv_def)
  with path_changes assms(4) show ?thesis by simp
qed

lemma counter_inv_runs:
  assumes "serve_runs nix json srv r acts r'" and "sv_max_clients srv = Some cap" and "cap < 2 ^ 64"
    and "counter_inv cap r"
  shows "counter_inv cap r'"
  using assms(1,4) by (rule runs_invariant) (rule counter_inv_step [OF _ assms(2,3)])

lemma counter_inv_reachable:
  assumes "serve_runs nix json srv (accept_start st) acts r" and "sv_max_clients srv = Some cap" and "cap < 2 ^ 64"
  shows "counter_inv cap r"
  by (rule counter_inv_runs [OF assms counter_inv_start])

lemma counter_inv_le:
  assumes "counter_inv cap r"
  shows "finite (dom (threads r))"
    and "card (dom (threads r)) + panics r + about_to_spawn (acceptor r) \<le> unat (clients r)"
    and "unat (clients r) \<le> cap" and "acceptor r = Counting stream \<Longrightarrow> unat (clients r) < cap"
  using assms unfolding counter_inv_def by (cases "acceptor r = Aborted"; simp)+

text \<open>With as many panics as the cap, there is no thread and there will be none.\<close>

definition locked :: "usize \<Rightarrow> nat \<Rightarrow> ('s, 'v) accept_state \<Rightarrow> bool" where
  "locked cap k r \<longleftrightarrow> counter_inv cap r \<and> cap \<le> panics r \<and> next_thread r = k"

lemma locked_facts:
  assumes "locked cap k r"
  shows "threads r = Map.empty" and "acceptor r \<noteq> Counting stream" and "acceptor r \<noteq> Spawning stream"
    and "cap \<le> unat (clients r)"
proof -
  from assms have "cap \<le> panics r" and inv: "counter_inv cap r" by (simp_all add: locked_def)
  note le = this(1) counter_inv_le [OF inv]
  from le(1,3,4) have "card (dom (threads r)) = 0" and about: "about_to_spawn (acceptor r) = 0" by linarith+
  with le(2) show "threads r = Map.empty" by simp
  from le(1,3) show "cap \<le> unat (clients r)" by linarith
  with le(5) [of stream] show "acceptor r \<noteq> Counting stream" by fastforce
  from about show "acceptor r \<noteq> Spawning stream" by auto
qed

lemma locked_step:
  assumes "serve_step nix json srv r a r'" and "sv_max_clients srv = Some cap" and "cap < 2 ^ 64"
    and "locked cap k r"
  shows "locked cap k r'"
proof -
  have inv: "counter_inv cap r'"
    using assms counter_inv_step by (auto simp: locked_def)
  note facts = locked_facts [OF assms(4)]
  from assms(1) have "cap \<le> panics r' \<and> next_thread r' = k"
  proof cases
    case (acceptor_runs stream)
    with facts have "acceptor r = Checking stream" by simp
    with acceptor_runs facts(4) assms(2,4) show ?thesis by (simp add: locked_def at_cap_def)
  qed (use facts(1) assms(4) in \<open>auto simp: locked_def\<close>)
  with inv show ?thesis by (simp add: locked_def)
qed

lemma locked_runs:
  assumes "serve_runs nix json srv r acts r'" and "sv_max_clients srv = Some cap" and "cap < 2 ^ 64"
    and "locked cap k r"
  shows "locked cap k r'"
  using assms(1,4) by (rule runs_invariant) (rule locked_step [OF _ assms(2,3)])

section \<open>An executable run\<close>

fun serve_next ::
  "nix_lib \<Rightarrow> 'v json_lib \<Rightarrow> ('s, 'v) server \<Rightarrow> accept_action \<Rightarrow> ('s, 'v) accept_state \<Rightarrow> ('s, 'v) accept_state option" where
  "serve_next nix json srv (Accepted stream) r =
     (case acceptor r of Accepting \<Rightarrow> Some (r\<lparr>acceptor := Checking stream\<rparr>) | _ \<Rightarrow> None)"
| "serve_next nix json srv AcceptFailed r =
     (case acceptor r of Accepting \<Rightarrow> Some (r\<lparr>acceptor := if path_there r then Accepting else Stopped\<rparr>) | _ \<Rightarrow> None)"
| "serve_next nix json srv AcceptorRuns r =
     (case acceptor r of
        Checking _ \<Rightarrow> Some (acceptor_micro srv (acceptor r) r)
      | Counting _ \<Rightarrow> Some (acceptor_micro srv (acceptor r) r)
      | Spawning _ \<Rightarrow> Some (acceptor_micro srv (acceptor r) r)
      | _ \<Rightarrow> None)"
| "serve_next nix json srv AcceptorPanics r =
     (case acceptor r of Spawning _ \<Rightarrow> Some (r\<lparr>acceptor := Aborted\<rparr>) | _ \<Rightarrow> None)"
| "serve_next nix json srv (ClientRuns i) r =
     (case threads r i of
        None \<Rightarrow> None
      | Some pc \<Rightarrow>
          (case handle_micro nix json (sv_router srv) (sv_hooks srv) (sv_auth srv) (sv_session srv)
                  (sv_max_frame srv) (pc, shared r) of
             (pc', st) \<Rightarrow> Some (r\<lparr>threads := (threads r)(i \<mapsto> pc'), shared := st\<rparr>)))"
| "serve_next nix json srv (ClientPanics i) r =
     (case threads r i of
        None \<Rightarrow> None
      | Some (Returned _) \<Rightarrow> None
      | Some _ \<Rightarrow> Some (r\<lparr>threads := (threads r)(i := None), panics := Suc (panics r)\<rparr>))"
| "serve_next nix json srv (ClientLeaves i) r =
     (case threads r i of Some (Returned _) \<Rightarrow> Some (leave srv i r) | _ \<Rightarrow> None)"
| "serve_next nix json srv (PathChanges there) r = Some (r\<lparr>path_there := there\<rparr>)"

fun serve_exec ::
  "nix_lib \<Rightarrow> 'v json_lib \<Rightarrow> ('s, 'v) server \<Rightarrow> accept_action list \<Rightarrow> ('s, 'v) accept_state \<Rightarrow> ('s, 'v) accept_state option" where
  "serve_exec nix json srv [] r = Some r"
| "serve_exec nix json srv (a # acts) r = Option.bind (serve_next nix json srv a r) (serve_exec nix json srv acts)"

lemma serve_next_step: "serve_next nix json srv a r = Some r' \<Longrightarrow> serve_step nix json srv r a r'"
proof (induction nix json srv a r rule: serve_next.induct)
  case (3 nix json srv r)
  then show ?case
    using serve_step.acceptor_runs [where nix = nix and json = json and srv = srv and r = r]
    by (cases "acceptor r") auto
next
  case (4 nix json srv r)
  then show ?case
    using serve_step.acceptor_panics [where nix = nix and json = json and srv = srv and r = r and st = "shared r"]
    by (cases "acceptor r") auto
next
  case (5 nix json srv i r)
  then show ?case by (auto intro: serve_step.client_runs split: option.splits prod.splits)
next
  case (6 nix json srv i r)
  then show ?case
    using serve_step.client_panics [where nix = nix and json = json and srv = srv and r = r and i = i and st = "shared r"]
    by (auto split: option.splits handler_pc.splits)
qed (auto intro: serve_step.intros split: acceptor_pc.splits option.splits handler_pc.splits)

lemma serve_exec_runs: "serve_exec nix json srv acts r = Some r' \<Longrightarrow> serve_runs nix json srv r acts r'"
  by (induction acts arbitrary: r) (auto simp: bind_eq_Some_conv intro: runs.intros dest: serve_next_step)

section \<open>What ends the loop\<close>

inductive_cases accept_failedE: "serve_step nix json srv r AcceptFailed r'"

lemma acceptor_micro_lives: "acceptor r \<noteq> Stopped \<Longrightarrow> acceptor r \<noteq> Aborted \<Longrightarrow>
  acceptor (acceptor_micro srv (acceptor r) r) \<noteq> Stopped \<and> acceptor (acceptor_micro srv (acceptor r) r) \<noteq> Aborted"
  by (cases "acceptor r") auto

lemma accept_loop_lives:
  fixes srv :: "('s, 'v) server"
  assumes "serve_runs nix json srv r acts r'" and "AcceptFailed \<notin> set acts" and "AcceptorPanics \<notin> set acts"
    and "acceptor r \<noteq> Stopped \<and> acceptor r \<noteq> Aborted"
  shows "acceptor r' \<noteq> Stopped \<and> acceptor r' \<noteq> Aborted"
  using assms(1,4)
proof (rule runs_invariant)
  fix r r' :: "('s, 'v) accept_state" and a
  assume a: "a \<in> set acts" and r: "acceptor r \<noteq> Stopped \<and> acceptor r \<noteq> Aborted"
  assume "serve_step nix json srv r a r'"
  then show "acceptor r' \<noteq> Stopped \<and> acceptor r' \<noteq> Aborted"
  proof cases
    case (acceptor_runs stream)
    with r acceptor_micro_lives [of r srv] show ?thesis by simp
  qed (use a r assms(2,3) in \<open>auto simp: leave_def\<close>)
qed

section \<open>Properties\<close>

text \<open>The server of the witnesses: the echo service with a given cap.\<close>

definition echo_server :: "usize option \<Rightarrow> (atomic_usize, string) server" where
  "echo_server cap =
     from_listener 0 ''/run/d.sock''
       \<lparr>ap_auth = AuthNone, ap_session = Persistent, ap_max_clients = cap, ap_max_frame = 64\<rparr>
       (echo_router text_out) (Hooks text_out)"

lemma echo_server_simps [simp]:
  "sv_max_clients (echo_server cap) = cap"
  "sv_auth (echo_server cap) = AuthNone"
  "sv_max_frame (echo_server cap) = 64"
  "sv_hooks (echo_server cap) = Hooks text_out"
  by (simp_all add: echo_server_def from_listener_def)

definition one_client :: "accept_action list" where
  "one_client = [Accepted (client []), AcceptorRuns, AcceptorRuns, AcceptorRuns]"

lemma one_client_runs:
  assumes "acceptor r = Accepting" and "unat (clients r) < cap"
  shows "serve_runs no_nix text_json (echo_server (Some cap)) r one_client
    (r\<lparr>clients := clients r + 1, threads := (threads r)(next_thread r \<mapsto> Starting (client [])),
      next_thread := Suc (next_thread r)\<rparr>)"
  by (rule serve_exec_runs) (use assms in \<open>simp add: one_client_def at_cap_def\<close>)

text \<open>
  C7: The client cap holds in every interleaving. However accepts, client steps, panics and departures
  interleave, the number of client threads is never above the cap, although the acceptor reads the
  counter and adds to it in two separate steps; the counter never misses a thread and never wraps.
\<close>

theorem client_cap_holds:
  assumes "serve_runs nix json srv (accept_start st) acts r"
    and "sv_max_clients srv = Some cap" and "cap < 2 ^ 64"
  shows "finite (dom (threads r)) \<and> card (dom (threads r)) + panics r \<le> unat (clients r) \<and>
    unat (clients r) \<le> cap"
  using counter_inv_le [OF counter_inv_reachable [OF assms]] by linarith

theorem client_cap_holds_witness:
  "\<exists>r. serve_runs no_nix text_json (echo_server (Some 1)) (accept_start 0) one_client r \<and>
     threads r 0 = Some (Starting (client [])) \<and> card (dom (threads r)) + panics r \<le> 1"
proof -
  let ?r = "(accept_start 0)\<lparr>clients := 1, threads := [0 \<mapsto> Starting (client [])], next_thread := 1\<rparr>"
  have run: "serve_runs no_nix text_json (echo_server (Some 1)) (accept_start (0 :: atomic_usize)) one_client ?r"
    using one_client_runs [of "accept_start 0" 1] by (simp add: accept_start_def)
  from client_cap_holds [OF run, of 1] have "card (dom (threads ?r)) + panics ?r \<le> 1"
    by (simp add: accept_start_def)
  with run show ?thesis by (intro exI [of _ ?r]) simp
qed

text \<open>
  C28: Who is let in is decided by the threads there are and the ones that panicked. When the acceptor
  looks at a new connection and those together reach the cap, it calls the \<open>reject\<close> hook with
  \<open>Busy\<close> and goes back to accepting, starting nothing; otherwise it counts the client and starts
  a thread for it.
\<close>

theorem admission_is_exact:
  assumes "serve_runs nix json srv (accept_start st) acts r"
    and "sv_max_clients srv = Some cap" and "cap < 2 ^ 64" and "acceptor r = Checking stream"
  shows "serve_runs nix json srv r
    (if cap \<le> card (dom (threads r)) + panics r then [AcceptorRuns] else [AcceptorRuns, AcceptorRuns, AcceptorRuns])
    (if cap \<le> card (dom (threads r)) + panics r
     then r\<lparr>shared := fst (hook_reject (sv_hooks srv) (shared r) RejectBusy (conn_new stream (sv_max_frame srv))),
            acceptor := Accepting\<rparr>
     else r\<lparr>clients := clients r + 1, threads := (threads r)(next_thread r \<mapsto> Starting stream),
            next_thread := Suc (next_thread r), acceptor := Accepting\<rparr>)"
proof -
  have "unat (clients r) = card (dom (threads r)) + panics r"
    using counter_inv_reachable [OF assms(1-3)] assms(4) by (simp add: counter_inv_def)
  then have cap: "at_cap srv r \<longleftrightarrow> cap \<le> card (dom (threads r)) + panics r"
    using assms(2) by (simp add: at_cap_def)
  show ?thesis
    by (rule serve_exec_runs) (use cap assms(2,4) in auto)
qed

theorem admission_is_exact_witness:
  "\<exists>r r'. acceptor r = Checking (client []) \<and> threads r \<noteq> Map.empty \<and>
     serve_runs no_nix text_json (echo_server (Some 1)) r [AcceptorRuns] r' \<and> acceptor r' = Accepting"
proof -
  let ?r = "(accept_start 0)\<lparr>clients := 1, threads := [0 \<mapsto> Starting (client [])], next_thread := 1,
    acceptor := Checking (client [])\<rparr>"
  have run: "serve_runs no_nix text_json (echo_server (Some 1)) (accept_start (0 :: atomic_usize))
      (one_client @ [Accepted (client [])]) ?r"
    by (rule serve_exec_runs) (simp add: one_client_def at_cap_def accept_start_def)
  let ?r' = "?r\<lparr>acceptor := Accepting\<rparr>"
  from admission_is_exact [OF run, of 1 "client []"]
  have "serve_runs no_nix text_json (echo_server (Some 1)) ?r [AcceptorRuns] ?r'"
    by (simp add: accept_start_def Hooks_def reply_error_def)
  then show ?thesis
    by (intro exI [of _ ?r] exI [of _ ?r']) simp
qed

text \<open>
  C34: A client that panics costs a place for good. The counter is taken down after \<open>handle_conn\<close>
  returns and not when it unwinds; once as many client threads as the cap have panicked, there is
  no client thread left, and no sequence of steps, however long, starts another one: every later
  client is turned away as busy.
\<close>

theorem panics_lock_the_server:
  assumes "serve_runs nix json srv (accept_start st) acts r"
    and "sv_max_clients srv = Some cap" and "cap < 2 ^ 64" and "cap \<le> panics r"
    and "serve_runs nix json srv r later r'"
  shows "threads r' = Map.empty \<and> next_thread r' = next_thread r"
proof -
  have "locked cap (next_thread r) r"
    using counter_inv_reachable [OF assms(1-3)] assms(4) by (simp add: locked_def)
  then have "locked cap (next_thread r) r'" by (rule locked_runs [OF assms(5,2,3)])
  with locked_facts(1) [OF this] show ?thesis by (simp add: locked_def)
qed

theorem panics_lock_the_server_witness:
  "\<exists>r. serve_runs no_nix text_json (echo_server (Some 1)) (accept_start 0) (one_client @ [ClientPanics 0]) r \<and>
     (\<forall>later r'. serve_runs no_nix text_json (echo_server (Some 1)) r later r' \<longrightarrow> threads r' = Map.empty)"
proof -
  let ?r = "(accept_start 0)\<lparr>clients := 1, next_thread := 1, panics := 1\<rparr>"
  have run: "serve_runs no_nix text_json (echo_server (Some 1)) (accept_start (0 :: atomic_usize))
      (one_client @ [ClientPanics 0]) ?r"
    by (rule serve_exec_runs) (simp add: one_client_def at_cap_def accept_start_def)
  with panics_lock_the_server [OF run, of 1] show ?thesis
    by (intro exI [of _ ?r]) (simp add: accept_start_def)
qed

text \<open>
  The accept loop does not end when the socket path disappears. As long as \<open>accept\<close> does not
  fail and no thread of the loop panics, the acceptor never stops, whether the path is there or
  not; the path is looked at after a failed accept only, and a failed accept stops the loop exactly
  if the path is gone.
\<close>

theorem accept_loop_ends_on_accept_error_only:
  assumes "serve_runs nix json srv (accept_start st) acts r"
    and "AcceptFailed \<notin> set acts" and "AcceptorPanics \<notin> set acts"
  shows "acceptor r \<noteq> Stopped \<and> acceptor r \<noteq> Aborted \<and>
    (\<forall>r'. serve_step nix json srv r AcceptFailed r' \<longrightarrow> (acceptor r' = Stopped \<longleftrightarrow> \<not> path_there r))"
proof -
  have "acceptor r \<noteq> Stopped \<and> acceptor r \<noteq> Aborted"
    using assms by (rule accept_loop_lives) (simp add: accept_start_def)
  then show ?thesis by (auto elim!: accept_failedE)
qed

theorem accept_loop_ends_on_accept_error_only_witness:
  "\<exists>r. serve_runs no_nix text_json (echo_server (Some 1)) (accept_start 0) (PathChanges False # one_client) r \<and>
     \<not> path_there r \<and> acceptor r \<noteq> Stopped"
proof -
  let ?acts = "PathChanges False # one_client"
  have "\<exists>r. serve_exec no_nix text_json (echo_server (Some 1)) ?acts (accept_start (0 :: atomic_usize)) = Some r \<and>
      \<not> path_there r"
    by (simp add: one_client_def at_cap_def accept_start_def)
  then obtain r where run: "serve_runs no_nix text_json (echo_server (Some 1)) (accept_start (0 :: atomic_usize)) ?acts r"
    and gone: "\<not> path_there r"
    using serve_exec_runs by blast
  have "acceptor r \<noteq> Stopped"
    using accept_loop_ends_on_accept_error_only [OF run] by (simp add: one_client_def)
  with run gone show ?thesis by blast
qed

end
