(* ===== verification/Chunking.thy ===== *)
theory Chunking
  imports Session_Service
begin

text \<open>
  How the kernel cuts a client's bytes into reads is not seen by the server. The reference is the
  stream that hands out one byte per read; reading, replying and whole sessions do on any stream what
  they do on that one.
\<close>

section \<open>One byte at a time\<close>

fun chunk_bytes :: "chunk \<Rightarrow> chunk list" where
  "chunk_bytes (Data bs) = map (\<lambda>b. Data [b]) bs"
| "chunk_bytes (Broken e) = [Broken e]"

definition bytewise :: "unix_stream \<Rightarrow> unix_stream" where
  "bytewise s = s\<lparr>incoming := concat (map chunk_bytes (incoming s))\<rparr>"

lemma bytewise_simps [simp]:
  "stream_id (bytewise s) = stream_id s" "outgoing (bytewise s) = outgoing s" "out_room (bytewise s) = out_room s"
  "incoming (bytewise s) = concat (map chunk_bytes (incoming s))"
  by (simp_all add: bytewise_def)

lemma stream_read_byte: "0 < n \<Longrightarrow> stream_read (s\<lparr>incoming := Data [b] # cs\<rparr>) n = (Inr [b], s\<lparr>incoming := cs\<rparr>)"
  by (cases n) (simp_all add: stream_read_def)

lemma read_exact_from_bytes:
  "length filled + length bs \<le> needed \<Longrightarrow>
   read_exact_from stream_read needed filled (s\<lparr>incoming := map (\<lambda>b. Data [b]) bs @ cs\<rparr>) =
   read_exact_from stream_read needed (filled @ bs) (s\<lparr>incoming := cs\<rparr>)"
proof (induction bs arbitrary: filled)
  case (Cons b bs)
  then show ?case
    by (subst read_exact_from.simps) (simp add: stream_read_byte)
qed simp

lemma chunks_read_bytewise:
  "chunks_read cs n = (Inr bs, cs') \<Longrightarrow>
   concat (map chunk_bytes cs) = map (\<lambda>b. Data [b]) bs @ concat (map chunk_bytes cs')"
  by (induction cs n rule: chunks_read.induct)
    (auto split: if_splits simp flip: map_append)

lemma chunks_read_bytewise_end:
  "chunks_read cs n = (Inr [], cs') \<Longrightarrow> 0 < n \<Longrightarrow> concat (map chunk_bytes cs) = [] \<and> cs' = []"
  by (induction cs n rule: chunks_read.induct) (auto split: if_splits)

lemma chunks_read_bytewise_error:
  "chunks_read cs n = (Inl e, cs') \<Longrightarrow>
   concat (map chunk_bytes cs) = Broken e # concat (map chunk_bytes cs')"
  by (induction cs n rule: chunks_read.induct) (auto split: if_splits)

lemma read_exact_from_bytewise:
  "commutes bytewise (read_exact_from stream_read needed filled)"
proof (rule commutesI)
  fix s r t
  assume "read_exact_from stream_read needed filled s = (r, t)"
  then show "read_exact_from stream_read needed filled (bytewise s) = (r, bytewise t)"
  proof (induction "needed - length filled" arbitrary: filled s rule: less_induct)
    case less
    show ?case
    proof (cases "length filled < needed")
      case False
      with less.prems show ?thesis by (simp add: read_exact_from.simps [of stream_read needed filled])
    next
      case more: True
      let ?n = "needed - length filled"
      obtain r1 cs where rd: "chunks_read (incoming s) ?n = (r1, cs)" by fastforce
      show ?thesis
      proof (cases r1)
        case (Inl e)
        with less.prems more rd chunks_read_bytewise_error [of "incoming s" ?n e cs] show ?thesis
          by (auto simp: read_exact_from.simps [of stream_read needed filled] stream_read_def bytewise_def)
      next
        case (Inr bs)
        show ?thesis
        proof (cases "bs = []")
          case True
          have e: "concat (map chunk_bytes (incoming s)) = []" "cs = []"
            using chunks_read_bytewise_end [of "incoming s" ?n cs] rd Inr True more by simp_all
          with less.prems more rd Inr True show ?thesis
            by (auto simp add: read_exact_from.simps [of stream_read needed filled] stream_read_def bytewise_def e(1)
                simp del: concat_eq_Nil_conv)
        next
          case False
          have len: "length bs \<le> ?n" using rd Inr chunks_read_at_most by blast
          have go: "read_exact_from stream_read needed (filled @ bs) (s\<lparr>incoming := cs\<rparr>) = (r, t)"
            using less.prems more rd Inr False
            by (simp add: read_exact_from.simps [of stream_read needed filled] stream_read_def)
          have "read_exact_from stream_read needed (filled @ bs) (bytewise (s\<lparr>incoming := cs\<rparr>)) = (r, bytewise t)"
            using False more by (intro less.hyps go) (auto simp: diff_less_mono2)
          with read_exact_from_bytes [of filled bs needed "concat (map chunk_bytes cs)" s] len more
            chunks_read_bytewise [of "incoming s" ?n bs cs] rd Inr
          show ?thesis by (simp add: bytewise_def)
        qed
      qed
    qed
  qed
qed

section \<open>Connections\<close>

definition bytewise_conn :: "connection \<Rightarrow> connection" where
  "bytewise_conn conn = conn\<lparr>conn_stream := bytewise (conn_stream conn)\<rparr>"

lemma bytewise_conn_simps [simp]:
  "conn_stream (bytewise_conn conn) = bytewise (conn_stream conn)"
  "conn_max_frame (bytewise_conn conn) = conn_max_frame conn"
  "bytewise_conn (conn_new stream m) = conn_new (bytewise stream) m"
  by (simp_all add: bytewise_conn_def conn_new_def)

lemma commutes_on_stream [commutes_intros]: "commutes bytewise m \<Longrightarrow> commutes bytewise_conn (on_stream m)"
  by (rule commutesI) (auto simp: on_stream_eq bytewise_conn_def dest: commutesD)

lemma read_frame_bytes_bytewise: "commutes bytewise (read_frame_bytes stream_read m)"
  unfolding read_frame_bytes_def read_exact_def Let_def
  by (rule commutes_try_bind, rule read_exact_from_bytewise)
    (auto intro!: commutesI simp: commutesD [OF read_exact_from_bytewise] split: if_splits)

lemma read_json_bytewise: "commutes bytewise_conn (read_json from_slice)"
proof -
  have "commutes bytewise (read_frame_with_limit stream_read from_slice m)" for m
    unfolding read_frame_with_limit_def
    by (intro commutes_intros read_frame_bytes_bytewise) (auto intro: commutes_intros split: sum.split)
  note blind = commutesD [OF commutes_on_stream [OF this]]
  show ?thesis
    by (rule commutesI) (simp add: read_json_def blind)
qed

lemma stream_write_all_bytewise: "commutes bytewise (stream_write_all bs)"
  by (rule commutesI) (auto simp: stream_write_all_def bytewise_def split: option.splits)

lemma stream_flush_bytewise: "commutes bytewise stream_flush"
  by (rule commutesI) (simp add: stream_flush_def)

lemma reply_bytewise: "commutes bytewise_conn (reply to_vec msg)"
proof -
  have body: "commutes bytewise (try_bind (map_err Io (stream_write_all h)) (\<lambda>_.
      try_bind (map_err Io (stream_write_all p)) (\<lambda>_. try_bind (map_err Io stream_flush) (\<lambda>_. ok ()))))"
    for h p :: "byte list"
    by (intro commutes_intros stream_write_all_bytewise stream_flush_bytewise)
  have bytes: "commutes bytewise (write_frame_bytes stream_write_all stream_flush p m)" for p m
    by (rule commutesI) (cases "m < length p", simp_all add: write_frame_bytes_def Let_def commutesD [OF body [simplified]])
  have "commutes bytewise (write_frame_with_limit stream_write_all stream_flush to_vec msg m)" for m
    by (rule commutesI)
      (cases "to_vec msg", simp_all add: write_frame_with_limit_def commutesD [OF bytes])
  note blind = commutesD [OF commutes_on_stream [OF this]]
  show ?thesis
    by (rule commutesI) (simp add: reply_def blind)
qed

section \<open>Sessions\<close>

text \<open>
  Commands and hooks that use the connection through \<open>reply\<close> and \<open>read_json\<close> only, and so do not see
  how the input is cut.
\<close>

definition blind_execute :: "('s, 'v) command \<Rightarrow> bool" where
  "blind_execute cmd \<longleftrightarrow> (\<forall>st v conn. cmd_execute cmd st v (bytewise_conn conn) =
     apsnd (apsnd bytewise_conn) (cmd_execute cmd st v conn))"

definition chunk_blind :: "('s, 'v) router \<Rightarrow> ('s, 'v) error_handler \<Rightarrow> bool" where
  "chunk_blind router hooks \<longleftrightarrow>
     (\<forall>n cmd. router_get router n = Some cmd \<longrightarrow> blind_execute cmd) \<and>
     (\<forall>st n v. commutes bytewise_conn (hook_unknown hooks st n v)) \<and>
     (\<forall>st e. commutes bytewise_conn (hook_error hooks st e)) \<and>
     (\<forall>st reason. commutes bytewise_conn (hook_reject hooks st reason))"

lemma chunk_blindD:
  assumes "chunk_blind router hooks"
  shows "router_get router n = Some cmd \<Longrightarrow>
      cmd_execute cmd st v (bytewise_conn conn) = apsnd (apsnd bytewise_conn) (cmd_execute cmd st v conn)"
    and "hook_unknown hooks st name v (bytewise_conn conn) = apsnd bytewise_conn (hook_unknown hooks st name v conn)"
    and "hook_error hooks st e (bytewise_conn conn) = apsnd bytewise_conn (hook_error hooks st e conn)"
    and "hook_reject hooks st reason (bytewise_conn conn) = apsnd bytewise_conn (hook_reject hooks st reason conn)"
  using assms by (auto simp: chunk_blind_def blind_execute_def commutes_def)

lemma dispatch_body_bytewise:
  assumes "chunk_blind router hooks" and "dispatch_body json router hooks st v conn = (r, st', conn')"
  shows "dispatch_body json router hooks st v (bytewise_conn conn) = (r, st', bytewise_conn conn')"
  using assms(2) chunk_blindD [OF assms(1)]
  by (auto simp: dispatch_body_def split: option.splits prod.splits sum.splits ipc_error.splits)

lemma dispatch_one_bytewise:
  assumes "chunk_blind router hooks" and "dispatch_one json router hooks st conn = (r, st', conn')"
  shows "dispatch_one json router hooks st (bytewise_conn conn) = (r, st', bytewise_conn conn')"
proof -
  obtain r1 conn1 where v: "read_value json conn = (r1, conn1)" by fastforce
  have "read_value json (bytewise_conn conn) = (r1, bytewise_conn conn1)"
    using commutesD [OF read_json_bytewise v [unfolded read_value_def]] by (simp add: read_value_def)
  with v assms(2) dispatch_body_bytewise [OF assms(1)] show ?thesis
    by (cases r1) (auto simp: dispatch_one_def)
qed

lemma end_session_bytewise:
  assumes "chunk_blind router hooks"
  shows "end_session hooks e st (bytewise_conn conn) = apsnd bytewise_conn (end_session hooks e st conn)"
  by (simp add: end_session_def chunk_blindD [OF assms])

lemma session_loop_bytewise_Some:
  assumes "session_loop json router hooks st conn = Some r" and "chunk_blind router hooks"
  shows "session_loop json router hooks st (bytewise_conn conn) = Some (apsnd bytewise_conn r)"
  using assms
proof (induction json router hooks st conn r rule: session_loop.raw_induct [rotated, consumes 1])
  case (1 loop json router hooks st conn r)
  obtain res st' conn' where d: "dispatch_one json router hooks st conn = (res, st', conn')"
    by (metis prod.collapse)
  note d' = dispatch_one_bytewise [OF 1(3) d]
  show ?case
  proof (cases res)
    case (Inl e)
    with d d' 1(2) show ?thesis
      by (subst session_loop_step) (auto simp: end_session_bytewise [OF 1(3)])
  next
    case (Inr u)
    with d 1(2) have "loop json router hooks st' conn' = Some r" by simp
    from 1(1) [OF this 1(3)] Inr d' show ?thesis by (subst session_loop_step) simp
  qed
qed

text \<open>The other way round: a session on the bytewise stream ends only if the session itself does.\<close>

lemma session_loop_bytewise_ends:
  assumes "session_loop json router hooks st bconn = Some r" and "chunk_blind router hooks" and "bconn = bytewise_conn conn"
  shows "session_loop json router hooks st conn \<noteq> None"
  using assms
proof (induction json router hooks st bconn r arbitrary: conn rule: session_loop.raw_induct [rotated, consumes 1])
  case (1 loop json router hooks st bconn r)
  obtain res st' conn' where d: "dispatch_one json router hooks st conn = (res, st', conn')"
    by (metis prod.collapse)
  note d' = dispatch_one_bytewise [OF 1(3) d]
  show ?case
  proof (cases res)
    case (Inl e)
    with d show ?thesis by (subst session_loop_step) simp
  next
    case (Inr u)
    with d' 1(2,4) have "loop json router hooks st' (bytewise_conn conn') = Some r" by simp
    from 1(1) [OF this 1(3) refl] Inr d show ?thesis by (subst session_loop_step) simp
  qed
qed

lemma session_loop_bytewise:
  assumes "chunk_blind router hooks"
  shows "session_loop json router hooks st (bytewise_conn conn) =
    map_option (apsnd bytewise_conn) (session_loop json router hooks st conn)"
proof (cases "session_loop json router hooks st conn")
  case None
  then have "session_loop json router hooks st (bytewise_conn conn) = None"
    using session_loop_bytewise_ends [OF _ assms refl, of json st conn]
    by (cases "session_loop json router hooks st (bytewise_conn conn)") simp_all
  with None show ?thesis by simp
next
  case (Some r)
  with session_loop_bytewise_Some [OF Some assms] show ?thesis by simp
qed

text \<open>The credentials of a peer belong to the socket, not to what has been read from it.\<close>

definition creds_by_socket :: "nix_lib \<Rightarrow> bool" where
  "creds_by_socket nix \<longleftrightarrow> (\<forall>s t. stream_id s = stream_id t \<longrightarrow> peer_credentials nix s = peer_credentials nix t)"

lemma allows_bytewise: "creds_by_socket nix \<Longrightarrow> allows nix auth (bytewise s) = allows nix auth s"
proof -
  assume "creds_by_socket nix"
  then have "peer_credentials nix (bytewise s) = peer_credentials nix s"
    using bytewise_simps(1) unfolding creds_by_socket_def by blast
  then have "peer_uid nix (bytewise s) = peer_uid nix s" by (simp add: peer_uid_def)
  then show ?thesis by (cases auth) simp_all
qed

lemma handle_conn_bytewise:
  assumes "chunk_blind router hooks" and "creds_by_socket nix"
  shows "handle_conn nix json (bytewise stream) st router hooks auth session m =
    map_option (apsnd bytewise_conn) (handle_conn nix json stream st router hooks auth session m)"
proof -
  have one: "one_shot json router hooks st (bytewise_conn conn) = apsnd bytewise_conn (one_shot json router hooks st conn)" for conn
    using dispatch_one_bytewise [OF assms(1)] chunk_blindD(3) [OF assms(1)]
    by (cases "dispatch_one json router hooks st conn") (auto simp: one_shot_def split: sum.split)
  show ?thesis
    using one [of "conn_new stream m"] session_loop_bytewise [OF assms(1), of json st "conn_new stream m"]
      chunk_blindD(4) [OF assms(1), of st RejectAuth "conn_new stream m"]
    by (simp add: handle_conn_def Let_def allows_bytewise [OF assms(2)] split: session_mode.split)
qed

section \<open>The echo service\<close>

lemma reply_error_bytewise: "commutes bytewise_conn (reply_error out msg st)"
proof (rule commutesI)
  fix conn st' conn'
  assume "reply_error out msg st conn = (st', conn')"
  then show "reply_error out msg st (bytewise_conn conn) = (st', bytewise_conn conn')"
    using commutesD [OF reply_bytewise, of "json_to_vec out" "json_text_object out ''error'' msg" conn]
    by (cases "reply (json_to_vec out) (json_text_object out ''error'' msg) conn") (simp add: reply_error_def)
qed

lemma echo_chunk_blind: "chunk_blind (echo_router out) (Hooks out)"
proof -
  have "echo_execute out st v (bytewise_conn conn) = apsnd (apsnd bytewise_conn) (echo_execute out st v conn)" for st v conn
    using commutesD [OF reply_bytewise, of "json_to_vec out" v conn]
    by (cases "reply (json_to_vec out) v conn") (auto simp: echo_execute_def split: sum.split)
  then show ?thesis
    by (auto simp: chunk_blind_def blind_execute_def echo_router_def router_get_single Echo_def Hooks_def
        reply_error_bytewise split: if_splits)
qed

lemma no_nix_creds: "creds_by_socket no_nix"
  by (simp add: creds_by_socket_def no_nix_def)

section \<open>Property\<close>

text \<open>
  C20: The cutting of the input into reads is invisible. Take two clients whose bytes and errors come in
  the same order but in different chunks, down to single bytes. For any commands and hooks that use the
  connection through its methods, any policy and session mode, the two sessions are equivalent:
  either neither ends, or both end in the same shared state, with the same bytes sent, and with the
  same rest of the input.
\<close>

theorem chunking_is_invisible:
  assumes "chunk_blind router hooks" and "creds_by_socket nix" and "bytewise stream = bytewise stream'"
  shows "map_option (apsnd bytewise_conn) (handle_conn nix json stream st router hooks auth session m) =
    map_option (apsnd bytewise_conn) (handle_conn nix json stream' st router hooks auth session m)"
  using handle_conn_bytewise [OF assms(1,2)] assms(3) by metis

theorem chunking_is_invisible_witness:
  "map_option (apsnd bytewise_conn) (handle_conn no_nix text_json
     (client [Data (take 6 (text_frame ''echo'')), Data (drop 6 (text_frame ''echo'')), Broken (err TimedOut)])
     5 (echo_router text_out) (Hooks text_out) AuthNone Persistent 64) =
   map_option (apsnd bytewise_conn) (handle_conn no_nix text_json
     (client [Data (text_frame ''echo''), Broken (err TimedOut)])
     5 (echo_router text_out) (Hooks text_out) AuthNone Persistent 64)"
  by (rule chunking_is_invisible [OF echo_chunk_blind no_nix_creds])
    (simp add: bytewise_def client_def flip: append_assoc map_append)

end
