(* ===== verification/Any_Input.thy ===== *)
theory Any_Input
  imports Session_Service
begin

text \<open>
  Sessions on arbitrary input. A session is a function of the bytes its client sends: they are read as
  a list of requests and one reason to stop, whatever the bytes are, and a service that answers every
  request gives the answers to those requests and the reaction to that reason.
\<close>

section \<open>What a stream of bytes says\<close>

lemma frame_spec_progress: "frame_spec m bs stop = Inr p \<Longrightarrow> 4 \<le> length bs"
  by (auto simp: frame_spec_def exact_spec_def split: if_splits option.splits)

function script ::
  "'v json_lib \<Rightarrow> usize \<Rightarrow> byte list \<Rightarrow> io_error option \<Rightarrow> 'v list \<times> frame_error" where
  "script json m bs stop =
     (case frame_spec m bs stop of
        Inl e \<Rightarrow> ([], e)
      | Inr p \<Rightarrow>
          (case json_from_slice json p of
             Inl e \<Rightarrow> ([], Json e)
           | Inr v \<Rightarrow> (case script json m (drop (4 + length p) bs) stop of (vs, e) \<Rightarrow> (v # vs, e))))"
  by pat_completeness auto
termination
  by (relation "measure (\<lambda>(json, m, bs, stop). length bs)") (auto dest: frame_spec_progress)

declare script.simps [simp del]

lemma script_cases:
  obtains (frame) e where "frame_spec m bs stop = Inl e" "script json m bs stop = ([], e)"
  | (json) p e where "frame_spec m bs stop = Inr p" "json_from_slice json p = Inl e"
      "script json m bs stop = ([], Json e)"
  | (body) p v vs e where "frame_spec m bs stop = Inr p" "json_from_slice json p = Inr v"
      "script json m (drop (4 + length p) bs) stop = (vs, e)" "script json m bs stop = (v # vs, e)"
proof -
  note eq = script.simps [of json m bs stop]
  show ?thesis
  proof (cases "frame_spec m bs stop")
    case (Inl e)
    with eq frame show ?thesis by simp
  next
    case (Inr p)
    show ?thesis
    proof (cases "json_from_slice json p")
      case (Inl e)
      with Inr eq json show ?thesis by simp
    next
      case v: (Inr v)
      obtain vs e where "script json m (drop (4 + length p) bs) stop = (vs, e)" by fastforce
      with Inr v eq body show ?thesis by simp
    qed
  qed
qed

text \<open>A script of frames.\<close>

lemma script_frame:
  assumes "length p \<le> m" and "length p < 2 ^ 32"
  shows "script json m (frame_bytes p @ rest) stop =
    (case json_from_slice json p of
       Inl e \<Rightarrow> ([], Json e)
     | Inr v \<Rightarrow> (case script json m rest stop of (vs, e) \<Rightarrow> (v # vs, e)))"
proof -
  have "drop (4 + length p) (frame_bytes p @ rest) = rest" by (simp add: frame_bytes_def)
  then show ?thesis
    using frame_spec_of_frame_bytes [OF assms, of rest stop]
    by (simp add: script.simps [of json m "frame_bytes p @ rest"] split: sum.split)
qed

text \<open>One read of a connection takes one step of the script.\<close>

lemma read_value_spec:
  assumes "frame_spec (conn_max_frame conn) (pending (conn_stream conn)) (ending (conn_stream conn)) = f"
  shows "\<exists>cs. read_value json conn =
      (case f of
         Inl e \<Rightarrow> Inl e
       | Inr p \<Rightarrow> (case json_from_slice json p of Inl e \<Rightarrow> Inl (Json e) | Inr v \<Rightarrow> Inr v), set_input cs conn) \<and>
    (\<forall>p. f = Inr p \<longrightarrow> chunks_pending cs = drop (4 + length p) (pending (conn_stream conn)) \<and>
       chunks_ending cs = ending (conn_stream conn))"
proof -
  obtain r where r: "read_frame_bytes stream_read (conn_max_frame conn) (conn_stream conn) = (f, r)"
    using assms socket_in.read_frame_bytes_spec [of "conn_max_frame conn" "conn_stream conn"]
    by (metis prod.collapse)
  have snd: "snd (read_value json conn) = conn\<lparr>conn_stream := r\<rparr>"
    using r by (auto simp: read_value_def read_json_def on_stream_def read_frame_with_limit_def try_bind_def fail_def ok_def split: sum.split)
  obtain cs where cs: "snd (read_value json conn) = set_input cs conn"
    using read_value_only_input [of json conn] by (auto simp: set_input_def)
  with snd have "r = (conn_stream conn)\<lparr>incoming := cs\<rparr>"
    by (metis connection.select_convs(1) connection.surjective connection.update_convs(1) set_input_def)
  moreover have "fst (read_value json conn) =
      (case f of
         Inl e \<Rightarrow> Inl e
       | Inr p \<Rightarrow> (case json_from_slice json p of Inl e \<Rightarrow> Inl (Json e) | Inr v \<Rightarrow> Inr v))"
    using r by (auto simp: read_value_def read_json_def on_stream_def read_frame_with_limit_def try_bind_def fail_def ok_def split: sum.split)
  ultimately show ?thesis
    using cs r socket_in.read_frame_bytes_rest [of "conn_max_frame conn" "conn_stream conn" _ r]
    by (intro exI [of _ cs]) (auto simp: prod_eq_iff)
qed

section \<open>Any service that answers\<close>

context replying_service
begin

lemma session_follows_script:
  assumes "out_room (conn_stream conn) = None" and "conn_max_frame conn = max_frame"
    and "script json max_frame (pending (conn_stream conn)) (ending (conn_stream conn)) = (vs, e)"
  shows "\<exists>cs. session_loop json router hooks st conn =
    Some (end_session hooks e (fold step vs st) (set_input cs (push_out (answer_all vs st) conn)))"
  using assms
proof (induction vs arbitrary: conn st)
  case Nil
  have stop: "\<exists>cs. read_value json conn = (Inl e, set_input cs conn)"
  proof (cases rule: script_cases [of max_frame "pending (conn_stream conn)" "ending (conn_stream conn)" json])
    case (frame e')
    with Nil read_value_spec [OF refl, of json conn] show ?thesis by auto
  next
    case (json p e')
    with Nil read_value_spec [OF refl, of json conn] show ?thesis by auto
  next
    case body
    with Nil show ?thesis by simp
  qed
  then show ?case by (auto simp: session_loop_step [of json router hooks _ conn] dispatch_one_def)
next
  case (Cons v vs)
  obtain p where p: "frame_spec max_frame (pending (conn_stream conn)) (ending (conn_stream conn)) = Inr p"
    "json_from_slice json p = Inr v"
    "script json max_frame (drop (4 + length p) (pending (conn_stream conn))) (ending (conn_stream conn)) = (vs, e)"
    using Cons.prems(3)
    by (cases rule: script_cases [of max_frame "pending (conn_stream conn)" "ending (conn_stream conn)" json]) auto
  from read_value_spec [OF refl, of json conn] p(1,2) Cons.prems(2) obtain cs where
    rd: "read_value json conn = (Inr v, set_input cs conn)"
    and cs: "chunks_pending cs = drop (4 + length p) (pending (conn_stream conn))"
      "chunks_ending cs = ending (conn_stream conn)" by auto
  let ?conn = "set_input cs (push_out (answer v st) conn)"
  have d: "dispatch_one json router hooks st conn = (Inr (), step v st, ?conn)"
    using rd Cons.prems(1,2) by (simp add: dispatch_one_def answers)
  from Cons.IH [of ?conn "step v st"] Cons.prems(1,2) p(3) cs obtain cs' where
    "session_loop json router hooks (step v st) ?conn =
      Some (end_session hooks e (fold step vs (step v st)) (set_input cs' (push_out (answer_all vs (step v st)) ?conn)))"
    by auto
  with d show ?case by (intro exI [of _ cs']) (subst session_loop_step, simp)
qed

end

section \<open>Property\<close>

text \<open>
  C19: A session is determined by the bytes of its client, whatever they are. For the echo service and an
  admitted client that takes what it is sent, any input at all reads as a list of requests and one
  reason to stop: the end of the stream or a broken stream, a header beyond the limit, or a frame that
  is no JSON. The requests are answered in their order and counted in the state; then an end of file or
  a reset closes the session without a word, and any other reason is reported in one error frame, after
  which nothing that still follows in the input is looked at.
\<close>

theorem session_is_determined_by_its_bytes:
  assumes "allows nix auth stream" and "out_room stream = None"
    and "script json m (pending stream) (ending stream) = (vs, e)"
  shows "\<exists>cs. handle_conn nix json stream st (echo_router out) (Hooks out) auth Persistent m =
    Some (st + of_nat (length (filter (\<lambda>v. json_type_field json v = Some ''echo'') vs)),
      set_input cs (push_out
        (concat (map (\<lambda>v. echo_answer json out m v 0) vs) @
         (if session_over e then [] else error_frame out m (frame_error_display e)))
        (conn_new stream m)))"
proof -
  let ?conn = "conn_new stream m"
  from echo.session_follows_script [of ?conn m json vs e out st] assms(2,3) obtain cs where
    "session_loop json (echo_router out) (Hooks out) st ?conn =
      Some (end_session (Hooks out) e (fold (echo_step json) vs st)
        (set_input cs (push_out (echo.answer_all json out m vs st) ?conn)))"
    by auto
  moreover have "end_session (Hooks out) e st' conn =
      (st', push_out (if session_over e then [] else error_frame out m (frame_error_display e)) conn)"
    if "out_room (conn_stream conn) = None" "conn_max_frame conn = m" for st' conn
    using that by (simp add: end_session_def Hooks_def reply_error_eq)
  ultimately show ?thesis
    using assms(1,2) by (intro exI [of _ cs]) (simp add: handle_conn_def Let_def echo_fold echo_answer_all)
qed

text \<open>The witness: after the first request comes an empty frame, which is no JSON, and another request.\<close>

theorem session_is_determined_by_its_bytes_witness:
  "\<exists>cs. handle_conn no_nix text_json
      (client [Data (text_frame ''echo''), Data (text_frame '''' @ text_frame ''echo'')])
      5 (echo_router text_out) (Hooks text_out) AuthNone Persistent 64 =
    Some (6, set_input cs (push_out
      (text_frame ''echo'' @ error_frame text_out 64 (frame_error_display (Json (JsonError ''EOF''))))
      (conn_new (client [Data (text_frame ''echo''), Data (text_frame '''' @ text_frame ''echo'')]) 64)))"
proof -
  let ?s = "client [Data (text_frame ''echo''), Data (text_frame '''' @ text_frame ''echo'')]"
  have "pending ?s = text_frame ''echo'' @ (text_frame '''' @ text_frame ''echo'')" by simp
  moreover have "json_from_slice text_json (map of_char ''echo'') = Inr ''echo''" by code_simp
  moreover have "json_from_slice text_json [] = Inl (JsonError ''EOF'')" by (simp add: text_json_def)
  ultimately have script: "script text_json 64 (pending ?s) (ending ?s) = ([''echo''], Json (JsonError ''EOF''))"
    by (simp only: text_frame_def) (simp add: script_frame)
  have answer: "echo_answer text_json text_out 64 ''echo'' 0 = text_frame ''echo''"
    by (simp add: echo_answer_def reply_outcome_def text_frame_def)
  have "json_type_field text_json ''echo'' = Some ''echo''" "allows no_nix AuthNone ?s" "out_room ?s = None"
    by (simp_all add: client_def)
  with session_is_determined_by_its_bytes [OF _ _ script, of no_nix AuthNone 5 text_out] answer show ?thesis
    by (simp add: session_over_def)
qed

end
