(* ===== verification/Daemon.thy ===== *)
theory Daemon
  imports Server Well_Formed
begin

text \<open>
  One daemon on its machine: \<open>serve\<close> of \<open>ipc/server.rs\<close>, from the claim of the socket to the end of the
  accept loop, on a system that other processes change at the same time. They bind sockets with the
  same \<open>bind\<close>, close theirs and remove files; clients connect and wait in the backlog of the listening
  socket; the daemon may be killed and started again.
\<close>

section \<open>The machine\<close>

record ('s, 'v) service =
  sc_nix :: nix_lib
  sc_json :: "'v json_lib"
  sc_pid :: nat
  sc_opts :: bind_options
  sc_policy :: accept_policy
  sc_router :: "('s, 'v) router"
  sc_hooks :: "('s, 'v) error_handler"
  sc_initial :: 's

text \<open>
  \<open>running\<close> is the server of the daemon's process, if it runs. \<open>backlog\<close> are the connections the kernel
  has made and the daemon has not accepted. Two lists are kept for the statements only: \<open>arrived\<close>, the
  connections since the start, and \<open>decided\<close>, those the acceptor is done with, with \<open>True\<close> for a client
  that got a thread.
\<close>

record ('s, 'v) site =
  os_state :: sys
  running :: "('s, 'v) server option"
  accept_loop :: "('s, 'v) accept_state"
  backlog :: "unix_stream list"
  arrived :: "unix_stream list"
  decided :: "(unix_stream \<times> bool) list"

definition site_start :: "('s, 'v) service \<Rightarrow> sys \<Rightarrow> ('s, 'v) site" where
  "site_start sc s =
     \<lparr>os_state = s, running = None, accept_loop = accept_start (sc_initial sc), backlog = [], arrived = [], decided = []\<rparr>"

definition serve_service :: "('s, 'v) service \<Rightarrow> (sys, bind_error, ('s, 'v) server \<times> ('s, 'v) accept_state) fallible" where
  "serve_service sc =
     serve (sc_nix sc) (sc_pid sc) (sc_opts sc) (sc_policy sc) (sc_router sc) (sc_hooks sc) (sc_initial sc)"

text \<open>What a step of the acceptor decides about the connection in its hand.\<close>

definition decision :: "('s, 'v) server \<Rightarrow> ('s, 'v) accept_state \<Rightarrow> accept_action \<Rightarrow> (unix_stream \<times> bool) list" where
  "decision srv r a =
     (case (a, acceptor r) of
        (AcceptorRuns, Checking stream) \<Rightarrow> if at_cap srv r then [(stream, False)] else []
      | (AcceptorRuns, Spawning stream) \<Rightarrow> [(stream, True)]
      | (AcceptorPanics, Checking stream) \<Rightarrow> [(stream, False)]
      | (AcceptorPanics, Spawning stream) \<Rightarrow> [(stream, False)]
      | _ \<Rightarrow> [])"

definition in_hand :: "acceptor_pc \<Rightarrow> unix_stream list" where
  "in_hand pc = (case pc of Checking stream \<Rightarrow> [stream] | Counting stream \<Rightarrow> [stream] | Spawning stream \<Rightarrow> [stream] | _ \<Rightarrow> [])"

datatype site_action =
    Serve | ServeReturns | Dies | Connects unix_stream | Accepts | LoopRuns accept_action
  | OtherBinds nat bind_options | OtherCloses nat | Unlinks path

text \<open>
  A bind by another process probes the path with \<open>connect\<close>. Where the running daemon answers there, the
  probe is one more connection in its backlog, closed at once by the other side.
\<close>

definition probes :: "('s, 'v) site \<Rightarrow> bind_options \<Rightarrow> bool" where
  "probes h opts \<longleftrightarrow>
     (case (running h, create_parent (bo_path opts) (os_state h)) of
        (Some srv, (Inr _, s)) \<Rightarrow>
          (case connect (bo_path opts) s of (Inr stream, _) \<Rightarrow> stream_id stream = sv_listener srv | _ \<Rightarrow> False)
      | _ \<Rightarrow> False)"

text \<open>
  The accept loop takes its connections from the backlog, and its \<open>path.exists()\<close> looks at the file
  system as it is. When \<open>serve_listener\<close> returns or unwinds, the listener is dropped; so it is when the
  process dies. A connection that still waits then is lost. A daemon ends with its accept loop: the client
  threads that are left then are not followed.
\<close>

inductive site_step :: "('s, 'v) service \<Rightarrow> ('s, 'v) site \<Rightarrow> site_action \<Rightarrow> ('s, 'v) site \<Rightarrow> bool"
  for sc :: "('s, 'v) service" where
  serve_ok: "running h = None \<Longrightarrow> serve_service sc (os_state h) = (Inr (srv, r), s) \<Longrightarrow>
     site_step sc h Serve (h\<lparr>os_state := s, running := Some srv, accept_loop := r, backlog := [], arrived := [], decided := []\<rparr>)"
| serve_error: "running h = None \<Longrightarrow> serve_service sc (os_state h) = (Inl e, s) \<Longrightarrow>
     site_step sc h Serve (h\<lparr>os_state := s\<rparr>)"
| serve_returns: "running h = Some srv \<Longrightarrow> acceptor (accept_loop h) \<in> {Stopped, Aborted} \<Longrightarrow>
     site_step sc h ServeReturns (h\<lparr>os_state := close_listener (sv_listener srv) (os_state h), running := None, backlog := []\<rparr>)"
| dies: "running h = Some srv \<Longrightarrow>
     site_step sc h Dies (h\<lparr>os_state := close_listener (sv_listener srv) (os_state h), running := None, backlog := []\<rparr>)"
| connects: "running h = Some srv \<Longrightarrow> serving (os_state h) (sv_path srv) = Some (sv_listener srv) \<Longrightarrow>
     site_step sc h (Connects stream) (h\<lparr>backlog := backlog h @ [stream], arrived := arrived h @ [stream]\<rparr>)"
| accepts: "running h = Some srv \<Longrightarrow> backlog h = stream # rest \<Longrightarrow>
     serve_step (sc_nix sc) (sc_json sc) srv (accept_loop h) (Accepted stream) r \<Longrightarrow>
     site_step sc h Accepts (h\<lparr>accept_loop := r, backlog := rest\<rparr>)"
| loop_runs: "running h = Some srv \<Longrightarrow> \<forall>stream. a \<noteq> Accepted stream \<Longrightarrow> \<forall>there. a \<noteq> PathChanges there \<Longrightarrow>
     serve_step (sc_nix sc) (sc_json sc) srv
       ((accept_loop h)\<lparr>path_there := exists_path (sv_path srv) (os_state h)\<rparr>) a r \<Longrightarrow>
     site_step sc h (LoopRuns a) (h\<lparr>accept_loop := r, decided := decided h @ decision srv (accept_loop h) a\<rparr>)"
| other_binds: "pid \<noteq> sc_pid sc \<Longrightarrow> incoming stream = [] \<Longrightarrow> outgoing stream = [] \<Longrightarrow>
     probe = (if probes h opts then [stream] else []) \<Longrightarrow>
     site_step sc h (OtherBinds pid opts)
       (h\<lparr>os_state := snd (bind (sc_nix sc) pid opts (os_state h)), backlog := backlog h @ probe, arrived := arrived h @ probe\<rparr>)"
| other_closes: "listening (os_state h) l = Some pid \<Longrightarrow> pid \<noteq> sc_pid sc \<Longrightarrow>
     site_step sc h (OtherCloses l) (h\<lparr>os_state := close_listener l (os_state h)\<rparr>)"
| unlinks: "site_step sc h (Unlinks p) (h\<lparr>os_state := snd (remove_file p (os_state h))\<rparr>)"

abbreviation site_runs :: "('s, 'v) service \<Rightarrow> ('s, 'v) site \<Rightarrow> site_action list \<Rightarrow> ('s, 'v) site \<Rightarrow> bool" where
  "site_runs sc \<equiv> runs (site_step sc)"

inductive_cases other_bindsE: "site_step sc h (OtherBinds pid opts) h'"

section \<open>Every connection is somewhere\<close>

text \<open>
  While the daemon runs, the connections that have arrived are, in order, those decided, the one in the
  acceptor's hand, and the backlog; as many threads were started as clients let in.
\<close>

definition accounted :: "('s, 'v) site \<Rightarrow> bool" where
  "accounted h \<longleftrightarrow> (running h \<noteq> None \<longrightarrow>
     arrived h = map fst (decided h) @ in_hand (acceptor (accept_loop h)) @ backlog h \<and>
     length (filter snd (decided h)) = next_thread (accept_loop h))"

lemma in_hand_simps [simp]:
  "in_hand Accepting = []" "in_hand (Checking s) = [s]" "in_hand (Counting s) = [s]" "in_hand (Spawning s) = [s]"
  "in_hand Stopped = []" "in_hand Aborted = []"
  by (simp_all add: in_hand_def)

lemma decision_complete:
  assumes "serve_step nix json srv (r\<lparr>path_there := there\<rparr>) a r'" and "\<forall>stream. a \<noteq> Accepted stream"
  shows "map fst (decision srv r a) @ in_hand (acceptor r') = in_hand (acceptor r) \<and>
    next_thread r' = next_thread r + length (filter snd (decision srv r a))"
  using assms(1)
proof cases
  case (acceptor_runs stream)
  then consider "acceptor r = Checking stream" | "acceptor r = Counting stream" | "acceptor r = Spawning stream" by auto
  then show ?thesis
    by cases (use acceptor_runs in \<open>auto simp: decision_def at_cap_def split: option.split\<close>)
next
  case (acceptor_panics stream st)
  then show ?thesis by (auto simp: decision_def)
qed (use assms(2) in \<open>auto simp: decision_def leave_def\<close>)

lemma accounted_step: "site_step sc h a h' \<Longrightarrow> accounted h \<Longrightarrow> accounted h'"
proof (induction rule: site_step.induct)
  case (serve_ok h srv r s)
  then have "r = accept_start (sc_initial sc)"
    by (auto simp: serve_service_def serve_def server_serve_def elim!: try_bind_eq_InrE)
  then show ?case by (simp add: accounted_def accept_start_def)
next
  case (accepts h srv stream rest r)
  from accepts.hyps(3) have "r = (accept_loop h)\<lparr>acceptor := Checking stream\<rparr>" "acceptor (accept_loop h) = Accepting"
    by (auto elim: serve_step.cases)
  with accepts show ?case by (simp add: accounted_def)
next
  case (loop_runs h srv a r)
  from decision_complete [OF loop_runs.hyps(4) loop_runs.hyps(2)] loop_runs show ?case
    by (auto simp: accounted_def)
qed (auto simp: accounted_def)

lemma accounted_runs: "site_runs sc h acts h' \<Longrightarrow> accounted h \<Longrightarrow> accounted h'"
  by (erule runs_invariant [where P = accounted]) (assumption, rule accounted_step)

section \<open>The machine under the daemon\<close>

text \<open>
  Without faults of the system: the tree and the sockets are in order, the running daemon's listener is
  its own, and after the first start the directory of the socket is there.
\<close>

definition site_ok :: "('s, 'v) service \<Rightarrow> ('s, 'v) site \<Rightarrow> bool" where
  "site_ok sc h \<longleftrightarrow>
     faults (os_state h) = (\<lambda>_ _. None) \<and> sys_wf (os_state h) \<and>
     (\<forall>srv. running h = Some srv \<longrightarrow>
        sv_path srv = bo_path (sc_opts sc) \<and> listening (os_state h) (sv_listener srv) = Some (sc_pid sc))"

lemma sys_wf_fresh: "sys_wf s \<Longrightarrow> sockets_fresh s"
  by (simp add: sys_wf_def)

lemma serve_service_eq:
  "serve_service sc s =
     (case bind (sc_nix sc) (sc_pid sc) (sc_opts sc) s of
        (Inl e, t) \<Rightarrow> (Inl e, t)
      | (Inr l, t) \<Rightarrow>
          (Inr (from_listener l (bo_path (sc_opts sc)) (sc_policy sc) (sc_router sc) (sc_hooks sc),
                accept_start (sc_initial sc)), t))"
  by (auto simp: serve_service_def serve_def server_bind_def server_serve_def from_listener_def unfold_io
      split: prod.split sum.split)

lemma serve_serviceE:
  assumes "serve_service sc s = (Inr (srv, r), t)"
  obtains l where "bind (sc_nix sc) (sc_pid sc) (sc_opts sc) s = (Inr l, t)" "sv_listener srv = l"
    "sv_path srv = bo_path (sc_opts sc)" "r = accept_start (sc_initial sc)"
  using assms by (auto simp: serve_service_eq from_listener_def split: prod.splits sum.splits)

lemma serve_service_error: "serve_service sc s = (Inl e, t) \<Longrightarrow> bind (sc_nix sc) (sc_pid sc) (sc_opts sc) s = (Inl e, t)"
  by (auto simp: serve_service_eq split: prod.splits sum.splits)

text \<open>A bind by any process leaves every open listener its owner.\<close>

lemma bind_listening:
  assumes "chown_changes_owner_only nix" and "sockets_fresh s" and "faults s = (\<lambda>_ _. None)"
    and "listening s l = Some q" and "bind nix pid opts s = (r, t)"
  shows "listening t l = Some q"
proof (cases r)
  case (Inl e)
  with bind_failed_listening [OF assms(1,2)] assms(4,5) show ?thesis by auto
next
  case (Inr l')
  with bind_success_serves_aux [OF assms(1,2) _ assms(5) [unfolded Inr]] assms(3,4) show ?thesis by auto
qed

lemma remove_file_fields:
  "faults (snd (remove_file p s)) = faults s" "listening (snd (remove_file p s)) = listening s"
  by (auto simp: remove_file_def split: option.split)

lemma close_listener_fields:
  "faults (close_listener l s) = faults s" "listening (close_listener l s) = (listening s)(l := None)"
  by (simp_all add: close_listener_def)

lemma site_ok_step:
  assumes "chown_changes_owner_only (sc_nix sc)" and "site_step sc h a h'" and "site_ok sc h"
  shows "site_ok sc h'"
  using assms(2)
proof cases
  case (serve_ok srv r s)
  from serve_ok(4) obtain l where l: "bind (sc_nix sc) (sc_pid sc) (sc_opts sc) (os_state h) = (Inr l, s)"
    "sv_listener srv = l" "sv_path srv = bo_path (sc_opts sc)" by (rule serve_serviceE)
  have "listening s l = Some (sc_pid sc)"
    using bind_success_serves_aux [OF assms(1) sys_wf_fresh _ l(1)] assms(3) by (simp add: site_ok_def)
  with serve_ok l assms(3) bind_wf [OF assms(1), of "os_state h" "sc_pid sc" "sc_opts sc"]
    bind_faults [OF assms(1), of "sc_pid sc" "sc_opts sc" "os_state h"]
  show ?thesis by (simp add: site_ok_def)
next
  case (serve_error e s)
  with serve_service_error [OF serve_error(4)] assms(3) bind_wf [OF assms(1), of "os_state h" "sc_pid sc" "sc_opts sc"]
    bind_faults [OF assms(1), of "sc_pid sc" "sc_opts sc" "os_state h"]
  show ?thesis by (simp add: site_ok_def)
next
  case (other_binds pid stream probe opts)
  obtain r s where b: "bind (sc_nix sc) pid opts (os_state h) = (r, s)" by fastforce
  with other_binds assms(3) bind_wf [OF assms(1), of "os_state h" pid opts] bind_faults [OF assms(1), of pid opts "os_state h"]
    bind_listening [OF assms(1) sys_wf_fresh _ _ b]
  show ?thesis by (simp add: site_ok_def)
next
  case (other_closes l pid)
  with assms(3) close_listener_wf show ?thesis by (auto simp: site_ok_def close_listener_fields)
next
  case (unlinks p)
  with assms(3) remove_file_wf [of "os_state h" p] show ?thesis by (simp add: site_ok_def remove_file_fields)
qed (use assms(3) in \<open>simp_all add: site_ok_def close_listener_fields close_listener_wf\<close>)

lemma site_ok_runs:
  assumes "chown_changes_owner_only (sc_nix sc)" and "site_runs sc h acts h'" and "site_ok sc h"
  shows "site_ok sc h'"
  using assms(2,3) by (rule runs_invariant) (rule site_ok_step [OF assms(1)])

lemma site_ok_start: "faults s = (\<lambda>_ _. None) \<Longrightarrow> sys_wf s \<Longrightarrow> site_ok sc (site_start sc s)"
  by (simp add: site_ok_def site_start_def)

section \<open>A daemon holds its path\<close>

text \<open>
  As long as nobody removes its socket, the path of a running daemon leads to its listener: binds of
  other processes keep out of it, and they close only what is theirs.
\<close>

definition holds_path :: "('s, 'v) service \<Rightarrow> ('s, 'v) site \<Rightarrow> bool" where
  "holds_path sc h \<longleftrightarrow>
     (\<forall>srv. running h = Some srv \<longrightarrow> serving (os_state h) (bo_path (sc_opts sc)) = Some (sv_listener srv))"

lemma holds_path_step:
  assumes "chown_changes_owner_only (sc_nix sc)" and "site_step sc h a h'"
    and "\<forall>p. a = Unlinks p \<longrightarrow> key p \<noteq> key (bo_path (sc_opts sc))" and "site_ok sc h" and "holds_path sc h"
  shows "holds_path sc h'"
proof -
  let ?p = "bo_path (sc_opts sc)"
  have quiet: "faults (os_state h) = (\<lambda>_ _. None)" "sockets_fresh (os_state h)"
    using assms(4) by (simp_all add: site_ok_def sys_wf_fresh)
  have up: "serving (os_state h) ?p = Some (sv_listener srv) \<and> listening (os_state h) (sv_listener srv) = Some (sc_pid sc)"
    if "running h = Some srv" for srv
    using assms(4,5) that by (simp add: site_ok_def holds_path_def)
  from assms(2) show ?thesis
  proof cases
    case (serve_ok srv r s)
    from serve_ok(4) obtain l where "bind (sc_nix sc) (sc_pid sc) (sc_opts sc) (os_state h) = (Inr l, s)" "sv_listener srv = l"
      by (rule serve_serviceE)
    with bind_success_serves_aux [OF assms(1) quiet(2)] quiet(1) serve_ok(2) show ?thesis by (auto simp: holds_path_def)
  next
    case (other_binds pid stream probe opts)
    obtain r s where b: "bind (sc_nix sc) pid opts (os_state h) = (r, s)" by fastforce
    have "serving s ?p = Some (sv_listener srv)" if "running h = Some srv" for srv
      using bind_keeps_serving [OF assms(1) quiet(2) _ _ b] quiet(1) up [OF that] by simp
    with other_binds b show ?thesis by (simp add: holds_path_def)
  next
    case (other_closes l pid)
    have "serving (close_listener l (os_state h)) ?p = Some (sv_listener srv)" if "running h = Some srv" for srv
    proof -
      have "l \<noteq> sv_listener srv" using up [OF that] other_closes by auto
      with up [OF that] show ?thesis by (auto simp: serving_lookup close_listener_def lookup_def)
    qed
    with other_closes show ?thesis by (simp add: holds_path_def)
  next
    case (unlinks p)
    with assms(3) have "key p \<noteq> key ?p" by simp
    then have "serving (snd (remove_file p (os_state h))) ?p = Some (sv_listener srv)" if "running h = Some srv" for srv
      using up [OF that] by (auto simp: remove_file_def serving_lookup lookup_set_node_other split: option.split)
    with unlinks show ?thesis by (simp add: holds_path_def)
  qed (use assms(5) in \<open>auto simp: holds_path_def\<close>)
qed

section \<open>A daemon that is up\<close>

text \<open>Up: the path leads to the running daemon's listener, and its acceptor is alive.\<close>

definition attended :: "('s, 'v) service \<Rightarrow> ('s, 'v) server \<Rightarrow> ('s, 'v) site \<Rightarrow> bool" where
  "attended sc srv h \<longleftrightarrow> site_ok sc h \<and> running h = Some srv \<and>
     serving (os_state h) (bo_path (sc_opts sc)) = Some (sv_listener srv) \<and>
     acceptor (accept_loop h) \<noteq> Stopped \<and> acceptor (accept_loop h) \<noteq> Aborted"

text \<open>Nobody kills the daemon, its hooks do not panic in the acceptor, and nobody removes its socket.\<close>

definition peaceful :: "('s, 'v) service \<Rightarrow> site_action \<Rightarrow> bool" where
  "peaceful sc a \<longleftrightarrow>
     (case a of
        Dies \<Rightarrow> False
      | LoopRuns b \<Rightarrow> b \<noteq> AcceptorPanics
      | Unlinks p \<Rightarrow> key p \<noteq> key (bo_path (sc_opts sc))
      | _ \<Rightarrow> True)"

lemma serving_path: "serving s p = Some i \<Longrightarrow> p \<noteq> []"
  using serving_key [of s p i] by (auto simp: key_def components_def segments_def skipped_def)

lemma serving_exists: "serving s p = Some i \<Longrightarrow> faults s = (\<lambda>_ _. None) \<Longrightarrow> exists_path p s"
  using serving_path [of s p i] by (auto simp: exists_path_def serving_lookup)

lemma serve_step_lives:
  assumes "serve_step nix json srv r a r'" and "path_there r \<or> a \<noteq> AcceptFailed" and "a \<noteq> AcceptorPanics"
    and "acceptor r \<noteq> Stopped" and "acceptor r \<noteq> Aborted"
  shows "acceptor r' \<noteq> Stopped \<and> acceptor r' \<noteq> Aborted"
  using assms(1)
proof cases
  case (acceptor_runs stream)
  with assms(4,5) acceptor_micro_lives [of r srv] show ?thesis by simp
qed (use assms in \<open>auto simp: leave_def\<close>)

lemma attended_step:
  assumes "chown_changes_owner_only (sc_nix sc)" and "site_step sc h a h'" and "peaceful sc a" and "attended sc srv h"
  shows "attended sc srv h'"
proof -
  from assms(4) have ok: "site_ok sc h" and up: "running h = Some srv" "holds_path sc h"
    and lives: "acceptor (accept_loop h) \<noteq> Stopped" "acceptor (accept_loop h) \<noteq> Aborted"
    by (simp_all add: attended_def holds_path_def)
  have ok': "site_ok sc h'" by (rule site_ok_step [OF assms(1,2) ok])
  have "\<forall>p. a = Unlinks p \<longrightarrow> key p \<noteq> key (bo_path (sc_opts sc))" using assms(3) by (auto simp: peaceful_def)
  from holds_path_step [OF assms(1,2) this ok up(2)] have holds: "holds_path sc h'" .
  have there: "exists_path (sv_path srv) (os_state h)"
    using serving_exists ok up by (auto simp: site_ok_def holds_path_def)
  from assms(2) have "running h' = Some srv \<and> acceptor (accept_loop h') \<noteq> Stopped \<and> acceptor (accept_loop h') \<noteq> Aborted"
  proof cases
    case (accepts srv' stream rest r)
    with up lives serve_step_lives [OF accepts(5)] show ?thesis by simp
  next
    case (loop_runs srv' b r)
    have "b \<noteq> AcceptorPanics" using assms(3) loop_runs(1) by (simp add: peaceful_def)
    then show ?thesis using loop_runs up(1) lives there serve_step_lives [OF loop_runs(6)] by simp
  qed (use assms(3) up(1) lives in \<open>auto simp: peaceful_def\<close>)
  with holds ok' show ?thesis by (simp add: attended_def holds_path_def)
qed

lemma attended_runs:
  assumes "chown_changes_owner_only (sc_nix sc)" and "site_runs sc h acts h'" and "\<forall>a \<in> set acts. peaceful sc a"
    and "attended sc srv h"
  shows "attended sc srv h'"
  using assms(2,4) by (rule runs_invariant) (use assms(3) attended_step [OF assms(1)] in blast)

lemma serve_attended:
  assumes "chown_changes_owner_only (sc_nix sc)" and "site_ok sc h" and "site_step sc h Serve h'" and "running h' = Some srv"
  shows "attended sc srv h'"
proof -
  have ok: "site_ok sc h'" by (rule site_ok_step [OF assms(1,3,2)])
  from assms(3) show ?thesis
  proof cases
    case (serve_ok srv' r s)
    from serve_ok(3) obtain l where l: "bind (sc_nix sc) (sc_pid sc) (sc_opts sc) (os_state h) = (Inr l, s)"
      "sv_listener srv' = l" "r = accept_start (sc_initial sc)" by (rule serve_serviceE)
    have "serving s (bo_path (sc_opts sc)) = Some l"
      using bind_success_serves_aux [OF assms(1) sys_wf_fresh _ l(1)] assms(2) by (simp add: site_ok_def)
    with serve_ok l ok assms(4) show ?thesis by (simp add: attended_def accept_start_def)
  next
    case (serve_error e s)
    with assms(4) show ?thesis by simp
  qed
qed

section \<open>After the first start\<close>

text \<open>
  The directory of the socket stays, and nothing turns the place of the socket into a directory, unless
  another process binds a path below it.
\<close>

definition place_ok :: "('s, 'v) service \<Rightarrow> ('s, 'v) site \<Rightarrow> bool" where
  "place_ok sc h \<longleftrightarrow> dir_at (butlast (key (bo_path (sc_opts sc)))) (os_state h) \<and>
     \<not> dir_at (key (bo_path (sc_opts sc))) (os_state h)"

definition binds_not_below :: "('s, 'v) service \<Rightarrow> site_action \<Rightarrow> bool" where
  "binds_not_below sc a \<longleftrightarrow>
     (case a of OtherBinds _ opts \<Rightarrow> \<not> strict_prefix (key (bo_path (sc_opts sc))) (key (bo_path opts)) | _ \<Rightarrow> True)"

lemma not_strict_prefix_self: "\<not> strict_prefix k k"
  by simp

lemma place_ok_step:
  assumes "chown_changes_owner_only (sc_nix sc)" and "site_step sc h a h'" and "binds_not_below sc a" and "place_ok sc h"
  shows "place_ok sc h'"
proof -
  let ?k = "key (bo_path (sc_opts sc))"
  have own: "dir_at (butlast ?k) t \<and> \<not> dir_at ?k t"
    if "bind (sc_nix sc) (sc_pid sc) (sc_opts sc) (os_state h) = (r, t)" for r t
    using bind_dir_at [OF assms(1), of "butlast ?k" "os_state h" "sc_pid sc" "sc_opts sc"]
      bind_not_dir_at [OF assms(1), of ?k "os_state h" "sc_opts sc" "sc_pid sc"] assms(4) that not_strict_prefix_self
    by (auto simp: place_ok_def)
  from assms(2) show ?thesis
  proof cases
    case (serve_ok srv r s)
    from serve_ok(4) show ?thesis by (rule serve_serviceE) (use serve_ok own in \<open>auto simp: place_ok_def\<close>)
  next
    case (serve_error e s)
    with own [OF serve_service_error [OF serve_error(4)]] show ?thesis by (simp add: place_ok_def)
  next
    case (other_binds pid stream probe opts)
    with assms(3) have "\<not> strict_prefix ?k (key (bo_path opts))" by (simp add: binds_not_below_def)
    with bind_dir_at [OF assms(1), of "butlast ?k" "os_state h" pid opts]
      bind_not_dir_at [OF assms(1), of ?k "os_state h" opts pid] assms(4) other_binds
    show ?thesis by (simp add: place_ok_def)
  next
    case (unlinks p)
    with assms(4) remove_file_dir_at [of "butlast ?k" "os_state h" p] remove_file_not_dir_at [of ?k p "os_state h"]
    show ?thesis by (auto simp: place_ok_def)
  qed (use assms(4) in \<open>simp_all add: place_ok_def\<close>)
qed

lemma place_ok_runs:
  assumes "chown_changes_owner_only (sc_nix sc)" and "site_runs sc h acts h'"
    and "\<forall>a \<in> set acts. binds_not_below sc a" and "place_ok sc h"
  shows "place_ok sc h'"
  using assms(2,4) by (rule runs_invariant) (use assms(3) place_ok_step [OF assms(1)] in blast)

lemma serve_place_ok:
  assumes "chown_changes_owner_only (sc_nix sc)" and "site_ok sc h" and "site_step sc h Serve h'" and "running h' \<noteq> None"
  shows "place_ok sc h'"
proof -
  from assms(4) obtain srv where "attended sc srv h'" using serve_attended [OF assms(1-3)] by blast
  then have "serving (os_state h') (bo_path (sc_opts sc)) = Some (sv_listener srv)" by (simp add: attended_def)
  then have "\<not> dir_at (key (bo_path (sc_opts sc))) (os_state h')" by (auto simp: serving_lookup dir_at_def)
  moreover have "dir_at (butlast (key (bo_path (sc_opts sc)))) (os_state h')"
    using assms(3)
  proof cases
    case (serve_ok srv r s)
    from serve_ok(3) show ?thesis
      by (rule serve_serviceE) (use serve_ok bind_ok_environment [OF assms(1)] in \<open>auto simp: dir_at_def\<close>)
  next
    case (serve_error e s)
    with assms(4) show ?thesis by simp
  qed
  ultimately show ?thesis by (simp add: place_ok_def)
qed

section \<open>A machine for the witnesses\<close>

definition echo_service :: "(atomic_usize, string) service" where
  "echo_service =
     \<lparr>sc_nix = no_nix, sc_json = text_json, sc_pid = 7, sc_opts = hub_opts,
      sc_policy = \<lparr>ap_auth = AuthNone, ap_session = Persistent, ap_max_clients = Some 4, ap_max_frame = 64\<rparr>,
      sc_router = echo_router text_out, sc_hooks = Hooks text_out, sc_initial = 0\<rparr>"

lemma echo_service_simps [simp]:
  "sc_nix echo_service = no_nix" "sc_json echo_service = text_json" "sc_pid echo_service = 7"
  "sc_opts echo_service = hub_opts" "sc_initial echo_service = 0"
  by (simp_all add: echo_service_def)

lemma echo_service_bound:
  "bind no_nix 7 hub_opts hub_sys = (Inr 0, t) \<Longrightarrow>
   serve_service echo_service hub_sys = (Inr (echo_server (Some 4), accept_start 0), t)"
  by (simp add: serve_service_eq echo_server_def) (simp add: echo_service_def hub_opts_def)

lemmas echo_service_serve = echo_service_bound [OF hub_bind]

lemma echo_server_listener [simp]: "sv_listener (echo_server cap) = 0" "sv_path (echo_server cap) = ''/run/d.sock''"
  by (simp_all add: echo_server_def from_listener_def)

definition hub_up :: "(atomic_usize, string) site" where
  "hub_up =
     \<lparr>os_state = hub_bound, running = Some (echo_server (Some 4)), accept_loop = accept_start 0, backlog = [],
      arrived = [], decided = []\<rparr>"

lemma hub_serves: "site_step echo_service (site_start echo_service hub_sys) Serve hub_up"
proof -
  have "site_step echo_service h Serve (h\<lparr>os_state := t, running := Some srv, accept_loop := r, backlog := [],
      arrived := [], decided := []\<rparr>)"
    if "running h = None" "serve_service echo_service (os_state h) = (Inr (srv, r), t)" for h srv r t
    using that by (rule serve_ok)
  from this [of "site_start echo_service hub_sys", OF _ _] echo_service_serve show ?thesis
    unfolding hub_up_def site_start_def by (metis site.select_convs(1,2) site.update_convs)
qed

lemma hub_run: "site_runs echo_service (site_start echo_service hub_sys) [] (site_start echo_service hub_sys)"
  by simp

section \<open>Properties\<close>

text \<open>
  C4: A daemon that has started stays reachable. On a machine without system faults, from a start that
  succeeded and through any run in which nobody kills it, panics in its acceptor or removes its socket,
  whatever clients do, whatever sockets other processes bind, its own path included, and whatever
  failures \<open>accept\<close> reports: the path still leads to this daemon's listener, the server is the one that was
  started, \<open>serve\<close> does not return, and a bind of the path by anyone else is refused as \<open>AlreadyRunning\<close> and
  changes nothing in the system.
\<close>

theorem daemon_stays_reachable:
  assumes "chown_changes_owner_only (sc_nix sc)" and "faults s = (\<lambda>_ _. None)" and "sys_wf s"
    and "site_runs sc (site_start sc s) before h" and "site_step sc h Serve h1" and "running h1 = Some srv"
    and "site_runs sc h1 later h2" and "\<forall>a \<in> set later. peaceful sc a"
  shows "running h2 = Some srv \<and> serving (os_state h2) (bo_path (sc_opts sc)) = Some (sv_listener srv) \<and>
    (\<forall>h3. \<not> site_step sc h2 ServeReturns h3) \<and>
    (\<forall>pid opts. bo_path opts = bo_path (sc_opts sc) \<longrightarrow> (\<exists>location n. bind (sc_nix sc) pid opts (os_state h2) =
       (Inl (AlreadyRunning (bo_process_name opts) location (bo_path opts) n), os_state h2)))"
proof -
  have "site_ok sc h" by (rule site_ok_runs [OF assms(1,4) site_ok_start [OF assms(2,3)]])
  from serve_attended [OF assms(1) this assms(5,6)] have "attended sc srv h1" .
  with attended_runs [OF assms(1,7,8)] have up: "attended sc srv h2" by blast
  have "\<exists>location n. bind (sc_nix sc) pid opts (os_state h2) =
      (Inl (AlreadyRunning (bo_process_name opts) location (bo_path opts) n), os_state h2)"
    if "bo_path opts = bo_path (sc_opts sc)" for pid opts
    using bind_answered(2) [of "os_state h2" opts] up that by (auto simp: attended_def site_ok_def)
  moreover have "\<not> site_step sc h2 ServeReturns h3" for h3
    using up by (auto simp: attended_def elim: site_step.cases)
  ultimately show ?thesis using up by (auto simp: attended_def)
qed

theorem daemon_stays_reachable_witness:
  "\<exists>h2. site_runs echo_service hub_up [Connects (client []), OtherBinds 8 hub_opts] h2 \<and>
     serving (os_state h2) ''/run/d.sock'' = Some 0"
proof -
  let ?h = "hub_up\<lparr>backlog := [client []], arrived := [client []]\<rparr>"
  let ?probe = "if probes ?h hub_opts then [client []] else []"
  let ?h2 = "?h\<lparr>os_state := snd (bind no_nix 8 hub_opts (os_state ?h)), backlog := backlog ?h @ ?probe, arrived := arrived ?h @ ?probe\<rparr>"
  have one: "site_step echo_service hub_up (Connects (client [])) ?h"
    using connects [of hub_up "echo_server (Some 4)" echo_service "client []"] hub_bound_facts(1)
    by (simp add: hub_up_def hub_opts_def)
  have two: "site_step echo_service ?h (OtherBinds 8 hub_opts) ?h2"
    using other_binds [of 8 echo_service "client []" ?probe ?h hub_opts] by simp
  have run: "site_runs echo_service hub_up [Connects (client []), OtherBinds 8 hub_opts] ?h2"
    by (rule runs.more, rule one, rule runs.more, rule two, rule halt)
  have srv: "running hub_up = Some (echo_server (Some 4))" by (simp add: hub_up_def)
  have quiet: "\<forall>a \<in> set [Connects (client []), OtherBinds 8 hub_opts]. peaceful echo_service a"
    by (simp add: peaceful_def)
  from daemon_stays_reachable [OF _ hub_facts(3) hub_sys_wf hub_run hub_serves srv run quiet] hub_facts(1)
  have "serving (os_state ?h2) ''/run/d.sock'' = Some 0" by (simp add: hub_opts_def)
  with run show ?thesis by blast
qed

text \<open>
  C9: A second start is one empty connection for the daemon that runs. On a machine without system faults and
  with the daemon up, a bind of its path by another process changes nothing but this: a connection with no
  bytes, at its end already, joins the backlog. It takes its turn as any client does. A persistent session
  ends on it without a word; a one-shot session calls the \<open>error\<close> hook with "read 0 of 4 bytes".
\<close>

theorem second_start_is_an_empty_connection:
  assumes "attended sc srv h" and "bo_path opts = bo_path (sc_opts sc)" and "site_step sc h (OtherBinds pid opts) h'"
  shows "\<exists>stream. h' = h\<lparr>backlog := backlog h @ [stream], arrived := arrived h @ [stream]\<rparr> \<and>
    incoming stream = [] \<and> outgoing stream = [] \<and>
    (allows nix auth stream \<longrightarrow>
       handle_conn nix json stream st router hooks auth Persistent m = Some (st, conn_new stream m) \<and>
       handle_conn nix json stream st router hooks auth OneShot m =
         Some (hook_error hooks st (FrameErr (UnexpectedEof 0 4)) (conn_new stream m)))"
proof -
  have quiet: "sys_wf (os_state h)" "faults (os_state h) = (\<lambda>_ _. None)" and run: "running h = Some srv"
    and up: "serving (os_state h) (bo_path opts) = Some (sv_listener srv)"
    using assms(1,2) by (simp_all add: attended_def site_ok_def)
  have "probes h opts"
    using bind_answered(1) [OF quiet up] connect_serving [OF up] quiet(2) run by (simp add: probes_def)
  moreover have "snd (bind (sc_nix sc) pid opts (os_state h)) = os_state h"
    using bind_answered(2) [OF quiet up, of "sc_nix sc" pid] by auto
  ultimately obtain stream where h': "h' = h\<lparr>backlog := backlog h @ [stream], arrived := arrived h @ [stream]\<rparr>"
    and stream: "incoming stream = []" "outgoing stream = []"
    using assms(3) by (auto elim!: other_bindsE)
  have same: "stream\<lparr>incoming := []\<rparr> = stream" using stream(1) by (cases stream) simp
  then have "stream_read stream n = (Inr [], stream)" for n using stream(1) by (simp add: stream_read_def)
  then have "read_exact stream_read HEADER_LEN stream = (Inl (UnexpectedEof 0 4), stream)"
    by (simp add: read_exact_def read_exact_from.simps [of stream_read] HEADER_LEN_def)
  then have "read_value json (conn_new stream m) = (Inl (UnexpectedEof 0 4), conn_new stream m)"
    by (simp add: read_value_def read_json_def on_stream_def conn_new_def read_frame_with_limit_def read_frame_bytes_def)
  then have d: "dispatch_one json router hooks st (conn_new stream m) = (Inl (UnexpectedEof 0 4), st, conn_new stream m)"
    by (simp add: dispatch_one_def)
  then have "handle_conn nix json stream st router hooks auth Persistent m = Some (st, conn_new stream m)"
    and "handle_conn nix json stream st router hooks auth OneShot m =
      Some (hook_error hooks st (FrameErr (UnexpectedEof 0 4)) (conn_new stream m))" if "allows nix auth stream"
    using that by (simp_all add: handle_conn_def Let_def one_shot_def session_loop_step [of json router hooks st "conn_new stream m"]
        end_session_def session_over_def)
  with h' stream show ?thesis by blast
qed

theorem second_start_is_an_empty_connection_witness:
  "\<exists>h' stream. site_step echo_service hub_up (OtherBinds 8 hub_opts) h' \<and> backlog h' = [stream] \<and> incoming stream = [] \<and>
     handle_conn no_nix text_json stream 5 (echo_router text_out) (Hooks text_out) AuthNone Persistent 64 =
       Some (5, conn_new stream 64)"
proof -
  let ?probe = "if probes hub_up hub_opts then [client []] else []"
  let ?h = "hub_up\<lparr>os_state := snd (bind no_nix 8 hub_opts (os_state hub_up)), backlog := backlog hub_up @ ?probe,
    arrived := arrived hub_up @ ?probe\<rparr>"
  have step: "site_step echo_service hub_up (OtherBinds 8 hub_opts) ?h"
    using other_binds [of 8 echo_service "client []" ?probe hub_up hub_opts] by simp
  have "site_ok echo_service (site_start echo_service hub_sys)"
    by (rule site_ok_start [OF hub_facts(3) hub_sys_wf])
  then have up: "attended echo_service (echo_server (Some 4)) hub_up"
    using serve_attended [OF _ _ hub_serves] hub_facts(1) by (simp add: hub_up_def)
  have own: "bo_path hub_opts = bo_path (sc_opts echo_service)" by simp
  from second_start_is_an_empty_connection [OF up own step, of no_nix AuthNone text_json 5 "echo_router text_out" "Hooks text_out" 64]
  obtain stream where "?h = hub_up\<lparr>backlog := backlog hub_up @ [stream], arrived := arrived hub_up @ [stream]\<rparr>"
    and stream: "incoming stream = []"
    and served: "handle_conn no_nix text_json stream 5 (echo_router text_out) (Hooks text_out) AuthNone Persistent 64 =
      Some (5, conn_new stream 64)"
    by auto
  from arg_cong [OF this(1), of backlog] have "backlog ?h = [stream]" by (simp add: hub_up_def)
  with step stream served show ?thesis by blast
qed





end
