(* ===== verification/Orphan.thy ===== *)
theory Orphan
  imports Daemon
begin

text \<open>
  A daemon whose socket has been removed. \<open>serve_listener\<close> looks at its path only when \<open>accept\<close> fails, and
  nothing that happens to the file system makes \<open>accept\<close> fail: the daemon goes on, and no client finds it.
\<close>

section \<open>Where a socket is\<close>

text \<open>Inodes of socket \<open>l\<close> are at places of \<open>K\<close> only. No call gives an old socket a new name.\<close>

definition names :: "nat \<Rightarrow> file_key set \<Rightarrow> sys \<Rightarrow> bool" where
  "names l K s \<longleftrightarrow> (\<forall>k n. lookup s k = Some n \<longrightarrow> content n = Socket l \<longrightarrow> k \<in> K)"

lemma names_set_node: "names l K s \<Longrightarrow> (\<And>m. n = Some m \<Longrightarrow> content m = Socket l \<Longrightarrow> k \<in> K) \<Longrightarrow> names l K (set_node k n s)"
  by (auto simp: names_def lookup_set_node_eq lookup_root split: if_splits)

lemma names_nodes: "nodes t = nodes s \<Longrightarrow> names l K t = names l K s"
  by (simp add: names_def lookup_def)

lemma names_mkdir: "names l K s \<Longrightarrow> names l K (snd (mkdir k s))"
  by (auto simp: mkdir_def intro!: names_set_node split: option.split)

lemma names_create_parent: "names l K s \<Longrightarrow> names l K (snd (create_parent p s))"
  by (cases p s rule: create_parent_cases) (simp_all add: create_dir_all_key_invariant [where P = "names l K", OF names_mkdir])

lemma names_remove_file: "names l K s \<Longrightarrow> names l K (snd (remove_file p s))"
  by (auto simp: remove_file_def intro!: names_set_node split: option.split)

lemma names_claim: "names l K s \<Longrightarrow> names l K (snd (claim nix p name s))"
  using connect_pure [of p s] names_remove_file [of l K s p]
  by (auto simp: claim_def split: prod.splits sum.splits)

lemma names_listener_bind:
  assumes "names l K s" and "l \<noteq> next_socket s \<or> key p \<in> K"
  shows "names l K (snd (listener_bind pid p s))"
proof -
  have "names l K (s\<lparr>listening := f, next_socket := i\<rparr>)" for f i
    using assms(1) names_nodes [of "s\<lparr>listening := f, next_socket := i\<rparr>" s] by simp
  with assms show ?thesis
    by (auto simp: listener_bind_def Let_def intro!: names_set_node split: option.split)
qed

lemma names_set_permissions: "names l K s \<Longrightarrow> names l K (snd (set_permissions p m s))"
  by (auto simp: set_permissions_def names_def lookup_set_node_eq split: option.splits if_splits)

lemma names_owner:
  assumes "chown_changes_owner_only nix" and "names l K s"
  shows "names l K (snd (set_owner_and_mode nix opts s))"
  unfolding set_owner_and_mode_def apply_socket_perms_def
  using assms metadata_pure
  by (auto simp: chown_changes_owner_only_def chown_socket_def ok_def names_set_permissions split: option.split
      intro!: try_bind_keeps [where P = "names l K"])

lemma names_close [simp]: "names l K (close_listener i s) = names l K s"
  by (rule names_nodes) (simp add: close_listener_def)

text \<open>Socket numbers go up only.\<close>

lemma listener_bind_next: "next_socket s \<le> next_socket (snd (listener_bind pid p s))"
  by (simp add: listener_bind_def Let_def split: option.split)

lemma claim_next: "next_socket (snd (claim nix p name s)) = next_socket s"
  by (rule agrees_off_fields [OF claim_frame])

lemma owner_next: "chown_changes_owner_only nix \<Longrightarrow> next_socket (snd (set_owner_and_mode nix opts s)) = next_socket s"
  by (rule agrees_off_fields [OF set_owner_and_mode_frame])

lemma close_next: "next_socket (close_listener l s) = next_socket s"
  by (simp add: close_listener_def)

lemmas bind_calls_next = create_parent_fields claim_next owner_next close_next

lemma next_socket_bind:
  assumes "chown_changes_owner_only nix" and "l < next_socket s"
  shows "l < next_socket (snd (bind nix pid opts s))"
  by (rule bind_keeps [where P = "\<lambda>t. l < next_socket t"])
    (use assms less_le_trans [OF _ listener_bind_next] in \<open>simp_all add: bind_calls_next\<close>)

text \<open>A bind puts a new socket at its own path.\<close>

lemma names_bind:
  assumes "chown_changes_owner_only nix" and "names l K s" and "l < next_socket s \<or> key (bo_path opts) \<in> K"
  shows "names l K (snd (bind nix pid opts s))"
proof -
  let ?P = "\<lambda>t. names l K t \<and> (l < next_socket t \<or> key (bo_path opts) \<in> K)"
  have "?P (snd (bind nix pid opts s))"
  proof (rule bind_keeps [where P = ?P])
    fix t
    assume t: "?P t"
    then have "l < next_socket (snd (listener_bind pid (bo_path opts) t)) \<or> key (bo_path opts) \<in> K"
      using less_le_trans [OF _ listener_bind_next] by blast
    with t show "?P (snd (listener_bind pid (bo_path opts) t))" using names_listener_bind by blast
  qed (use assms in \<open>simp_all add: names_create_parent names_claim names_owner bind_calls_next\<close>)
  then show ?thesis ..
qed

section \<open>The daemon and its socket\<close>

text \<open>The socket of a running daemon is at its path or nowhere.\<close>

definition located :: "('s, 'v) service \<Rightarrow> ('s, 'v) site \<Rightarrow> bool" where
  "located sc h \<longleftrightarrow> (\<forall>srv. running h = Some srv \<longrightarrow>
     sv_listener srv < next_socket (os_state h) \<and> names (sv_listener srv) {key (bo_path (sc_opts sc))} (os_state h))"

lemma sys_wf_new_socket: "sys_wf s \<Longrightarrow> names (next_socket s) K s"
  by (auto simp: sys_wf_def socket_ok_def names_def) fastforce

lemma bind_new_socket:
  assumes "chown_changes_owner_only nix" and "sys_wf s" and "bind nix pid opts s = (Inr l, t)"
  shows "l < next_socket t \<and> names l {key (bo_path opts)} t"
proof (cases rule: bind_cases [where opts = opts and s = s and nix = nix and pid = pid])
  case (bound s1 s2 s3 s4 l')
  have l: "l' = l" "s4 = t" using bound(5) assms(3) by simp_all
  have "l = next_socket s"
    using listener_bind_ok [OF bound(3)] bound(1,2) l create_parent_fields(2) [of "bo_path opts" s]
      claim_next [of nix "bo_path opts" "bo_process_name opts" s1] by simp
  moreover have "l < next_socket t"
    using listener_bind_ok [OF bound(3)] bound(4) l owner_next [OF assms(1), of opts s3] by simp
  ultimately show ?thesis
    using names_bind [OF assms(1) sys_wf_new_socket [OF assms(2)], of opts "{key (bo_path opts)}" pid] assms(3) by simp
qed (use assms(3) in simp_all)

lemma located_step:
  assumes "chown_changes_owner_only (sc_nix sc)" and "site_step sc h a h'" and "site_ok sc h" and "located sc h"
  shows "located sc h'"
  using assms(2)
proof cases
  case (serve_ok srv r s)
  from serve_ok(4) obtain l where "bind (sc_nix sc) (sc_pid sc) (sc_opts sc) (os_state h) = (Inr l, s)" "sv_listener srv = l"
    by (rule serve_serviceE)
  with bind_new_socket [OF assms(1)] assms(3) serve_ok show ?thesis by (auto simp: located_def site_ok_def)
next
  case (other_binds pid stream probe opts)
  with assms(1,4) names_bind [OF assms(1)] next_socket_bind [OF assms(1)] show ?thesis
    by (simp add: located_def)
next
  case (unlinks p)
  then show ?thesis using assms(4) names_remove_file by (auto simp: located_def remove_file_def split: option.split)
qed (use assms(4) in \<open>auto simp: located_def close_next\<close>)

lemma located_runs:
  assumes "chown_changes_owner_only (sc_nix sc)" and "site_runs sc h acts h'" and "site_ok sc h" and "located sc h"
  shows "located sc h'"
proof -
  from assms(3,4) have "site_ok sc h \<and> located sc h" ..
  with assms(2) have "site_ok sc h' \<and> located sc h'"
    by (rule runs_invariant) (use site_ok_step [OF assms(1)] located_step [OF assms(1)] in blast)
  then show ?thesis ..
qed

section \<open>Nobody comes any more\<close>

definition orphaned :: "('s, 'v) server \<Rightarrow> ('s, 'v) site \<Rightarrow> bool" where
  "orphaned srv h \<longleftrightarrow>
     running h = Some srv \<and> sv_listener srv < next_socket (os_state h) \<and> names (sv_listener srv) {} (os_state h)"

lemma names_not_serving: "names l {} s \<Longrightarrow> serving s p \<noteq> Some l"
  by (auto simp: names_def serving_lookup)

lemma orphaned_probes:
  assumes "orphaned srv h"
  shows "\<not> probes h opts"
proof -
  obtain r s where par: "create_parent (bo_path opts) (os_state h) = (r, s)" by fastforce
  with assms names_create_parent [of "sv_listener srv" "{}" "os_state h" "bo_path opts"]
  have "names (sv_listener srv) {} s" by (simp add: orphaned_def)
  then have "stream_id x \<noteq> sv_listener srv" if "connect (bo_path opts) s = (Inr x, t)" for x t
    using connect_ok_serving [OF that] names_not_serving by metis
  with assms par show ?thesis by (auto simp: probes_def orphaned_def split: sum.split prod.split)
qed

lemma orphaned_step:
  assumes "chown_changes_owner_only (sc_nix sc)" and "site_step sc h a h'" and "a \<noteq> Dies" and "a \<noteq> ServeReturns"
    and "orphaned srv h"
  shows "orphaned srv h' \<and> arrived h' = arrived h"
  using assms(2)
proof cases
  case (connects srv' stream)
  with assms(5) names_not_serving show ?thesis by (simp add: orphaned_def)
next
  case (other_binds pid stream probe opts)
  with orphaned_probes [OF assms(5)] assms(5) names_bind [OF assms(1)] next_socket_bind [OF assms(1)] show ?thesis
    by (simp add: orphaned_def)
next
  case (unlinks p)
  then show ?thesis using assms(5) names_remove_file by (auto simp: orphaned_def remove_file_def split: option.split)
qed (use assms(3-5) in \<open>auto simp: orphaned_def close_next\<close>)

lemma unlinked_orphaned:
  assumes "site_ok sc h" and "located sc h" and "running h = Some srv" and "site_step sc h (Unlinks p) h'"
    and "key p = key (bo_path (sc_opts sc))"
  shows "orphaned srv h' \<and> arrived h' = arrived h \<and> accept_loop h' = accept_loop h"
proof -
  have h': "h' = h\<lparr>os_state := snd (remove_file p (os_state h))\<rparr>" using assms(4) by (auto elim: site_step.cases)
  have at: "names (sv_listener srv) {key p} (os_state h)" "sv_listener srv < next_socket (os_state h)"
    using assms(2,3,5) by (simp_all add: located_def)
  have "names (sv_listener srv) {} (snd (remove_file p (os_state h)))"
    using at(1) assms(1) unfolding remove_file_def site_ok_def names_def
    by (auto simp: lookup_set_node_eq lookup_root split: option.splits if_splits)
  with h' at(2) assms(3) show ?thesis by (auto simp: orphaned_def remove_file_def split: option.splits)
qed

lemma alive_step:
  assumes "site_step sc h a h'" and "running h = Some srv" and "a \<notin> {LoopRuns AcceptorPanics, LoopRuns AcceptFailed}"
    and "acceptor (accept_loop h) \<notin> {Stopped, Aborted}"
  shows "acceptor (accept_loop h') \<notin> {Stopped, Aborted} \<and> a \<noteq> ServeReturns"
  using assms(1)
proof cases
  case (accepts srv' stream rest r)
  with assms(4) serve_step_lives [OF accepts(5)] show ?thesis by simp
next
  case (loop_runs srv' b r)
  with assms(3,4) serve_step_lives [OF loop_runs(6)] show ?thesis by simp
qed (use assms(2-4) in auto)

section \<open>Property\<close>

text \<open>
  C22: A daemon whose socket is removed serves on, unheard. \<open>serve\<close> is documented to end when the socket path
  disappears. But from the moment somebody removes the socket of a running daemon, whatever others then do,
  another daemon's start on the path included: as long as \<open>accept\<close> reports no error, nobody kills the
  process and nothing panics, it does not return; it keeps its listener; and no connection arrives any more,
  because no call ever gives a socket a name again.
\<close>

theorem unlinked_daemon_hears_no_one:
  assumes "chown_changes_owner_only (sc_nix sc)" and "faults s = (\<lambda>_ _. None)" and "sys_wf s"
    and "site_runs sc (site_start sc s) before h" and "running h = Some srv"
    and "acceptor (accept_loop h) \<notin> {Stopped, Aborted}"
    and "site_step sc h (Unlinks p) h1" and "key p = key (bo_path (sc_opts sc))"
    and "site_runs sc h1 later h2"
    and "set later \<inter> {Dies, LoopRuns AcceptorPanics, LoopRuns AcceptFailed} = {}"
  shows "running h2 = Some srv \<and> listening (os_state h2) (sv_listener srv) = Some (sc_pid sc) \<and> arrived h2 = arrived h \<and>
    (\<forall>q. serving (os_state h2) q \<noteq> Some (sv_listener srv)) \<and> (\<forall>h3. \<not> site_step sc h2 ServeReturns h3)"
proof -
  have ok: "site_ok sc h" by (rule site_ok_runs [OF assms(1,4) site_ok_start [OF assms(2,3)]])
  have "located sc (site_start sc s)" by (simp add: located_def site_start_def)
  from located_runs [OF assms(1,4) site_ok_start [OF assms(2,3)] this]
  have first: "orphaned srv h1 \<and> arrived h1 = arrived h \<and> acceptor (accept_loop h1) \<notin> {Stopped, Aborted}"
    using unlinked_orphaned [OF ok _ assms(5,7,8)] assms(6) by simp
  have "orphaned srv h2 \<and> arrived h2 = arrived h \<and> acceptor (accept_loop h2) \<notin> {Stopped, Aborted}"
    using assms(9) first
  proof (rule runs_invariant)
    fix g a g'
    assume "a \<in> set later" and step: "site_step sc g a g'"
      and inv: "orphaned srv g \<and> arrived g = arrived h \<and> acceptor (accept_loop g) \<notin> {Stopped, Aborted}"
    then have a: "a \<noteq> Dies" "a \<notin> {LoopRuns AcceptorPanics, LoopRuns AcceptFailed}" using assms(10) by auto
    have "running g = Some srv" using inv by (simp add: orphaned_def)
    from alive_step [OF step this a(2)] inv orphaned_step [OF assms(1) step a(1), of srv]
    show "orphaned srv g' \<and> arrived g' = arrived h \<and> acceptor (accept_loop g') \<notin> {Stopped, Aborted}" by simp
  qed
  moreover have "site_ok sc h2"
    by (rule site_ok_runs [OF assms(1,9) site_ok_step [OF assms(1,7) ok]])
  ultimately show ?thesis
    using names_not_serving by (auto simp: orphaned_def site_ok_def elim: site_step.cases)
qed

text \<open>The witness: the socket is removed, and another process binds the path.\<close>

theorem unlinked_daemon_hears_no_one_witness:
  "\<exists>h2. site_runs echo_service hub_up [Unlinks ''/run/d.sock'', OtherBinds 8 hub_opts] h2 \<and>
     running h2 = Some (echo_server (Some 4)) \<and> arrived h2 = [] \<and> serving (os_state h2) ''/run/d.sock'' \<noteq> Some 0"
proof -
  define h1 where "h1 = hub_up\<lparr>os_state := snd (remove_file ''/run/d.sock'' (os_state hub_up))\<rparr>"
  define probe where "probe = (if probes h1 hub_opts then [client []] else [])"
  define h2 where "h2 = h1\<lparr>os_state := snd (bind no_nix 8 hub_opts (os_state h1)), backlog := backlog h1 @ probe,
    arrived := arrived h1 @ probe\<rparr>"
  have start: "site_runs echo_service (site_start echo_service hub_sys) [Serve] hub_up"
    by (rule runs_single, rule hub_serves)
  have one: "site_step echo_service hub_up (Unlinks ''/run/d.sock'') h1" unfolding h1_def by (rule unlinks)
  have two: "site_step echo_service h1 (OtherBinds 8 hub_opts) h2"
    using other_binds [of 8 echo_service "client []" probe h1 hub_opts] by (simp add: h2_def probe_def)
  have chown: "chown_changes_owner_only (sc_nix echo_service)" using hub_facts(1) by simp
  have path: "key ''/run/d.sock'' = key (bo_path (sc_opts echo_service))" by (simp add: hub_opts_def)
  have up: "running hub_up = Some (echo_server (Some 4))" "acceptor (accept_loop hub_up) \<notin> {Stopped, Aborted}"
    "arrived hub_up = []" by (simp_all add: hub_up_def accept_start_def)
  have quiet: "set [OtherBinds 8 hub_opts] \<inter> {Dies, LoopRuns AcceptorPanics, LoopRuns AcceptFailed} = {}" by simp
  from unlinked_daemon_hears_no_one [OF chown hub_facts(3) hub_sys_wf start up(1,2) one path runs_single [where step = "site_step echo_service", OF two] quiet]
  have "running h2 = Some (echo_server (Some 4))" "arrived h2 = []" "serving (os_state h2) ''/run/d.sock'' \<noteq> Some 0"
    using up(3) by simp_all
  moreover have "site_runs echo_service hub_up [Unlinks ''/run/d.sock'', OtherBinds 8 hub_opts] h2"
    by (rule runs.more, rule one, rule runs.more, rule two, rule halt)
  ultimately show ?thesis by blast
qed

end
