(* ===== verification/Fleet.thy ===== *)
theory Fleet
  imports Daemon
begin

text \<open>
  Any number of daemons on one machine: each runs \<open>serve\<close> of \<open>ipc/server.rs\<close> on the file system and the
  sockets they share, besides processes of other programs. What one of them does to the machine, each of the
  others sees as an act of a stranger, so that all that holds of a daemon among strangers holds of each.
\<close>

section \<open>The fleet\<close>

text \<open>
  The state of daemon \<open>i\<close> is \<open>daemon F i\<close>: what it has of its own, on the machine as it is. A daemon that
  starts may knock at the others: its \<open>connect\<close> probe arrives where a listener answers.
\<close>

record ('s, 'v) fleet =
  machine :: sys
  crew :: "nat \<Rightarrow> ('s, 'v) site"

definition daemon :: "('s, 'v) fleet \<Rightarrow> nat \<Rightarrow> ('s, 'v) site" where
  "daemon F i = (crew F i)\<lparr>os_state := machine F\<rparr>"

definition fleet_start :: "(nat \<Rightarrow> ('s, 'v) service) \<Rightarrow> sys \<Rightarrow> ('s, 'v) fleet" where
  "fleet_start scs s = \<lparr>machine = s, crew = (\<lambda>i. site_start (scs i) s)\<rparr>"

definition knock :: "unix_stream \<Rightarrow> bind_options \<Rightarrow> ('s, 'v) site \<Rightarrow> ('s, 'v) site" where
  "knock stream opts h =
     (if probes h opts then h\<lparr>backlog := backlog h @ [stream], arrived := arrived h @ [stream]\<rparr> else h)"

definition own_act :: "site_action \<Rightarrow> bool" where
  "own_act a = (case a of OtherBinds _ _ \<Rightarrow> False | OtherCloses _ \<Rightarrow> False | Unlinks _ \<Rightarrow> False | _ \<Rightarrow> True)"

datatype fleet_action = Act nat site_action | Stranger site_action

inductive fleet_step ::
  "(nat \<Rightarrow> ('s, 'v) service) \<Rightarrow> ('s, 'v) fleet \<Rightarrow> fleet_action \<Rightarrow> ('s, 'v) fleet \<Rightarrow> bool"
  for scs :: "nat \<Rightarrow> ('s, 'v) service" where
  act: "site_step (scs i) (daemon F i) a h \<Longrightarrow> own_act a \<Longrightarrow> incoming stream = [] \<Longrightarrow> outgoing stream = [] \<Longrightarrow>
     fleet_step scs F (Act i a)
       \<lparr>machine = os_state h,
        crew = (\<lambda>j. if j = i then h else if a = Serve then knock stream (sc_opts (scs i)) (daemon F j) else crew F j)\<rparr>"
| stranger: "\<not> own_act a \<Longrightarrow> (\<And>j. site_step (scs j) (daemon F j) a (hs j)) \<Longrightarrow> (\<And>j. os_state (hs j) = s) \<Longrightarrow>
     fleet_step scs F (Stranger a) \<lparr>machine = s, crew = hs\<rparr>"

abbreviation fleet_runs ::
  "(nat \<Rightarrow> ('s, 'v) service) \<Rightarrow> ('s, 'v) fleet \<Rightarrow> fleet_action list \<Rightarrow> ('s, 'v) fleet \<Rightarrow> bool" where
  "fleet_runs scs \<equiv> runs (fleet_step scs)"

section \<open>One daemon among the others\<close>

text \<open>What daemon \<open>j\<close> sees of a step of the fleet.\<close>

definition seen :: "(nat \<Rightarrow> ('s, 'v) service) \<Rightarrow> ('s, 'v) fleet \<Rightarrow> nat \<Rightarrow> fleet_action \<Rightarrow> site_action list" where
  "seen scs F j act =
     (case act of
        Stranger a \<Rightarrow> [a]
      | Act i a \<Rightarrow>
          if j = i then [a]
          else if a = Serve then [OtherBinds (sc_pid (scs i)) (sc_opts (scs i))]
          else if a = ServeReturns \<or> a = Dies
          then (case running (crew F i) of Some srv \<Rightarrow> [OtherCloses (sv_listener srv)] | None \<Rightarrow> [])
          else [])"

lemma daemon_fields [simp]:
  "os_state (daemon F i) = machine F" "running (daemon F i) = running (crew F i)"
  by (simp_all add: daemon_def)

lemma serve_service_sys: "snd (serve_service sc s) = snd (bind (sc_nix sc) (sc_pid sc) (sc_opts sc) s)"
  by (simp add: serve_service_eq split: prod.split sum.split)

lemma serve_sys:
  assumes "site_step sc h Serve h'"
  shows "os_state h' = snd (bind (sc_nix sc) (sc_pid sc) (sc_opts sc) (os_state h))"
  using assms by cases (use serve_service_sys [of sc "os_state h"] in \<open>simp_all\<close>)

text \<open>A start of another daemon is a bind of a stranger, its end a close.\<close>

lemma knock_is_bind:
  assumes "pid \<noteq> sc_pid sc" and "incoming stream = []" and "outgoing stream = []"
  shows "site_step sc h (OtherBinds pid opts) ((knock stream opts h)\<lparr>os_state := snd (bind (sc_nix sc) pid opts (os_state h))\<rparr>)"
  using other_binds [OF assms refl, of h opts] by (cases "probes h opts"; cases h) (simp_all add: knock_def)

lemma closing_step:
  assumes "site_step sc h a h'" and "a = ServeReturns \<or> a = Dies"
  obtains srv where "running h = Some srv" "os_state h' = close_listener (sv_listener srv) (os_state h)"
  using assms by (auto elim: site_step.cases)

lemma quiet_step:
  assumes "site_step sc h a h'" and "own_act a" and "a \<noteq> Serve" "a \<noteq> ServeReturns" "a \<noteq> Dies"
  shows "os_state h' = os_state h"
  using assms by (auto elim!: site_step.cases simp: own_act_def)

definition fleet_ok :: "(nat \<Rightarrow> ('s, 'v) service) \<Rightarrow> ('s, 'v) fleet \<Rightarrow> bool" where
  "fleet_ok scs F \<longleftrightarrow> (\<forall>i. site_ok (scs i) (daemon F i))"

lemma other_sees:
  assumes "inj (\<lambda>i. sc_pid (scs i))" and "\<And>i. sc_nix (scs i) = nix" and "fleet_ok scs F" and "j \<noteq> i"
    and "site_step (scs i) (daemon F i) a h" and "own_act a" and "incoming stream = []" and "outgoing stream = []"
  shows "site_runs (scs j) (daemon F j) (seen scs F j (Act i a))
    ((if a = Serve then knock stream (sc_opts (scs i)) (daemon F j) else crew F j)\<lparr>os_state := os_state h\<rparr>)"
proof -
  have pids: "sc_pid (scs i) \<noteq> sc_pid (scs j)" using assms(1,4) by (auto dest: injD)
  consider "a = Serve" | "a = ServeReturns \<or> a = Dies" | "a \<noteq> Serve" "a \<noteq> ServeReturns" "a \<noteq> Dies" by blast
  then show ?thesis
  proof cases
    case 1
    have "os_state h = snd (bind (sc_nix (scs j)) (sc_pid (scs i)) (sc_opts (scs i)) (os_state (daemon F j)))"
      using serve_sys [OF assms(5) [unfolded 1]] assms(2) by simp
    with knock_is_bind [OF pids assms(7,8), of "daemon F j" "sc_opts (scs i)"]
    have "site_step (scs j) (daemon F j) (OtherBinds (sc_pid (scs i)) (sc_opts (scs i)))
        ((knock stream (sc_opts (scs i)) (daemon F j))\<lparr>os_state := os_state h\<rparr>)" by (simp only:)
    with 1 assms(4) show ?thesis by (simp add: seen_def runs_single)
  next
    case 2
    from closing_step [OF assms(5) 2] obtain srv where srv: "running (crew F i) = Some srv"
      "os_state h = close_listener (sv_listener srv) (machine F)" by auto
    with assms(3) have "listening (machine F) (sv_listener srv) = Some (sc_pid (scs i))"
      by (auto simp: fleet_ok_def site_ok_def)
    from other_closes [where h = "daemon F j" and l = "sv_listener srv", OF _ pids] this srv
    have "site_step (scs j) (daemon F j) (OtherCloses (sv_listener srv)) ((crew F j)\<lparr>os_state := os_state h\<rparr>)"
      by (simp add: daemon_def)
    with 2 srv(1) assms(4) show ?thesis by (auto simp: seen_def intro: runs_single)
  next
    case 3
    with assms(4) quiet_step [OF assms(5,6)] show ?thesis by (simp add: seen_def daemon_def)
  qed
qed

lemma fleet_step_seen:
  assumes "inj (\<lambda>i. sc_pid (scs i))" and "\<And>i. sc_nix (scs i) = nix" and "fleet_ok scs F" and "fleet_step scs F act F'"
  shows "site_runs (scs j) (daemon F j) (seen scs F j act) (daemon F' j)"
  using assms(4)
proof cases
  case (act i a h stream)
  have "site_runs (scs j) (daemon F j) (seen scs F j (Act i a)) (daemon F' j)" if "j = i"
    using act that by (auto simp: seen_def daemon_def intro!: runs_single)
  moreover have "site_runs (scs j) (daemon F j) (seen scs F j (Act i a)) (daemon F' j)" if "j \<noteq> i"
  proof -
    have "daemon F' j = (if a = Serve then knock stream (sc_opts (scs i)) (daemon F j) else crew F j)\<lparr>os_state := os_state h\<rparr>"
      using that act(2) by (simp add: daemon_def)
    with other_sees [OF assms(1-3) that act(3-6)] show ?thesis by (simp only:)
  qed
  ultimately show ?thesis using act(1) by blast
next
  case (stranger a hs s)
  have "daemon F' j = hs j" using stranger(2) stranger(5) [of j] by (simp add: daemon_def)
  with stranger(1) stranger(4) [of j] show ?thesis by (simp add: seen_def runs_single)
qed

lemma fleet_ok_step:
  assumes "inj (\<lambda>i. sc_pid (scs i))" and "\<And>i. sc_nix (scs i) = nix" and "chown_changes_owner_only nix"
    and "fleet_ok scs F" and "fleet_step scs F act F'"
  shows "fleet_ok scs F'"
  unfolding fleet_ok_def
proof
  fix j
  show "site_ok (scs j) (daemon F' j)"
    using site_ok_runs [OF _ fleet_step_seen [OF assms(1,2,4,5)], of j] assms(2-4) by (simp add: fleet_ok_def)
qed

text \<open>Strangers alone remove files.\<close>

lemma fleet_step_acts: "fleet_step scs F act F' \<Longrightarrow> (case act of Act i a \<Rightarrow> own_act a | Stranger a \<Rightarrow> \<not> own_act a)"
  by (erule fleet_step.cases) simp_all

lemma seen_unlinks:
  assumes "Unlinks p \<in> set (seen scs F j act)" and "fleet_step scs F act F'"
  shows "act = Stranger (Unlinks p)"
proof (cases act)
  case (Act i a)
  with fleet_step_acts [OF assms(2)] have "Unlinks p \<noteq> a" by (auto simp: own_act_def)
  with assms(1) Act show ?thesis 
    by (cases "j = i"; cases "a = Serve"; cases "a = ServeReturns \<or> a = Dies"; cases "running (crew F i)")
      (simp_all add: seen_def)
next
  case (Stranger a)
  with assms(1) show ?thesis by (simp add: seen_def)
qed

lemma fleet_runs_seen:
  assumes "inj (\<lambda>i. sc_pid (scs i))" and "\<And>i. sc_nix (scs i) = nix" and "chown_changes_owner_only nix"
    and "fleet_runs scs F acts F'" and "fleet_ok scs F"
  shows "fleet_ok scs F' \<and> (\<exists>as. site_runs (scs j) (daemon F j) as (daemon F' j) \<and>
    (\<forall>p. Unlinks p \<in> set as \<longrightarrow> Stranger (Unlinks p) \<in> set acts))"
  using assms(4,5)
proof induction
  case (halt F)
  then show ?case by (intro conjI exI [of _ "[]"]) simp_all
next
  case (more F act F1 acts F2)
  from fleet_ok_step [OF assms(1-3) more.prems more.hyps(1)] more.IH obtain as where
    as: "site_runs (scs j) (daemon F1 j) as (daemon F2 j)" "\<forall>p. Unlinks p \<in> set as \<longrightarrow> Stranger (Unlinks p) \<in> set acts"
    and ok: "fleet_ok scs F2" by blast
  have "site_runs (scs j) (daemon F j) (seen scs F j act @ as) (daemon F2 j)"
    unfolding runs_append by (intro exI conjI, rule fleet_step_seen [OF assms(1,2) more.prems more.hyps(1)], rule as(1))
  moreover have "\<forall>p. Unlinks p \<in> set (seen scs F j act @ as) \<longrightarrow> Stranger (Unlinks p) \<in> set (act # acts)"
    using as(2) seen_unlinks [OF _ more.hyps(1)] by auto
  ultimately show ?case using ok by blast
qed

lemma daemon_fleet_start: "daemon (fleet_start scs s) j = site_start (scs j) s"
  by (simp add: daemon_def fleet_start_def site_start_def)

lemma fleet_start_ok: "faults s = (\<lambda>_ _. None) \<Longrightarrow> sys_wf s \<Longrightarrow> fleet_ok scs (fleet_start scs s)"
  by (simp add: fleet_ok_def daemon_fleet_start site_ok_start)

section \<open>Two starts for the witnesses\<close>

definition echo_fleet :: "nat \<Rightarrow> (atomic_usize, string) service" where
  "echo_fleet i = echo_service\<lparr>sc_pid := 7 + i\<rparr>"

lemma echo_fleet_simps [simp]:
  "sc_nix (echo_fleet i) = no_nix" "sc_pid (echo_fleet i) = 7 + i" "sc_opts (echo_fleet i) = hub_opts"
  "inj (\<lambda>i. sc_pid (echo_fleet i))"
  by (simp_all add: echo_fleet_def inj_def)

lemma echo_fleet_0: "echo_fleet 0 = echo_service"
  by (simp add: echo_fleet_def echo_service_def)

lemma knock_running [simp]: "running (knock stream opts h) = running h"
  by (simp add: knock_def)

lemma can_serve: "running h = None \<Longrightarrow> \<exists>h'. site_step sc h Serve h'"
proof -
  assume down: "running h = None"
  obtain r s where rs: "serve_service sc (os_state h) = (r, s)" by fastforce
  show ?thesis
  proof (cases r)
    case (Inl e)
    show ?thesis by (rule exI, rule serve_error [OF down], use rs Inl in simp)
  next
    case (Inr p)
    then obtain srv l where "r = Inr (srv, l)" by (cases p) simp
    with rs have "serve_service sc (os_state h) = (Inr (srv, l), s)" by simp
    from serve_ok [OF down this] show ?thesis by blast
  qed
qed

lemma start_act:
  assumes "site_step (scs i) (daemon F i) Serve h"
  shows "fleet_step scs F (Act i Serve)
    \<lparr>machine = os_state h, crew = (\<lambda>j. if j = i then h else knock (client []) (sc_opts (scs i)) (daemon F j))\<rparr>"
  using act [where scs = scs and i = i and F = F and a = Serve and h = h and stream = "client []"] assms
  by (simp add: own_act_def cong: if_cong)

lemma two_starts:
  "\<exists>F. fleet_runs echo_fleet (fleet_start echo_fleet hub_sys) [Act 0 Serve, Act 1 Serve] F \<and>
     running (crew F 0) = Some (echo_server (Some 4))"
proof -
  define F0 where "F0 = fleet_start echo_fleet hub_sys"
  define F1 where "F1 = \<lparr>machine = os_state hub_up, crew = (\<lambda>j. if j = 0 then hub_up
    else knock (client []) (sc_opts (echo_fleet 0)) (daemon F0 j))\<rparr>"
  have "site_step (echo_fleet 0) (daemon F0 0) Serve hub_up"
    using hub_serves by (simp add: F0_def daemon_fleet_start echo_fleet_0)
  from start_act [where scs = echo_fleet and F = F0 and i = 0, OF this] have one: "fleet_step echo_fleet F0 (Act 0 Serve) F1" unfolding F1_def .
  have "running (daemon F1 1) = None" by (simp add: F1_def F0_def fleet_start_def site_start_def)
  from can_serve [OF this] obtain h where h: "site_step (echo_fleet 1) (daemon F1 1) Serve h" by blast
  define F2 where "F2 = \<lparr>machine = os_state h, crew = (\<lambda>j. if j = 1 then h
    else knock (client []) (sc_opts (echo_fleet 1)) (daemon F1 j))\<rparr>"
  from start_act [where scs = echo_fleet and F = F1 and i = 1, OF h] have two: "fleet_step echo_fleet F1 (Act 1 Serve) F2" unfolding F2_def .
  have "running (crew F2 0) = Some (echo_server (Some 4))"
    by (simp add: F2_def F1_def hub_up_def)
  moreover have "fleet_runs echo_fleet F0 [Act 0 Serve, Act 1 Serve] F2"
    by (rule runs.more, rule one, rule runs.more, rule two, rule halt)
  ultimately show ?thesis unfolding F0_def by blast
qed

section \<open>Properties\<close>



text \<open>
  C5: At most one daemon runs on a path. On a machine without system faults, in every run of any number of
  daemons and strangers in which nobody removes the socket, with starts, ends and crashes in any order: two
  daemons that run on the same path are one, and clients of the path reach it. (The starts themselves do
  not overlap here; that they must not is shown of their system calls.)
\<close>

theorem at_most_one_daemon_runs:
  assumes "inj (\<lambda>i. sc_pid (scs i))" and "\<And>i. sc_nix (scs i) = nix" and "chown_changes_owner_only nix"
    and "faults s = (\<lambda>_ _. None)" and "sys_wf s" and "fleet_runs scs (fleet_start scs s) acts F"
    and "\<forall>p. Stranger (Unlinks p) \<in> set acts \<longrightarrow> key p \<noteq> key (bo_path (sc_opts (scs i)))"
    and "key (bo_path (sc_opts (scs j))) = key (bo_path (sc_opts (scs i)))"
    and "running (crew F i) = Some srv" and "running (crew F j) = Some srv'"
  shows "i = j \<and> serving (machine F) (bo_path (sc_opts (scs i))) = Some (sv_listener srv)"
proof -
  have holds: "holds_path (scs k) (daemon F k) \<and> site_ok (scs k) (daemon F k)"
    if k: "key (bo_path (sc_opts (scs k))) = key (bo_path (sc_opts (scs i)))" for k
  proof -
    obtain as where as: "site_runs (scs k) (site_start (scs k) s) as (daemon F k)"
      "\<forall>p. Unlinks p \<in> set as \<longrightarrow> Stranger (Unlinks p) \<in> set acts"
      using fleet_runs_seen [OF assms(1-3,6) fleet_start_ok [OF assms(4,5)], of k] unfolding daemon_fleet_start by blast
    have chown: "chown_changes_owner_only (sc_nix (scs k))" using assms(2,3) by simp
    have "holds_path (scs k) (site_start (scs k) s) \<and> site_ok (scs k) (site_start (scs k) s)"
      using site_ok_start [OF assms(4,5)] by (simp add: holds_path_def site_start_def)
    with as(1) show ?thesis
      by (rule runs_invariant) (use holds_path_step [OF chown] site_ok_step [OF chown] as(2) assms(7) k in metis)
  qed
  from holds [OF refl] assms(9) have one: "serving (machine F) (bo_path (sc_opts (scs i))) = Some (sv_listener srv)"
    "listening (machine F) (sv_listener srv) = Some (sc_pid (scs i))"
    by (simp_all add: holds_path_def site_ok_def)
  from holds [OF assms(8)] assms(10) have two: "serving (machine F) (bo_path (sc_opts (scs j))) = Some (sv_listener srv')"
    "listening (machine F) (sv_listener srv') = Some (sc_pid (scs j))"
    by (simp_all add: holds_path_def site_ok_def)
  have "serving (machine F) (bo_path (sc_opts (scs j))) = serving (machine F) (bo_path (sc_opts (scs i)))"
    by (simp add: serving_def assms(8))
  with one two have "sc_pid (scs i) = sc_pid (scs j)" by simp
  with assms(1) one(1) show ?thesis by (auto dest: injD)
qed

theorem at_most_one_daemon_runs_witness:
  "\<exists>F. fleet_runs echo_fleet (fleet_start echo_fleet hub_sys) [Act 0 Serve, Act 1 Serve] F \<and>
     running (crew F 0) \<noteq> None \<and> running (crew F 1) = None"
proof -
  from two_starts obtain F where run: "fleet_runs echo_fleet (fleet_start echo_fleet hub_sys) [Act 0 Serve, Act 1 Serve] F"
    and up: "running (crew F 0) = Some (echo_server (Some 4))" by blast
  have "running (crew F 1) = None"
  proof (rule ccontr)
    assume "running (crew F 1) \<noteq> None"
    then obtain srv where "running (crew F 1) = Some srv" by blast
    from at_most_one_daemon_runs [OF echo_fleet_simps(4,1) _ hub_facts(3) hub_sys_wf run _ _ up this] hub_facts(1)
    show False by simp
  qed
  with run up show ?thesis by auto
qed

end
