(* ===== verification/Clients.thy ===== *)
theory Clients
  imports Daemon
begin

text \<open>
  The client threads of a daemon beside each other. A thread takes a bounded number of its own steps,
  whatever the others do; where replies do not depend on the shared state, each client gets what its
  session alone would give it; and where the commands commute, the daemon leaves the shared state that
  handling the connections one after the other would leave.
\<close>

section \<open>Every client gets through\<close>

text \<open>How many steps a client thread has left at most: three for each byte of input, and the ends.\<close>

fun steps_left :: "'v handler_pc \<Rightarrow> nat" where
  "steps_left (Starting stream) = 3 * size stream + 3"
| "steps_left (Dispatching conn) = 3 * size (conn_stream conn) + 2"
| "steps_left (Executing body conn) = 3 * size (conn_stream conn) + 4"
| "steps_left (Reporting e final conn) = (if final then 1 else 3 * size (conn_stream conn) + 3)"
| "steps_left (Returned conn) = 0"

lemma steps_left_0: "steps_left pc = 0 \<longleftrightarrow> (\<exists>conn. pc = Returned conn)"
  by (cases pc) auto

lemma steps_left_after:
  "steps_left (after_dispatch session conn) \<le> 3 * size (conn_stream conn) + 2"
  "steps_left (after_failure session e conn) \<le> 1"
  by (cases session; simp)+

lemma steps_left_micro:
  assumes "adds_no_input router hooks"
    and "handle_micro nix json router hooks auth session m (pc, st) = (pc', st')"
  shows "steps_left pc' \<le> steps_left pc - 1"
proof (cases pc)
  case (Starting stream)
  with assms(2) show ?thesis by (auto simp: Let_def conn_new_def split: if_splits)
next
  case (Dispatching conn)
  obtain r conn1 where rd: "read_value json conn = (r, conn1)" by fastforce
  show ?thesis
  proof (cases r)
    case (Inl e)
    with Dispatching rd assms(2) show ?thesis by (auto intro: order_trans [OF steps_left_after(2)])
  next
    case (Inr body)
    with Dispatching rd assms(2) read_value_consumes [of json conn body conn1] show ?thesis by auto
  qed
next
  case (Executing body conn)
  note le = adds_no_inputD [OF assms(1)]
  define k where "k = 3 * size (conn_stream conn) + 3"
  have bound: "steps_left (after_dispatch session c) \<le> k" "steps_left (Reporting e False c) \<le> k"
    if "size (conn_stream c) \<le> size (conn_stream conn)" for c and e
    unfolding k_def by (rule order_trans [OF steps_left_after(1)], use that in simp_all)
  have over: "steps_left (after_failure session e c) \<le> k" for e c
    unfolding k_def by (rule order_trans [OF steps_left_after(2)]) simp
  from assms(2) Executing have "steps_left pc' \<le> k"
    by (auto split: option.splits prod.splits sum.splits ipc_error.splits simp del: steps_left.simps(4)
        intro: bound over le)
  with Executing show ?thesis by (simp add: k_def)
next
  case (Reporting e final conn)
  with assms(2) adds_no_inputD(3) [OF assms(1), of st e conn] steps_left_after(1) [of session]
  show ?thesis by (auto split: prod.splits if_splits intro: order_trans [OF steps_left_after(1)])
next
  case (Returned conn)
  with assms(2) show ?thesis by auto
qed

text \<open>Thread numbers are given once.\<close>

definition ids_fresh :: "('s, 'v) accept_state \<Rightarrow> bool" where
  "ids_fresh r \<longleftrightarrow> (\<forall>i \<ge> next_thread r. threads r i = None)"

lemma ids_fresh_start: "ids_fresh (accept_start st)"
  by (simp add: ids_fresh_def accept_start_def)

lemma ids_fresh_step: "serve_step nix json srv r a r' \<Longrightarrow> ids_fresh r \<Longrightarrow> ids_fresh r' \<and> next_thread r \<le> next_thread r'"
proof (induction rule: serve_step.induct)
  case (acceptor_runs r stream)
  then show ?case by (auto simp: ids_fresh_def split: if_splits)
next
  case (client_runs r i pc pc' st)
  then have "i < next_thread r" by (metis ids_fresh_def not_le option.distinct(1))
  with client_runs.prems show ?case by (auto simp: ids_fresh_def)
qed (auto simp: ids_fresh_def leave_def)

lemma ids_fresh_runs: "serve_runs nix json srv r acts r' \<Longrightarrow> ids_fresh r \<Longrightarrow> ids_fresh r'"
  by (erule runs_invariant [where P = ids_fresh]) (auto dest: ids_fresh_step)

lemma thread_number: "ids_fresh r \<Longrightarrow> threads r i = Some pc \<Longrightarrow> i < next_thread r"
  by (metis ids_fresh_def not_le option.distinct(1))

text \<open>A thread under way after some of its own steps: it has that many less to go, or has left.\<close>

definition under_way :: "nat \<Rightarrow> nat \<Rightarrow> ('s, 'v) accept_state \<Rightarrow> bool" where
  "under_way i k r \<longleftrightarrow> ids_fresh r \<and> i < next_thread r \<and> (\<forall>pc. threads r i = Some pc \<longrightarrow> steps_left pc \<le> k)"

lemma under_way_step:
  assumes "adds_no_input (sv_router srv) (sv_hooks srv)" and "serve_step nix json srv r a r'" and "under_way i k r"
  shows "under_way i (if a = ClientRuns i then k - 1 else k) r'"
proof -
  have "ids_fresh r'" "i < next_thread r'"
    using assms(2,3) ids_fresh_step [OF assms(2)] by (auto simp: under_way_def)
  moreover have "steps_left pc' \<le> (if a = ClientRuns i then k - 1 else k)" if "threads r' i = Some pc'" for pc'
    using assms(2)
  proof cases
    case (acceptor_runs stream)
    with that assms(3) show ?thesis by (auto simp: under_way_def split: if_splits)
  next
    case (client_runs j pc pc1 st)
    show ?thesis
    proof (cases "j = i")
      case True
      with client_runs that assms(3) steps_left_micro [OF assms(1) client_runs(4)] show ?thesis
        by (auto simp: under_way_def dest!: spec [of _ pc])
    qed (use client_runs that assms(3) in \<open>auto simp: under_way_def\<close>)
  qed (use that assms(3) in \<open>auto simp: under_way_def leave_def split: if_splits\<close>)
  ultimately show ?thesis by (simp add: under_way_def)
qed

lemma under_way_runs:
  assumes "adds_no_input (sv_router srv) (sv_hooks srv)" and "serve_runs nix json srv r acts r'" and "under_way i k r"
  shows "under_way i (k - count_list acts (ClientRuns i)) r'"
  using assms(2,3)
proof (induction arbitrary: k rule: runs.induct)
  case (halt r)
  then show ?case by simp
next
  case (more r a r1 acts r')
  from more.IH [OF under_way_step [OF assms(1) more.hyps(1) more.prems]] show ?case
    by (auto split: if_splits)
qed

text \<open>A thread disappears only by leaving or by a panic.\<close>

lemma thread_stays_step:
  assumes "serve_step nix json srv r a r'" and "a \<noteq> ClientPanics i" and "a \<noteq> ClientLeaves i"
    and "threads r i \<noteq> None"
  shows "threads r' i \<noteq> None"
  using assms(1)
proof cases
  case (acceptor_runs stream)
  with assms(4) show ?thesis by (auto split: if_splits)
qed (use assms(2-4) in \<open>auto simp: leave_def\<close>)

lemma thread_stays_runs:
  assumes "serve_runs nix json srv r acts r'" and "ClientPanics i \<notin> set acts" and "ClientLeaves i \<notin> set acts"
    and "threads r i \<noteq> None"
  shows "threads r' i \<noteq> None"
  using assms(1,4) by (rule runs_invariant) (use assms(2,3) thread_stays_step in metis)

section \<open>What a client gets\<close>

text \<open>
  Replies that do not depend on the shared state: the outcome and the connection that a call leaves are
  the same in every state. (The state itself may change.)
\<close>

definition state_blind :: "('s, 'v) router \<Rightarrow> ('s, 'v) error_handler \<Rightarrow> bool" where
  "state_blind router hooks \<longleftrightarrow>
     (\<forall>n cmd v conn st st'. router_get router n = Some cmd \<longrightarrow>
        fst (cmd_execute cmd st v conn) = fst (cmd_execute cmd st' v conn) \<and>
        snd (snd (cmd_execute cmd st v conn)) = snd (snd (cmd_execute cmd st' v conn))) \<and>
     (\<forall>n v conn st st'. snd (hook_unknown hooks st n v conn) = snd (hook_unknown hooks st' n v conn)) \<and>
     (\<forall>e conn st st'. snd (hook_error hooks st e conn) = snd (hook_error hooks st' e conn)) \<and>
     (\<forall>reason conn st st'. snd (hook_reject hooks st reason conn) = snd (hook_reject hooks st' reason conn))"

lemma state_blindD:
  assumes "state_blind router hooks"
  shows "router_get router n = Some cmd \<Longrightarrow> cmd_execute cmd st v conn = (r, st1, conn1) \<Longrightarrow>
      \<exists>st2. cmd_execute cmd st' v conn = (r, st2, conn1)"
    and "hook_unknown hooks st n v conn = (st1, conn1) \<Longrightarrow> \<exists>st2. hook_unknown hooks st' n v conn = (st2, conn1)"
    and "hook_error hooks st e conn = (st1, conn1) \<Longrightarrow> \<exists>st2. hook_error hooks st' e conn = (st2, conn1)"
    and "hook_reject hooks st reason conn = (st1, conn1) \<Longrightarrow> \<exists>st2. hook_reject hooks st' reason conn = (st2, conn1)"
  using assms unfolding state_blind_def by (metis prod.collapse fst_conv snd_conv)+

lemma micro_blind:
  assumes "state_blind router hooks" and "handle_micro nix json router hooks auth session m (pc, st) = (pc', st1)"
  shows "\<exists>st2. handle_micro nix json router hooks auth session m (pc, st') = (pc', st2)"
proof (cases pc)
  case (Starting stream)
  with assms(2) state_blindD(4) [OF assms(1), of st RejectAuth "conn_new stream m" _ _ st'] show ?thesis
    by (cases "hook_reject hooks st RejectAuth (conn_new stream m)") (auto simp: Let_def returned_def split: if_splits)
next
  case (Dispatching conn)
  with assms(2) show ?thesis by (auto split: prod.splits sum.splits)
next
  case (Executing body conn)
  show ?thesis
  proof (cases "Option.bind (json_type_field json body) (router_get router)")
    case None
    define name where "name = (case json_type_field json body of None \<Rightarrow> '''' | Some n \<Rightarrow> n)"
    obtain st3 conn1 where hook: "hook_unknown hooks st name body conn = (st3, conn1)" by fastforce
    from state_blindD(2) [OF assms(1) hook, of st'] obtain st4 where
      hook': "hook_unknown hooks st' name body conn = (st4, conn1)" ..
    from hook hook' None Executing assms(2) show ?thesis
      by (auto simp: name_def bind_eq_None_conv split: option.splits)
  next
    case (Some cmd)
    then obtain name where cmd: "json_type_field json body = Some name" "router_get router name = Some cmd"
      by (auto simp: bind_eq_Some_conv)
    obtain r st3 conn1 where run: "cmd_execute cmd st body conn = (r, st3, conn1)" by (metis prod.collapse)
    from state_blindD(1) [OF assms(1) cmd(2) run, of st'] obtain st4 where
      "cmd_execute cmd st' body conn = (r, st4, conn1)" ..
    with run cmd Executing assms(2) show ?thesis by (auto split: sum.splits ipc_error.splits)
  qed
next
  case (Reporting e final conn)
  obtain st3 conn1 where hook: "hook_error hooks st e conn = (st3, conn1)" by fastforce
  from state_blindD(3) [OF assms(1) hook, of st'] obtain st4 where
    "hook_error hooks st' e conn = (st4, conn1)" ..
  with hook Reporting assms(2) show ?thesis by auto
next
  case (Returned conn)
  with assms(2) show ?thesis by auto
qed

text \<open>The first \<open>n\<close> steps of a client thread that runs alone.\<close>

definition solo :: "nix_lib \<Rightarrow> 'v json_lib \<Rightarrow> ('s, 'v) server \<Rightarrow> unix_stream \<Rightarrow> nat \<Rightarrow> 's \<Rightarrow> 'v handler_pc \<times> 's" where
  "solo nix json srv stream n st =
     (handle_micro nix json (sv_router srv) (sv_hooks srv) (sv_auth srv) (sv_session srv) (sv_max_frame srv) ^^ n)
       (Starting stream, st)"

abbreviation micro :: "nix_lib \<Rightarrow> 'v json_lib \<Rightarrow> ('s, 'v) server \<Rightarrow> 'v handler_pc \<times> 's \<Rightarrow> 'v handler_pc \<times> 's" where
  "micro nix json srv \<equiv>
     handle_micro nix json (sv_router srv) (sv_hooks srv) (sv_auth srv) (sv_session srv) (sv_max_frame srv)"

lemma solo_0 [simp]: "solo nix json srv stream 0 st = (Starting stream, st)"
  by (simp add: solo_def)

lemma solo_Suc [simp]: "solo nix json srv stream (Suc n) st = micro nix json srv (solo nix json srv stream n st)"
  by (simp add: solo_def)

lemma solo_blind:
  assumes "state_blind (sv_router srv) (sv_hooks srv)"
  shows "fst (solo nix json srv stream n st) = fst (solo nix json srv stream n st')"
proof (induction n)
  case (Suc n)
  obtain pc st1 where one: "solo nix json srv stream n st = (pc, st1)" by fastforce
  with Suc obtain st2 where two: "solo nix json srv stream n st' = (pc, st2)"
    by (cases "solo nix json srv stream n st'") auto
  obtain pc' st3 where "micro nix json srv (pc, st1) = (pc', st3)" by fastforce
  with micro_blind [OF assms this, of st2] one two show ?case by auto
qed simp

text \<open>A thread that is done has done what \<open>handle_conn\<close> does.\<close>

lemma solo_returned:
  assumes "solo nix json srv stream n st = (Returned conn, st')"
  shows "handle_conn nix json stream st (sv_router srv) (sv_hooks srv) (sv_auth srv) (sv_session srv) (sv_max_frame srv) =
    Some (st', conn)"
  using left_to_do_steps [of nix json "sv_router srv" "sv_hooks srv" "sv_auth srv" "sv_session srv" "sv_max_frame srv" n
      "(Starting stream, st)"] assms
  by (simp add: solo_def)

text \<open>The connections that got a thread, in the order of their threads.\<close>

definition admitted :: "(unix_stream \<times> bool) list \<Rightarrow> unix_stream list" where
  "admitted ds = map fst (filter snd ds)"

lemma admitted_simps [simp]:
  "admitted [] = []" "admitted ((stream, b) # ds) = (if b then stream # admitted ds else admitted ds)"
  "admitted (ds @ ds') = admitted ds @ admitted ds'"
  by (simp_all add: admitted_def)

text \<open>Thread \<open>i\<close> has taken \<open>n i\<close> steps of the session of the connection it was started for.\<close>

definition traced :: "nix_lib \<Rightarrow> 'v json_lib \<Rightarrow> ('s, 'v) server \<Rightarrow> (nat \<Rightarrow> nat) \<Rightarrow> (unix_stream \<times> bool) list \<Rightarrow> ('s, 'v) accept_state \<Rightarrow> bool" where
  "traced nix json srv n ds r \<longleftrightarrow>
     ids_fresh r \<and> next_thread r = length (admitted ds) \<and>
     (\<forall>i pc st. threads r i = Some pc \<longrightarrow> fst (solo nix json srv (admitted ds ! i) (n i) st) = pc) \<and>
     (panics r = 0 \<longrightarrow> (\<forall>i < length (admitted ds). \<forall>st. threads r i = None \<longrightarrow>
        (\<exists>conn. fst (solo nix json srv (admitted ds ! i) (n i) st) = Returned conn)))"

definition step_count :: "('s, 'v) accept_state \<Rightarrow> accept_action \<Rightarrow> (nat \<Rightarrow> nat) \<Rightarrow> nat \<Rightarrow> nat" where
  "step_count r a n =
     (case a of
        ClientRuns i \<Rightarrow> n(i := Suc (n i))
      | AcceptorRuns \<Rightarrow> (case acceptor r of Spawning _ \<Rightarrow> n(next_thread r := 0) | _ \<Rightarrow> n)
      | _ \<Rightarrow> n)"

lemma traced_start: "traced nix json srv n [] (accept_start st)"
  by (simp add: traced_def ids_fresh_start) (simp add: accept_start_def)

lemma traced_step:
  assumes "state_blind (sv_router srv) (sv_hooks srv)" and "traced nix json srv n ds r"
    and "serve_step nix json srv (r\<lparr>path_there := there\<rparr>) a r'"
  shows "traced nix json srv (step_count r a n) (ds @ decision srv r a) r'"
proof -
  from assms(2) have fresh: "ids_fresh r" and len: "next_thread r = length (admitted ds)" by (simp_all add: traced_def)
  then have fresh': "ids_fresh r'" using ids_fresh_step [OF assms(3)] by (simp add: ids_fresh_def)
  from assms(2) have pcs: "threads r i = Some pc \<Longrightarrow> fst (solo nix json srv (admitted ds ! i) (n i) st) = pc" for i pc st
    by (simp add: traced_def)
  from assms(2) have over: "panics r = 0 \<Longrightarrow> i < length (admitted ds) \<Longrightarrow> threads r i = None \<Longrightarrow>
      \<exists>conn. fst (solo nix json srv (admitted ds ! i) (n i) st) = Returned conn" for i st
    by (simp add: traced_def)
  have number: "i < length (admitted ds)" if "threads r i = Some pc" for i pc
    using thread_number [OF fresh that] len by simp
  note tr = pcs over len fresh'
  from assms(3) show ?thesis
  proof cases
    case (acceptor_runs stream)
    then consider "acceptor r = Checking stream" | "acceptor r = Counting stream" | "acceptor r = Spawning stream" by auto
    then show ?thesis
    proof cases
      case 3
      with acceptor_runs tr number show ?thesis
        by (auto simp: traced_def step_count_def decision_def nth_append less_Suc_eq)
    qed (use acceptor_runs tr in \<open>auto simp: traced_def step_count_def decision_def at_cap_def split: option.splits\<close>)
  next
    case (client_runs i pc pc' st)
    then have i: "threads r i = Some pc" by simp
    have "fst (solo nix json srv (admitted ds ! i) (Suc (n i)) st') = pc'" for st'
    proof -
      obtain st1 where "solo nix json srv (admitted ds ! i) (n i) st' = (pc, st1)"
        using pcs [OF i, of st'] by (cases "solo nix json srv (admitted ds ! i) (n i) st'") auto
      with micro_blind [OF assms(1) client_runs(4), of st1] show ?thesis by auto
    qed
    with client_runs number [OF i] tr show ?thesis
      by (auto simp: traced_def step_count_def decision_def)
  next
    case (client_leaves i conn)
    then have "threads r i = Some (Returned conn)" by simp
    with client_leaves number [OF this] tr show ?thesis
      by (auto simp: traced_def step_count_def decision_def leave_def split: if_splits)
  qed (use tr in \<open>auto simp: traced_def step_count_def decision_def split: if_splits\<close>)
qed

section \<open>What the clients leave behind\<close>

text \<open>The changes that the calls of a service can make to the shared state, and that they commute.\<close>

inductive effect :: "('s, 'v) router \<Rightarrow> ('s, 'v) error_handler \<Rightarrow> ('s \<Rightarrow> 's) \<Rightarrow> bool"
  for router :: "('s, 'v) router" and hooks :: "('s, 'v) error_handler" where
  nothing: "effect router hooks (\<lambda>st. st)"
| command: "router_get router n = Some cmd \<Longrightarrow> effect router hooks (\<lambda>st. fst (snd (cmd_execute cmd st v conn)))"
| unknown: "effect router hooks (\<lambda>st. fst (hook_unknown hooks st n v conn))"
| error: "effect router hooks (\<lambda>st. fst (hook_error hooks st e conn))"
| reject: "effect router hooks (\<lambda>st. fst (hook_reject hooks st reason conn))"

definition commuting :: "('s, 'v) router \<Rightarrow> ('s, 'v) error_handler \<Rightarrow> bool" where
  "commuting router hooks \<longleftrightarrow> (\<forall>f g st. effect router hooks f \<longrightarrow> effect router hooks g \<longrightarrow> f (g st) = g (f st))"

lemma micro_effect: "effect router hooks (\<lambda>st. snd (handle_micro nix json router hooks auth session m (pc, st)))"
proof (cases pc)
  case (Starting stream)
  then show ?thesis by (cases "allows nix auth stream") (auto simp: Let_def returned_def intro: effect.intros)
next
  case (Dispatching conn)
  then show ?thesis
    by (cases "read_value json conn"; cases "fst (read_value json conn)") (auto intro: effect.intros)
next
  case (Executing body conn)
  show ?thesis
  proof (cases "Option.bind (json_type_field json body) (router_get router)")
    case None
    with Executing effect.unknown [of router hooks _ body conn] show ?thesis
      by (cases "json_type_field json body") (auto simp: case_prod_beta)
  next
    case (Some cmd)
    then obtain name where cmd: "json_type_field json body = Some name" "router_get router name = Some cmd"
      by (auto simp: bind_eq_Some_conv)
    with Executing have "(\<lambda>st. snd (handle_micro nix json router hooks auth session m (pc, st))) =
        (\<lambda>st. fst (snd (cmd_execute cmd st body conn)))"
      by (auto simp: fun_eq_iff split: prod.split sum.split ipc_error.split)
    with effect.command [OF cmd(2), of hooks body conn] show ?thesis by simp
  qed
next
  case (Reporting e final conn)
  then show ?thesis by (auto simp: case_prod_beta intro: effect.intros)
next
  case (Returned conn)
  then show ?thesis by (simp add: effect.nothing)
qed

lemma solo_commutes:
  assumes "state_blind (sv_router srv) (sv_hooks srv)" and "commuting (sv_router srv) (sv_hooks srv)"
    and "effect (sv_router srv) (sv_hooks srv) f"
  shows "snd (solo nix json srv stream n (f st)) = f (snd (solo nix json srv stream n st))"
proof (induction n)
  case (Suc n)
  obtain pc st1 where one: "solo nix json srv stream n st = (pc, st1)" by fastforce
  with Suc solo_blind [OF assms(1), of nix json stream n "f st" st]
  have "solo nix json srv stream n (f st) = (pc, f st1)" by (cases "solo nix json srv stream n (f st)") simp
  moreover have "snd (micro nix json srv (pc, f st1)) = f (snd (micro nix json srv (pc, st1)))"
    using assms(2,3) micro_effect [of "sv_router srv" "sv_hooks srv" nix json "sv_auth srv" "sv_session srv" "sv_max_frame srv" pc]
    unfolding commuting_def by blast
  ultimately show ?case using one by simp
qed simp

text \<open>
  The shared state after the connections have been decided as \<open>ds\<close> says and thread \<open>i\<close> has taken \<open>n i\<close>
  steps, if the connections are gone through one after the other.
\<close>

fun replay :: "nix_lib \<Rightarrow> 'v json_lib \<Rightarrow> ('s, 'v) server \<Rightarrow> (nat \<Rightarrow> nat) \<Rightarrow> nat \<Rightarrow> (unix_stream \<times> bool) list \<Rightarrow> 's \<Rightarrow> 's" where
  "replay nix json srv n k [] st = st"
| "replay nix json srv n k ((stream, True) # ds) st = replay nix json srv n (Suc k) ds (snd (solo nix json srv stream (n k) st))"
| "replay nix json srv n k ((stream, False) # ds) st =
     replay nix json srv n k ds (fst (hook_reject (sv_hooks srv) st RejectBusy (conn_new stream (sv_max_frame srv))))"

lemma replay_commutes:
  assumes "state_blind (sv_router srv) (sv_hooks srv)" and "commuting (sv_router srv) (sv_hooks srv)"
    and "effect (sv_router srv) (sv_hooks srv) f"
  shows "replay nix json srv n k ds (f st) = f (replay nix json srv n k ds st)"
proof (induction ds arbitrary: k st)
  case (Cons d ds)
  obtain stream b where d: "d = (stream, b)" by fastforce
  have "fst (hook_reject (sv_hooks srv) (f st) reason conn) = f (fst (hook_reject (sv_hooks srv) st reason conn))"
    for reason conn
    using assms(2,3) effect.reject [of "sv_router srv" "sv_hooks srv" reason conn]
    unfolding commuting_def by blast
  with d Cons solo_commutes [OF assms, of nix json stream "n k" st] show ?case by (cases b) simp_all
qed simp

lemma replay_cong:
  "\<forall>i. k \<le> i \<and> i < k + length (admitted ds) \<longrightarrow> n i = n' i \<Longrightarrow>
   replay nix json srv n k ds st = replay nix json srv n' k ds st"
  by (induction nix json srv n k ds st rule: replay.induct) auto

lemma replay_append:
  "replay nix json srv n k (ds @ ds') st =
   replay nix json srv n (k + length (admitted ds)) ds' (replay nix json srv n k ds st)"
  by (induction nix json srv n k ds st rule: replay.induct) auto

text \<open>One more step of a thread is that step after everything else.\<close>

lemma replay_one_more:
  assumes "state_blind (sv_router srv) (sv_hooks srv)" and "commuting (sv_router srv) (sv_hooks srv)"
    and "k \<le> i" and "i < k + length (admitted ds)"
    and "\<forall>st. fst (solo nix json srv (admitted ds ! (i - k)) (n i) st) = pc"
  shows "replay nix json srv (n(i := Suc (n i))) k ds st = snd (micro nix json srv (pc, replay nix json srv n k ds st))"
  using assms(3-5)
proof (induction ds arbitrary: k st)
  case (Cons d ds)
  obtain stream b where d: "d = (stream, b)" by fastforce
  note step = micro_effect [of "sv_router srv" "sv_hooks srv" nix json "sv_auth srv" "sv_session srv" "sv_max_frame srv" pc]
  show ?case
  proof (cases "b \<and> i = k")
    case True
    with Cons.prems d have "solo nix json srv stream (n k) st = (pc, snd (solo nix json srv stream (n k) st))"
      by (metis admitted_simps(2) diff_self_eq_0 nth_Cons_0 prod.collapse)
    then have "replay nix json srv (n(i := Suc (n i))) k (d # ds) st =
        replay nix json srv (n(i := Suc (n i))) (Suc k) ds (snd (micro nix json srv (pc, snd (solo nix json srv stream (n k) st))))"
      using True d by simp
    also have "\<dots> = replay nix json srv n (Suc k) ds (snd (micro nix json srv (pc, snd (solo nix json srv stream (n k) st))))"
      using True by (intro replay_cong) simp
    also have "\<dots> = snd (micro nix json srv (pc, replay nix json srv n (Suc k) ds (snd (solo nix json srv stream (n k) st))))"
      by (rule replay_commutes [OF assms(1,2) step])
    finally show ?thesis using True d by (simp del: fun_upd_apply)
  next
    case False
    show ?thesis
    proof (cases b)
      case True
      with False Cons.prems d have "Suc k \<le> i" "i < Suc k + length (admitted ds)"
        "\<forall>st. fst (solo nix json srv (admitted ds ! (i - Suc k)) (n i) st) = pc"
        by (auto simp: nth_Cons' Suc_diff_le)
      with Cons.IH [OF this] True False d show ?thesis by simp
    next
      case no: False
      with Cons.prems d Cons.IH show ?thesis by simp
    qed
  qed
qed simp

text \<open>The reference: the same decisions, each session run to its end before the next connection.\<close>

fun serve_serially ::
  "nix_lib \<Rightarrow> 'v json_lib \<Rightarrow> ('s, 'v) server \<Rightarrow> (unix_stream \<times> bool) list \<Rightarrow> 's \<Rightarrow> 's option" where
  "serve_serially nix json srv [] st = Some st"
| "serve_serially nix json srv ((stream, True) # ds) st =
     (case handle_conn nix json stream st (sv_router srv) (sv_hooks srv) (sv_auth srv) (sv_session srv) (sv_max_frame srv) of
        None \<Rightarrow> None
      | Some (st', _) \<Rightarrow> serve_serially nix json srv ds st')"
| "serve_serially nix json srv ((stream, False) # ds) st =
     serve_serially nix json srv ds (fst (hook_reject (sv_hooks srv) st RejectBusy (conn_new stream (sv_max_frame srv))))"

lemma replay_serially:
  assumes "\<forall>j < length (admitted ds). \<forall>st. \<exists>conn. fst (solo nix json srv (admitted ds ! j) (n (k + j)) st) = Returned conn"
  shows "serve_serially nix json srv ds st = Some (replay nix json srv n k ds st)"
  using assms
proof (induction nix json srv n k ds st rule: replay.induct)
  case (2 nix json srv n k stream ds st)
  from 2(2) obtain conn st' where "solo nix json srv stream (n k) st = (Returned conn, st')"
    by (metis add_0_right admitted_simps(2) length_Cons nth_Cons_0 prod.collapse zero_less_Suc)
  moreover have "\<forall>j < length (admitted ds). \<forall>st. \<exists>conn. fst (solo nix json srv (admitted ds ! j) (n (Suc k + j)) st) = Returned conn"
    using 2(2) by auto
  ultimately show ?case using 2(1) solo_returned by fastforce
qed simp_all

lemma replay_step:
  assumes "state_blind (sv_router srv) (sv_hooks srv)" and "commuting (sv_router srv) (sv_hooks srv)"
    and "traced nix json srv n ds r" and "serve_step nix json srv (r\<lparr>path_there := there\<rparr>) a r'"
    and "panics r' = 0" and "acceptor r' \<noteq> Aborted" and "shared r = replay nix json srv n 0 ds st"
  shows "shared r' = replay nix json srv (step_count r a n) 0 (ds @ decision srv r a) st"
  using assms(4)
proof cases
  case (acceptor_runs stream)
  then consider "acceptor r = Checking stream" | "acceptor r = Counting stream" | "acceptor r = Spawning stream" by auto
  then show ?thesis
  proof cases
    case 3
    have "replay nix json srv (n(next_thread r := 0)) 0 ds st = replay nix json srv n 0 ds st"
      using assms(3) by (intro replay_cong) (simp add: traced_def)
    with 3 acceptor_runs assms(3,7) show ?thesis
      by (simp add: step_count_def decision_def replay_append traced_def)
  qed (use acceptor_runs assms(7) in \<open>auto simp: step_count_def decision_def at_cap_def replay_append split: option.splits\<close>)
next
  case (client_runs i pc pc' st1)
  then have i: "threads r i = Some pc" by simp
  have "i < length (admitted ds)" "\<forall>st. fst (solo nix json srv (admitted ds ! i) (n i) st) = pc"
    using assms(3) thread_number [OF _ i] i by (auto simp: traced_def)
  with replay_one_more [OF assms(1,2), of 0 i ds nix json n pc st] client_runs assms(7) show ?thesis
    by (simp add: step_count_def decision_def)
qed (use assms(5-7) in \<open>auto simp: step_count_def decision_def leave_def\<close>)

section \<open>On the machine\<close>

text \<open>The server that runs is the one that the daemon was given.\<close>

definition service_server :: "('s, 'v) service \<Rightarrow> nat \<Rightarrow> ('s, 'v) server" where
  "service_server sc l = from_listener l (bo_path (sc_opts sc)) (sc_policy sc) (sc_router sc) (sc_hooks sc)"

lemma service_server_simps [simp]:
  "sv_router (service_server sc l) = sc_router sc" "sv_hooks (service_server sc l) = sc_hooks sc"
  "sv_auth (service_server sc l) = ap_auth (sc_policy sc)" "sv_session (service_server sc l) = ap_session (sc_policy sc)"
  "sv_max_frame (service_server sc l) = ap_max_frame (sc_policy sc)"
  by (simp_all add: service_server_def from_listener_def)

text \<open>
  The threads are where some number of steps of their own sessions puts them, and, as long as nothing
  panicked, the shared state is what these steps, taken one client after the other, make of the initial one.
\<close>

definition explained :: "('s, 'v) service \<Rightarrow> ('s, 'v) site \<Rightarrow> bool" where
  "explained sc h \<longleftrightarrow> (\<forall>srv. running h = Some srv \<longrightarrow>
     (\<exists>l. srv = service_server sc l) \<and>
     (state_blind (sc_router sc) (sc_hooks sc) \<longrightarrow>
        (\<exists>n. traced (sc_nix sc) (sc_json sc) srv n (decided h) (accept_loop h) \<and>
           (commuting (sc_router sc) (sc_hooks sc) \<and> panics (accept_loop h) = 0 \<and> acceptor (accept_loop h) \<noteq> Aborted \<longrightarrow>
              shared (accept_loop h) = replay (sc_nix sc) (sc_json sc) srv n 0 (decided h) (sc_initial sc)))))"

lemma no_panic_before:
  "serve_step nix json srv (r\<lparr>path_there := there\<rparr>) a r' \<Longrightarrow> panics r' = 0 \<Longrightarrow> acceptor r' \<noteq> Aborted \<Longrightarrow>
   panics r = 0 \<and> acceptor r \<noteq> Aborted"
  by (erule serve_step.cases) (auto simp: leave_def split: if_splits)

lemma explained_step: "site_step sc h a h' \<Longrightarrow> explained sc h \<Longrightarrow> explained sc h'"
proof (induction rule: site_step.induct)
  case (serve_ok h srv r s)
  from serve_ok.hyps(2) have "srv = service_server sc (sv_listener srv)" "r = accept_start (sc_initial sc)"
    by (auto simp: serve_service_eq service_server_def from_listener_def split: prod.splits sum.splits)
  moreover have "shared (accept_start (sc_initial sc)) = sc_initial sc" by (simp add: accept_start_def)
  ultimately show ?case by (auto simp: explained_def intro!: exI [of _ "\<lambda>_. 0"] traced_start)
next
  case (accepts h srv stream rest r)
  from accepts.hyps(3) have r: "r = (accept_loop h)\<lparr>acceptor := Checking stream\<rparr>" and "acceptor (accept_loop h) = Accepting"
    by (auto elim: serve_step.cases)
  have "traced nix json srv n ds r = traced nix json srv n ds (accept_loop h)" for nix :: nix_lib and json n ds
    by (simp add: r traced_def ids_fresh_def)
  with accepts r \<open>acceptor (accept_loop h) = Accepting\<close> show ?case by (auto simp: explained_def)
next
  case (loop_runs h srv a r)
  let ?steps = "step_count (accept_loop h) a"
  from loop_runs.prems loop_runs.hyps(1) obtain l where srv: "srv = service_server sc l" by (auto simp: explained_def)
  show ?case
  proof (cases "state_blind (sc_router sc) (sc_hooks sc)")
    case blind: True
    with loop_runs.prems loop_runs.hyps(1) obtain n where
      n: "traced (sc_nix sc) (sc_json sc) srv n (decided h) (accept_loop h)"
      and sh: "commuting (sc_router sc) (sc_hooks sc) \<and> panics (accept_loop h) = 0 \<and> acceptor (accept_loop h) \<noteq> Aborted \<longrightarrow>
        shared (accept_loop h) = replay (sc_nix sc) (sc_json sc) srv n 0 (decided h) (sc_initial sc)"
      by (auto simp: explained_def)
    have "traced (sc_nix sc) (sc_json sc) srv (?steps n) (decided h @ decision srv (accept_loop h) a) r"
      using traced_step [OF _ n loop_runs.hyps(4)] blind by (simp add: srv)
    moreover have "shared r = replay (sc_nix sc) (sc_json sc) srv (?steps n) 0 (decided h @ decision srv (accept_loop h) a) (sc_initial sc)"
      if "commuting (sc_router sc) (sc_hooks sc)" "panics r = 0" "acceptor r \<noteq> Aborted"
      using replay_step [OF _ _ n loop_runs.hyps(4)] no_panic_before [OF loop_runs.hyps(4)] sh blind that
      by (simp add: srv)
    ultimately show ?thesis using srv loop_runs.hyps(1) by (auto simp: explained_def)
  qed (use srv loop_runs.hyps(1) in \<open>auto simp: explained_def\<close>)
qed (auto simp: explained_def)

lemma explained_runs:
  assumes "site_runs sc (site_start sc s) acts h"
  shows "explained sc h"
  using assms
proof (rule runs_invariant)
  show "explained sc (site_start sc s)" by (simp add: explained_def site_start_def)
qed (rule explained_step)

lemma explainedD:
  assumes "explained sc h" and "running h = Some srv" and "state_blind (sc_router sc) (sc_hooks sc)"
  shows "\<exists>l n. srv = service_server sc l \<and> traced (sc_nix sc) (sc_json sc) srv n (decided h) (accept_loop h) \<and>
    (commuting (sc_router sc) (sc_hooks sc) \<and> panics (accept_loop h) = 0 \<and> acceptor (accept_loop h) \<noteq> Aborted \<longrightarrow>
       shared (accept_loop h) = replay (sc_nix sc) (sc_json sc) srv n 0 (decided h) (sc_initial sc))"
  using assms unfolding explained_def by blast

section \<open>The echo service\<close>

lemma echo_execute_eq: "echo_execute out st v conn =
  (case reply (json_to_vec out) v conn of (r, conn') \<Rightarrow> (case r of Inl e \<Rightarrow> Inl (FrameErr e) | Inr _ \<Rightarrow> Inr (), st + 1, conn'))"
  by (auto simp: echo_execute_def split: prod.split sum.split)

lemma echo_state_blind: "state_blind (echo_router out) (Hooks out)"
  by (auto simp: state_blind_def echo_router_def router_get_single Echo_def echo_execute_eq Hooks_def reply_error_def
      split: prod.splits if_splits)

lemma echo_effect: "effect (echo_router out) (Hooks out) f \<Longrightarrow> f = (\<lambda>st. st) \<or> f = (\<lambda>st. st + 1)"
  by (erule effect.cases)
    (auto simp: echo_router_def router_get_single Echo_def echo_execute_eq Hooks_def reply_error_def fun_eq_iff
      split: prod.splits if_splits)

lemma echo_commuting: "commuting (echo_router out) (Hooks out)"
  by (auto simp: commuting_def dest!: echo_effect)

section \<open>Runs that let a client in and serve it\<close>

lemma loop_runsI:
  assumes "running h = Some srv" and "\<forall>stream. a \<noteq> Accepted stream" and "\<forall>there. a \<noteq> PathChanges there"
    and "serve_next (sc_nix sc) (sc_json sc) srv a ((accept_loop h)\<lparr>path_there := exists_path (sv_path srv) (os_state h)\<rparr>) = Some r"
  shows "site_step sc h (LoopRuns a) (h\<lparr>accept_loop := r, decided := decided h @ decision srv (accept_loop h) a\<rparr>)"
  using assms by (intro loop_runs serve_next_step)

lemma client_let_in:
  assumes "running h = Some srv" and "sv_max_clients srv = Some cap" and "unat (clients (accept_loop h)) < cap"
    and "acceptor (accept_loop h) = Accepting" and "backlog h = stream # rest"
  shows "\<exists>h'. site_runs sc h (Accepts # replicate 3 (LoopRuns AcceptorRuns)) h' \<and> running h' = Some srv \<and>
    decided h' = decided h @ [(stream, True)] \<and> panics (accept_loop h') = panics (accept_loop h) \<and>
    acceptor (accept_loop h') = Accepting \<and>
    threads (accept_loop h') = (threads (accept_loop h))(next_thread (accept_loop h) \<mapsto> Starting stream)"
proof -
  let ?there = "exists_path (sv_path srv) (os_state h)"
  let ?r = "(accept_loop h)\<lparr>path_there := ?there\<rparr>"
  let ?h1 = "h\<lparr>accept_loop := (accept_loop h)\<lparr>acceptor := Checking stream\<rparr>, backlog := rest\<rparr>"
  let ?h2 = "?h1\<lparr>accept_loop := ?r\<lparr>acceptor := Counting stream\<rparr>\<rparr>"
  let ?h3 = "?h1\<lparr>accept_loop := ?r\<lparr>clients := clients ?r + 1, acceptor := Spawning stream\<rparr>\<rparr>"
  let ?h4 = "?h1\<lparr>accept_loop := (accept_loop h)\<lparr>clients := clients ?r + 1, path_there := ?there,
      threads := (threads ?r)(next_thread ?r \<mapsto> Starting stream), next_thread := Suc (next_thread ?r),
      acceptor := Accepting\<rparr>,
      decided := decided h @ [(stream, True)]\<rparr>"
  have one: "site_step sc h Accepts ?h1"
    by (rule accepts [OF assms(1,5) accepted [OF assms(4)]])
  have two: "site_step sc ?h1 (LoopRuns AcceptorRuns) ?h2"
    using loop_runsI [of ?h1 srv AcceptorRuns sc] assms(1-4) by (simp add: at_cap_def decision_def)
  have three: "site_step sc ?h2 (LoopRuns AcceptorRuns) ?h3"
    using loop_runsI [of ?h2 srv AcceptorRuns sc] assms(1) by (simp add: decision_def)
  have four: "site_step sc ?h3 (LoopRuns AcceptorRuns) ?h4"
    using loop_runsI [of ?h3 srv AcceptorRuns sc] assms(1) by (simp add: decision_def)
  have "site_runs sc h [Accepts, LoopRuns AcceptorRuns, LoopRuns AcceptorRuns, LoopRuns AcceptorRuns] ?h4"
    by (rule runs.more, rule one, rule runs.more, rule two, rule runs.more, rule three, rule runs.more, rule four, rule halt)
  then show ?thesis using assms(1) by (intro exI [of _ ?h4]) (simp add: numeral_3_eq_3)
qed

lemma client_served:
  assumes "adds_no_input (sv_router srv) (sv_hooks srv)" and "running h = Some srv" and "threads (accept_loop h) i = Some pc"
  shows "\<exists>h' pc'. site_runs sc h (replicate n (LoopRuns (ClientRuns i))) h' \<and> running h' = Some srv \<and>
    decided h' = decided h \<and> panics (accept_loop h') = panics (accept_loop h) \<and>
    acceptor (accept_loop h') = acceptor (accept_loop h) \<and>
    threads (accept_loop h') = (threads (accept_loop h))(i \<mapsto> pc') \<and> steps_left pc' \<le> steps_left pc - n"
  using assms(2,3)
proof (induction n arbitrary: h pc)
  case 0
  then show ?case by (intro exI [of _ h] exI [of _ pc]) (simp add: fun_upd_idem)
next
  case (Suc n)
  let ?r = "(accept_loop h)\<lparr>path_there := exists_path (sv_path srv) (os_state h)\<rparr>"
  obtain pc1 st where m: "micro (sc_nix sc) (sc_json sc) srv (pc, shared ?r) = (pc1, st)" by fastforce
  let ?h1 = "h\<lparr>accept_loop := ?r\<lparr>threads := (threads ?r)(i \<mapsto> pc1), shared := st\<rparr>\<rparr>"
  have one: "site_step sc h (LoopRuns (ClientRuns i)) ?h1"
    using loop_runsI [of h srv "ClientRuns i" sc] Suc.prems m by (simp add: decision_def)
  from Suc.IH [of ?h1 pc1] Suc.prems obtain h' pc' where
    rest: "site_runs sc ?h1 (replicate n (LoopRuns (ClientRuns i))) h'" "running h' = Some srv" "decided h' = decided h"
      "panics (accept_loop h') = panics (accept_loop h)" "acceptor (accept_loop h') = acceptor (accept_loop h)"
      "threads (accept_loop h') = (threads (accept_loop h))(i \<mapsto> pc')" "steps_left pc' \<le> steps_left pc1 - n"
    by (auto simp: fun_upd_same simp del: fun_upd_apply)
  moreover have "steps_left pc' \<le> steps_left pc - Suc n"
    using rest(7) steps_left_micro [OF assms(1) m] by linarith
  moreover have "site_runs sc h (replicate (Suc n) (LoopRuns (ClientRuns i))) h'"
    unfolding replicate_Suc by (rule runs.more, rule one, rule rest(1))
  ultimately show ?case by blast
qed

text \<open>One client of the echo service on the machine, from its connection to the end of its session.\<close>

lemma echo_client_served:
  "\<exists>acts h conn. site_runs echo_service hub_up (Connects stream # acts) h \<and> running h = Some (echo_server (Some 4)) \<and>
    decided h = [(stream, True)] \<and> panics (accept_loop h) = 0 \<and> acceptor (accept_loop h) = Accepting \<and>
    threads (accept_loop h) = [0 \<mapsto> Returned conn]"
proof -
  let ?h0 = "hub_up\<lparr>backlog := [stream], arrived := [stream]\<rparr>"
  have zero: "site_step echo_service hub_up (Connects stream) ?h0"
    using connects [of hub_up "echo_server (Some 4)" echo_service stream] hub_bound_facts(1)
    by (simp add: hub_up_def hub_opts_def)
  from client_let_in [of ?h0 "echo_server (Some 4)" 4 stream "[]" echo_service] obtain h1 where
    one: "site_runs echo_service ?h0 (Accepts # replicate 3 (LoopRuns AcceptorRuns)) h1"
    and h1: "running h1 = Some (echo_server (Some 4))" "decided h1 = [(stream, True)]" "panics (accept_loop h1) = 0"
      "acceptor (accept_loop h1) = Accepting" "threads (accept_loop h1) = [0 \<mapsto> Starting stream]"
    by (auto simp: hub_up_def accept_start_def)
  have ani: "adds_no_input (sv_router (echo_server (Some 4))) (sv_hooks (echo_server (Some 4)))"
    using echo_adds_no_input [of text_out] by (simp add: echo_server_def from_listener_def)
  from client_served [OF ani h1(1), of 0 "Starting stream" echo_service "3 * size stream + 3"] h1 obtain h2 pc where
    two: "site_runs echo_service h1 (replicate (3 * size stream + 3) (LoopRuns (ClientRuns 0))) h2"
    and h2: "running h2 = Some (echo_server (Some 4))" "decided h2 = [(stream, True)]" "panics (accept_loop h2) = 0"
      "acceptor (accept_loop h2) = Accepting" "threads (accept_loop h2) = [0 \<mapsto> pc]" "steps_left pc = 0"
    by auto
  from h2(6) obtain conn where "pc = Returned conn" by (auto simp: steps_left_0)
  moreover have "site_runs echo_service ?h0 ((Accepts # replicate 3 (LoopRuns AcceptorRuns)) @
      replicate (3 * size stream + 3) (LoopRuns (ClientRuns 0))) h2"
    unfolding runs_append by (intro exI conjI, rule one, rule two)
  then have "site_runs echo_service hub_up (Connects stream # (Accepts # replicate 3 (LoopRuns AcceptorRuns)) @
      replicate (3 * size stream + 3) (LoopRuns (ClientRuns 0))) h2"
    by (rule runs.more [where step = "site_step echo_service", rotated], intro zero)
  ultimately show ?thesis using h2 by blast
qed

lemma echo_service_policy [simp]:
  "sc_router echo_service = echo_router text_out" "sc_hooks echo_service = Hooks text_out"
  "ap_auth (sc_policy echo_service) = AuthNone" "ap_session (sc_policy echo_service) = Persistent"
  "ap_max_frame (sc_policy echo_service) = 64"
  by (simp_all add: echo_service_def)

lemma hub_up_runs: "site_runs echo_service hub_up acts h \<Longrightarrow> site_runs echo_service (site_start echo_service hub_sys) (Serve # acts) h"
  by (rule runs.more, rule hub_serves)

lemma client_can_run:
  assumes "threads r i = Some pc"
  shows "\<exists>r'. serve_runs nix json srv r (replicate n (ClientRuns i)) r'"
  using assms
proof (induction n arbitrary: r pc)
  case (Suc n)
  obtain pc' st where "micro nix json srv (pc, shared r) = (pc', st)" by fastforce
  note step = client_runs [of r i pc, OF Suc.prems this]
  from Suc.IH [of "r\<lparr>threads := (threads r)(i \<mapsto> pc'), shared := st\<rparr>" pc'] obtain r' where
    "serve_runs nix json srv (r\<lparr>threads := (threads r)(i \<mapsto> pc'), shared := st\<rparr>) (replicate n (ClientRuns i)) r'"
    by auto
  with step have "serve_runs nix json srv r (ClientRuns i # replicate n (ClientRuns i)) r'" by (rule runs.more)
  then show ?case by auto
qed auto

section \<open>Properties\<close>

text \<open>
  C14: Every client gets through. Whatever the other threads, the acceptor and the machine do in between, a
  client thread that does not panic has returned from its session after at most three steps of its own
  for each byte or error of its input and three more, and its next step never waits for anyone else: no
  client can hold up another. (Commands and hooks may read on the connection but not put input back.)
\<close>

theorem every_client_gets_through:
  assumes "adds_no_input (sv_router srv) (sv_hooks srv)"
    and "serve_runs nix json srv (accept_start st) before r" and "threads r i = Some (Starting stream)"
    and "serve_runs nix json srv r later r'" and "ClientPanics i \<notin> set later"
  shows "(ClientLeaves i \<notin> set later \<longrightarrow> (\<exists>r''. serve_step nix json srv r' (ClientRuns i) r'')) \<and>
    (3 * size stream + 3 \<le> count_list later (ClientRuns i) \<longrightarrow>
       ClientLeaves i \<in> set later \<or> (\<exists>conn. threads r' i = Some (Returned conn)))"
proof -
  have fresh: "ids_fresh r" by (rule ids_fresh_runs [OF assms(2) ids_fresh_start])
  have "under_way i (3 * size stream + 3) r"
    using fresh thread_number [OF fresh assms(3)] assms(3) by (simp add: under_way_def)
  from under_way_runs [OF assms(1,4) this]
  have k: "under_way i (3 * size stream + 3 - count_list later (ClientRuns i)) r'" .
  have there: "threads r' i \<noteq> None" if "ClientLeaves i \<notin> set later"
    using thread_stays_runs [OF assms(4,5) that] assms(3) by simp
  have "\<exists>r''. serve_step nix json srv r' (ClientRuns i) r''" if "threads r' i = Some pc" for pc
    using client_runs [OF that, of nix json srv] by (cases "micro nix json srv (pc, shared r')") blast
  moreover have "\<exists>conn. pc = Returned conn"
    if "threads r' i = Some pc" "3 * size stream + 3 \<le> count_list later (ClientRuns i)" for pc
    using k that by (auto simp: under_way_def simp flip: steps_left_0)
  ultimately show ?thesis using there by blast
qed

theorem every_client_gets_through_witness:
  "\<exists>r conn. serve_runs no_nix text_json (echo_server (Some 1)) (accept_start 0) (one_client @ replicate 3 (ClientRuns 0)) r \<and>
     threads r 0 = Some (Returned conn)"
proof -
  let ?r = "(accept_start 0)\<lparr>clients := 1, threads := [0 \<mapsto> Starting (client [])], next_thread := 1\<rparr>"
  have run: "serve_runs no_nix text_json (echo_server (Some 1)) (accept_start (0 :: atomic_usize)) one_client ?r"
    using one_client_runs [of "accept_start 0" 1] by (simp add: accept_start_def)
  obtain r' where later: "serve_runs no_nix text_json (echo_server (Some 1)) ?r (replicate 3 (ClientRuns 0)) r'"
    using client_can_run [of ?r 0 "Starting (client [])" no_nix text_json "echo_server (Some 1)" 3] by auto
  have ani: "adds_no_input (sv_router (echo_server (Some 1))) (sv_hooks (echo_server (Some 1)))"
    using echo_adds_no_input [of text_out] by (simp add: echo_server_def from_listener_def)
  have thread: "threads ?r 0 = Some (Starting (client []))" by simp
  from every_client_gets_through [OF ani run thread later] have "\<exists>conn. threads r' 0 = Some (Returned conn)"
    by (simp add: client_def size_unix_stream_ext_def numeral_3_eq_3)
  moreover have "serve_runs no_nix text_json (echo_server (Some 1)) (accept_start 0) (one_client @ replicate 3 (ClientRuns 0)) r'"
    unfolding runs_append by (intro exI conjI, rule run, rule later)
  ultimately show ?thesis by blast
qed

text \<open>
  C12: Clients do not see each other. If the replies of the service do not depend on the shared state,
  then in every run of the daemon, with restarts, crashes, panics and any interleaving of any number of
  clients, a client thread that has returned leaves its connection, and so has sent its client, exactly
  what \<open>handle_conn\<close> alone makes of that connection: the \<open>i\<close>-th thread that of the \<open>i\<close>-th connection
  let in.
\<close>

theorem clients_do_not_see_each_other:
  assumes "state_blind (sc_router sc) (sc_hooks sc)" and "site_runs sc (site_start sc s) acts h"
    and "running h \<noteq> None" and "threads (accept_loop h) i = Some (Returned conn)"
  shows "i < length (admitted (decided h)) \<and>
    (\<forall>st. \<exists>st'. handle_conn (sc_nix sc) (sc_json sc) (admitted (decided h) ! i) st (sc_router sc) (sc_hooks sc)
      (ap_auth (sc_policy sc)) (ap_session (sc_policy sc)) (ap_max_frame (sc_policy sc)) = Some (st', conn))"
proof -
  from assms(3) obtain srv where "running h = Some srv" by blast
  from explainedD [OF explained_runs [OF assms(2)] this assms(1)] obtain l n where
    n: "traced (sc_nix sc) (sc_json sc) (service_server sc l) n (decided h) (accept_loop h)"
    by blast
  then have "i < length (admitted (decided h))"
    using thread_number [OF _ assms(4)] by (simp add: traced_def)
  moreover have "\<exists>st'. handle_conn (sc_nix sc) (sc_json sc) (admitted (decided h) ! i) st (sc_router sc) (sc_hooks sc)
      (ap_auth (sc_policy sc)) (ap_session (sc_policy sc)) (ap_max_frame (sc_policy sc)) = Some (st', conn)" for st
  proof -
    have "fst (solo (sc_nix sc) (sc_json sc) (service_server sc l) (admitted (decided h) ! i) (n i) st) = Returned conn"
      using n assms(4) by (simp add: traced_def)
    with solo_returned [of "sc_nix sc" "sc_json sc" "service_server sc l" "admitted (decided h) ! i" "n i" st conn] show ?thesis
      by (cases "solo (sc_nix sc) (sc_json sc) (service_server sc l) (admitted (decided h) ! i) (n i) st") auto
  qed
  ultimately show ?thesis by blast
qed

theorem clients_do_not_see_each_other_witness:
  "\<exists>acts h conn st'. site_runs echo_service (site_start echo_service hub_sys) acts h \<and>
     threads (accept_loop h) 0 = Some (Returned conn) \<and>
     handle_conn no_nix text_json (client [Data (text_frame ''echo'')]) 7 (echo_router text_out) (Hooks text_out)
       AuthNone Persistent 64 = Some (st', conn)"
proof -
  obtain acts h conn where run: "site_runs echo_service (site_start echo_service hub_sys) acts h"
    and h: "running h = Some (echo_server (Some 4))" "decided h = [(client [Data (text_frame ''echo'')], True)]"
      "threads (accept_loop h) = [0 \<mapsto> Returned conn]"
    using echo_client_served [of "client [Data (text_frame ''echo'')]"] hub_up_runs by blast
  have blind: "state_blind (sc_router echo_service) (sc_hooks echo_service)" by (simp add: echo_state_blind)
  have up: "running h \<noteq> None" and thread: "threads (accept_loop h) 0 = Some (Returned conn)" using h by simp_all
  from clients_do_not_see_each_other [OF blind run up thread] h(2)
  have "\<exists>st'. handle_conn no_nix text_json (client [Data (text_frame ''echo'')]) 7 (echo_router text_out) (Hooks text_out)
      AuthNone Persistent 64 = Some (st', conn)" by simp
  with run thread show ?thesis by blast
qed

text \<open>
  C13: The daemon is equivalent to a serial one. If replies do not depend on the shared state and the calls of
  commands and hooks commute on it, then, whenever every client thread that was started is gone and
  nothing has panicked, the shared state is the one that results from taking the connections one after the
  other in the order of their arrival, running each session to its end, and each rejection, before the
  next: no update is lost or done twice.
\<close>

theorem daemon_is_serializable:
  assumes "state_blind (sc_router sc) (sc_hooks sc)" and "commuting (sc_router sc) (sc_hooks sc)"
    and "site_runs sc (site_start sc s) acts h" and "running h = Some srv"
    and "panics (accept_loop h) = 0" and "acceptor (accept_loop h) \<noteq> Aborted" and "threads (accept_loop h) = Map.empty"
  shows "serve_serially (sc_nix sc) (sc_json sc) srv (decided h) (sc_initial sc) = Some (shared (accept_loop h))"
proof -
  from explainedD [OF explained_runs [OF assms(3)] assms(4,1)] assms(2,5,6) obtain n where
    n: "traced (sc_nix sc) (sc_json sc) srv n (decided h) (accept_loop h)"
    and "shared (accept_loop h) = replay (sc_nix sc) (sc_json sc) srv n 0 (decided h) (sc_initial sc)"
    by blast
  moreover have "\<forall>j < length (admitted (decided h)). \<forall>st.
      \<exists>conn. fst (solo (sc_nix sc) (sc_json sc) srv (admitted (decided h) ! j) (n (0 + j)) st) = Returned conn"
    using n assms(5,7) by (simp add: traced_def)
  ultimately show ?thesis using replay_serially by metis
qed

theorem daemon_is_serializable_witness:
  "\<exists>acts h. site_runs echo_service (site_start echo_service hub_sys) acts h \<and>
     serve_serially no_nix text_json (echo_server (Some 4)) [(client [Data (text_frame ''echo'')], True)] 0 =
       Some (shared (accept_loop h))"
proof -
  obtain acts h conn where run: "site_runs echo_service (site_start echo_service hub_sys) acts h"
    and h: "running h = Some (echo_server (Some 4))" "decided h = [(client [Data (text_frame ''echo'')], True)]"
      "panics (accept_loop h) = 0" "acceptor (accept_loop h) = Accepting" "threads (accept_loop h) = [0 \<mapsto> Returned conn]"
    using echo_client_served [of "client [Data (text_frame ''echo'')]"] hub_up_runs by blast
  let ?r = "leave (echo_server (Some 4)) 0 ((accept_loop h)\<lparr>path_there := exists_path ''/run/d.sock'' (os_state h)\<rparr>)"
  let ?h = "h\<lparr>accept_loop := ?r, decided := decided h @ decision (echo_server (Some 4)) (accept_loop h) (ClientLeaves 0)\<rparr>"
  have step: "site_step echo_service h (LoopRuns (ClientLeaves 0)) ?h"
    using loop_runsI [of h "echo_server (Some 4)" "ClientLeaves 0" echo_service] h(1,5) by simp
  have run': "site_runs echo_service (site_start echo_service hub_sys) (acts @ [LoopRuns (ClientLeaves 0)]) ?h"
    unfolding runs_append by (intro exI conjI, rule run, rule runs_single, rule step)
  have blind: "state_blind (sc_router echo_service) (sc_hooks echo_service)"
    and comm: "commuting (sc_router echo_service) (sc_hooks echo_service)"
    by (simp_all add: echo_state_blind echo_commuting)
  from daemon_is_serializable [OF blind comm run', of "echo_server (Some 4)"] h
  have "serve_serially no_nix text_json (echo_server (Some 4)) [(client [Data (text_frame ''echo'')], True)] 0 =
      Some (shared (accept_loop ?h))"
    by (simp add: leave_def decision_def)
  with run' show ?thesis by blast
qed

end
