(* ===== verification/Exchange.thy ===== *)
theory Exchange
  imports Clients
begin

text \<open>
  The whole way of a request: a client writes its requests with the frame codec, the daemon accepts the
  connection among others, its thread reads, dispatches and replies, and the client reads the replies
  with the same codec.
\<close>

section \<open>The two ends of the client\<close>

text \<open>A client that writes a list of requests one after the other, and then reads a number of replies.\<close>

fun write_requests :: "('v \<Rightarrow> json_error + byte list) \<Rightarrow> usize \<Rightarrow> 'v list \<Rightarrow> (byte list, frame_error, unit) fallible" where
  "write_requests to_vec m [] = ok ()"
| "write_requests to_vec m (v # vs) =
     try_bind (write_frame_with_limit vec_write_all vec_flush to_vec v m) (\<lambda>_. write_requests to_vec m vs)"

fun read_replies :: "(byte list \<Rightarrow> json_error + 'v) \<Rightarrow> usize \<Rightarrow> nat \<Rightarrow> (byte list, frame_error, 'v list) fallible" where
  "read_replies from_slice m 0 = ok []"
| "read_replies from_slice m (Suc n) =
     try_bind (read_frame_with_limit slice_read from_slice m) (\<lambda>v.
     try_bind (read_replies from_slice m n) (\<lambda>vs. ok (v # vs)))"

text \<open>Requests that were written without an error are on the wire frame by frame.\<close>

lemma write_requests_wire:
  assumes "write_requests to_vec m vs w = (Inr (), w')"
  shows "\<exists>ps. list_all2 (\<lambda>p v. to_vec v = Inr p \<and> length p \<le> m) ps vs \<and> w' = w @ concat (map frame_bytes ps)"
  using assms
proof (induction vs arbitrary: w)
  case (Cons v vs)
  then obtain w1 where one: "write_frame_with_limit vec_write_all vec_flush to_vec v m w = (Inr (), w1)"
    and rest: "write_requests to_vec m vs w1 = (Inr (), w')"
    by (auto elim: try_bind_eq_InrE)
  from one obtain p where p: "to_vec v = Inr p" "write_frame_bytes vec_write_all vec_flush p m w = (Inr (), w1)"
    by (auto simp: write_frame_with_limit_def split: sum.splits)
  from vec_out.write_frame_bytes_sent [OF p(2)] Cons.IH [OF rest] p(1) obtain ps where
    "length p \<le> m \<and> w1 = w @ frame_bytes p"
    "list_all2 (\<lambda>p v. to_vec v = Inr p \<and> length p \<le> m) ps vs \<and> w' = w1 @ concat (map frame_bytes ps)"
    by auto
  with p(1) show ?case by (intro exI [of _ "p # ps"]) simp
qed simp

text \<open>Frames on the wire are read back one by one.\<close>

lemma read_replies_wire:
  assumes "list_all2 (\<lambda>p v. from_slice p = Inr v \<and> length p \<le> m \<and> length p < 2 ^ 32) ps vs"
  shows "read_replies from_slice m (length vs) (concat (map frame_bytes ps) @ rest) = (Inr vs, rest)"
  using assms
proof (induction rule: list_all2_induct)
  case Nil
  then show ?case by simp
next
  case (Cons p ps v vs)
  obtain r' where "read_frame_bytes slice_read m (frame_bytes p @ (concat (map frame_bytes ps) @ rest)) = (Inr p, r')"
    "r' = concat (map frame_bytes ps) @ rest"
    using slice_in.read_frame_bytes_after_frame [OF refl, of p m "concat (map frame_bytes ps) @ rest"] Cons.hyps(1) by blast
  then have "read_frame_with_limit slice_read from_slice m (frame_bytes p @ (concat (map frame_bytes ps) @ rest)) =
      (Inr v, concat (map frame_bytes ps) @ rest)"
    using Cons.hyps(1) by (simp add: read_frame_with_limit_def ok_def)
  with Cons.IH show ?case by simp
qed

section \<open>What the echo service replies\<close>

definition echo_response :: "'v json_lib \<Rightarrow> 'v json_out \<Rightarrow> 'v \<Rightarrow> 'v" where
  "echo_response json out v =
     (case json_type_field json v of
        None \<Rightarrow> json_text_object out ''error'' ''unknown:''
      | Some name \<Rightarrow> if name = ''echo'' then v else json_text_object out ''error'' (''unknown:'' @ name))"

lemma echo_answer_response:
  assumes "json_to_vec out (echo_response json out v) = Inr p" and "length p \<le> m"
  shows "echo_answer json out m v st = frame_bytes p"
  using assms by (auto simp: echo_answer_def echo_response_def error_frame_def reply_outcome_def split: option.splits if_splits)

lemma echo_answers_wire:
  assumes "\<forall>v \<in> set vs. \<exists>p. json_to_vec out (echo_response json out v) = Inr p \<and> length p \<le> m"
  shows "\<exists>qs. list_all2 (\<lambda>q v. json_to_vec out v = Inr q \<and> length q \<le> m) qs (map (echo_response json out) vs) \<and>
    concat (map (\<lambda>v. echo_answer json out m v 0) vs) = concat (map frame_bytes qs)"
  using assms
proof (induction vs)
  case (Cons v vs)
  then obtain qs where qs: "list_all2 (\<lambda>q v. json_to_vec out v = Inr q \<and> length q \<le> m) qs (map (echo_response json out) vs)"
    "concat (map (\<lambda>v. echo_answer json out m v 0) vs) = concat (map frame_bytes qs)" by auto
  from Cons.prems obtain p where p: "json_to_vec out (echo_response json out v) = Inr p" "length p \<le> m" by auto
  with qs echo_answer_response [OF p] show ?case by (intro exI [of _ "p # qs"]) simp
qed simp

text \<open>A session with an echo server that gets whole requests and then the end of file.\<close>

lemma echo_session_output:
  assumes "allows nix auth stream" and "out_room stream = None" and "outgoing stream = []"
    and "list_all2 (\<lambda>p v. json_from_slice json p = Inr v \<and> length p \<le> m) ps vs" and "m < 2 ^ 32"
    and "pending stream = concat (map frame_bytes ps)" and "ending stream = None"
    and "handle_conn nix json stream st (echo_router out) (Hooks out) auth Persistent m = Some (st', conn)"
  shows "outgoing (conn_stream conn) = concat (map (\<lambda>v. echo_answer json out m v 0) vs)"
proof -
  have "list_all2 (echo.request json m) ps vs"
    using assms(4,5) by (auto simp: echo.request_def [abs_def] elim!: list_all2_mono)
  moreover have "pending stream = concat (map frame_bytes ps) @ []" using assms(6) by simp
  moreover have "frame_spec m [] (ending stream) = Inl (UnexpectedEof 0 4)"
    using assms(7) by (simp add: frame_spec_def exact_spec_def)
  ultimately obtain cs where
    "session_loop json (echo_router out) (Hooks out) st (conn_new stream m) =
      Some (end_session (Hooks out) (UnexpectedEof 0 4) (fold (echo_step json) vs st)
        (set_input cs (push_out (echo.answer_all json out m vs st) (conn_new stream m))))"
    using echo.session_answers_all [of json m ps vs "conn_new stream m" "[]" "UnexpectedEof 0 4" out st] assms(2)
    by auto
  with assms(1,3,8) show ?thesis
    by (auto simp: handle_conn_def Let_def end_session_def session_over_def echo_answer_all)
qed

section \<open>Property\<close>

text \<open>
  C10: What a client asks is what it is answered, through the whole daemon. Take a daemon with the echo service in
  persistent sessions, in any run on its machine, and a client among any others that it has let in: one
  that wrote its requests with the frame codec and then closed its sending side, delivered in any chunks.
  Once its thread is done, reading as many frames as there were requests from what was sent to the client
  gives the replies to its requests, in their order, and then nothing is left. The JSON coder must only
  read back what it has written, within the limits of the frames.
\<close>

theorem client_reads_its_replies:
  assumes "sc_router sc = echo_router out" and "sc_hooks sc = Hooks out"
    and "ap_session (sc_policy sc) = Persistent" and "ap_max_frame (sc_policy sc) = m" and "m < 2 ^ 32"
    and "site_runs sc (site_start sc s) acts h" and "running h \<noteq> None"
    and "threads (accept_loop h) i = Some (Returned conn)"
    and "stream = admitted (decided h) ! i" and "allows (sc_nix sc) (ap_auth (sc_policy sc)) stream"
    and "out_room stream = None" and "outgoing stream = []" and "ending stream = None"
    and "write_requests (json_to_vec out) m vs [] = (Inr (), pending stream)"
    and "\<forall>v \<in> set (vs @ map (echo_response (sc_json sc) out) vs).
      \<forall>p. json_to_vec out v = Inr p \<longrightarrow> json_from_slice (sc_json sc) p = Inr v"
    and "\<forall>v \<in> set vs. \<exists>p. json_to_vec out (echo_response (sc_json sc) out v) = Inr p \<and> length p \<le> m"
  shows "read_replies (json_from_slice (sc_json sc)) m (length vs) (outgoing (conn_stream conn)) =
    (Inr (map (echo_response (sc_json sc) out) vs), [])"
proof -
  from assms(7) obtain srv where "running h = Some srv" by blast
  with explainedD [OF explained_runs [OF assms(6)], of srv] assms(1,2) echo_state_blind [of out] obtain l n where
    n: "traced (sc_nix sc) (sc_json sc) (service_server sc l) n (decided h) (accept_loop h)" by auto
  have "fst (solo (sc_nix sc) (sc_json sc) (service_server sc l) stream (n i) (sc_initial sc)) = Returned conn"
    using n assms(8,9) by (simp add: traced_def)
  then obtain st' where "handle_conn (sc_nix sc) (sc_json sc) stream (sc_initial sc) (echo_router out) (Hooks out)
      (ap_auth (sc_policy sc)) Persistent m = Some (st', conn)"
    using solo_returned [of "sc_nix sc" "sc_json sc" "service_server sc l" stream "n i" "sc_initial sc" conn] assms(1-4)
    by (cases "solo (sc_nix sc) (sc_json sc) (service_server sc l) stream (n i) (sc_initial sc)") auto
  moreover from write_requests_wire [OF assms(14)] obtain ps where
    ps: "list_all2 (\<lambda>p v. json_to_vec out v = Inr p \<and> length p \<le> m) ps vs" "pending stream = concat (map frame_bytes ps)"
    by auto
  moreover have "list_all2 (\<lambda>p v. json_from_slice (sc_json sc) p = Inr v \<and> length p \<le> m) ps vs"
    using ps(1) assms(15) by (auto simp: list_all2_conv_all_nth)
  ultimately have "outgoing (conn_stream conn) = concat (map (\<lambda>v. echo_answer (sc_json sc) out m v 0) vs)"
    using echo_session_output [OF assms(10-12) _ assms(5) _ assms(13)] by blast
  moreover from echo_answers_wire [OF assms(16)] obtain qs where
    "list_all2 (\<lambda>q v. json_to_vec out v = Inr q \<and> length q \<le> m) qs (map (echo_response (sc_json sc) out) vs)"
    "concat (map (\<lambda>v. echo_answer (sc_json sc) out m v 0) vs) = concat (map frame_bytes qs)" by blast
  moreover from this(1) have "list_all2 (\<lambda>q v. json_from_slice (sc_json sc) q = Inr v \<and> length q \<le> m \<and> length q < 2 ^ 32)
      qs (map (echo_response (sc_json sc) out) vs)"
    using assms(5,15) by (auto simp: list_all2_conv_all_nth)
  ultimately show ?thesis
    using read_replies_wire [of "json_from_slice (sc_json sc)" m qs "map (echo_response (sc_json sc) out) vs" "[]"] by simp
qed

theorem client_reads_its_replies_witness:
  "\<exists>acts h conn. site_runs echo_service (site_start echo_service hub_sys) acts h \<and>
     threads (accept_loop h) 0 = Some (Returned conn) \<and>
     read_replies (json_from_slice text_json) 64 2 (outgoing (conn_stream conn)) =
       (Inr [''echo'', ''error:unknown:no''], [])"
proof -
  let ?wire = "text_frame ''echo'' @ text_frame ''no''"
  let ?stream = "client [Data (take 5 ?wire), Data (drop 5 ?wire)]"
  obtain acts h conn where run: "site_runs echo_service (site_start echo_service hub_sys) acts h"
    and h: "running h = Some (echo_server (Some 4))" "decided h = [(?stream, True)]"
      "threads (accept_loop h) = [0 \<mapsto> Returned conn]"
    using echo_client_served [of ?stream] hub_up_runs by blast
  have up: "running h \<noteq> None" and thread: "threads (accept_loop h) 0 = Some (Returned conn)"
    and st: "?stream = admitted (decided h) ! 0"
    using h by simp_all
  have wire: "write_requests (json_to_vec text_out) 64 [''echo'', ''no''] [] = (Inr (), pending ?stream)"
    by (simp add: write_frame_with_limit_def write_frame_bytes_def vec_write_all_def vec_flush_def unfold_io Let_def
        text_frame_def frame_bytes_def)
  have reply: "echo_response text_json text_out ''echo'' = ''echo''" "echo_response text_json text_out ''no'' = ''error:unknown:no''"
    by (simp_all add: echo_response_def text_out_def)
  have coder: "json_from_slice text_json (map of_char ''echo'') = Inr ''echo''"
    "json_from_slice text_json (map of_char ''no'') = Inr ''no''"
    "json_from_slice text_json (map of_char ''error:unknown:no'') = Inr ''error:unknown:no''"
    by code_simp+
  have two: "length [''echo'', ''no''] = 2" by simp
  have "read_replies (json_from_slice (sc_json echo_service)) 64 (length [''echo'', ''no'']) (outgoing (conn_stream conn)) =
      (Inr (map (echo_response (sc_json echo_service) text_out) [''echo'', ''no'']), [])"
    by (rule client_reads_its_replies [OF _ _ _ _ _ run up thread st]) (use wire reply coder in simp_all)
  then have "read_replies (json_from_slice text_json) 64 2 (outgoing (conn_stream conn)) = (Inr [''echo'', ''error:unknown:no''], [])"
    by (simp only: two reply list.map echo_service_simps)
  with run thread show ?thesis by blast
qed

end
