(* ===== verification/Streaming.thy ===== *)
theory Streaming
  imports Exchange Any_Input
begin

text \<open>
  Commands that stream: \<open>Command::execute\<close> of \<open>ipc/command.rs\<close> may write several frames through
  \<open>Connection::reply\<close>. The command itself is the daemon's, a parameter here; what it relies on is that its
  frames reach the client one after the other, between those of the requests before and after.
\<close>

section \<open>A sequence of replies\<close>

text \<open>What the body of such a command does with \<open>conn\<close>: a \<open>reply\<close> for each item, with the question mark.\<close>

fun reply_each :: "('m \<Rightarrow> json_error + byte list) \<Rightarrow> 'm list \<Rightarrow> (connection, frame_error, unit) fallible" where
  "reply_each to_vec [] = ok ()"
| "reply_each to_vec (x # xs) = try_bind (reply to_vec x) (\<lambda>_. reply_each to_vec xs)"

definition streams ::
  "('v \<Rightarrow> json_error + byte list) \<Rightarrow> ('v \<Rightarrow> 's \<Rightarrow> 'v list) \<Rightarrow> ('v \<Rightarrow> 's \<Rightarrow> 's) \<Rightarrow> ('s, 'v) command \<Rightarrow> bool" where
  "streams to_vec items step cmd \<longleftrightarrow>
     (\<forall>st v conn. cmd_execute cmd st v conn =
        (case reply_each to_vec (items v st) conn of
           (Inl e, conn') \<Rightarrow> (Inl (FrameErr e), step v st, conn')
         | (Inr _, conn') \<Rightarrow> (Inr (), step v st, conn')))"

text \<open>The bytes of a sequence of replies, up to the first that cannot be sent, and its error.\<close>

fun stream_bytes :: "('m \<Rightarrow> json_error + byte list) \<Rightarrow> usize \<Rightarrow> 'm list \<Rightarrow> byte list \<times> frame_error option" where
  "stream_bytes to_vec m [] = ([], None)"
| "stream_bytes to_vec m (x # xs) =
     (case reply_outcome to_vec m x of
        Inl e \<Rightarrow> ([], Some e)
      | Inr bs \<Rightarrow> (case stream_bytes to_vec m xs of (cs, e) \<Rightarrow> (bs @ cs, e)))"

lemma reply_each_eq:
  assumes "out_room (conn_stream conn) = None"
  shows "reply_each to_vec xs conn =
    (case stream_bytes to_vec (conn_max_frame conn) xs of
       (bs, None) \<Rightarrow> (Inr (), push_out bs conn)
     | (bs, Some e) \<Rightarrow> (Inl e, push_out bs conn))"
  using assms
proof (induction xs arbitrary: conn)
  case Nil
  then show ?case by (simp add: ok_def)
next
  case (Cons x xs)
  show ?case
  proof (cases "reply_outcome to_vec (conn_max_frame conn) x")
    case (Inl e)
    with reply_eq [OF Cons.prems, of to_vec x] show ?thesis by (simp add: try_bind_def)
  next
    case (Inr bs)
    with reply_eq [OF Cons.prems, of to_vec x] Cons.IH [of "push_out bs conn"] Cons.prems show ?thesis
      by (auto simp: try_bind_def split: prod.split option.split)
  qed
qed

section \<open>A service with a streaming command\<close>

definition stream_router :: "('s, 'v) command \<Rightarrow> ('s, 'v) router" where
  "stream_router cmd = snd (router_add cmd router_new)"

definition stream_step :: "'v json_lib \<Rightarrow> string \<Rightarrow> ('v \<Rightarrow> 's \<Rightarrow> 's) \<Rightarrow> 'v \<Rightarrow> 's \<Rightarrow> 's" where
  "stream_step json n step v st = (if json_type_field json v = Some n then step v st else st)"

definition stream_answer ::
  "'v json_lib \<Rightarrow> 'v json_out \<Rightarrow> usize \<Rightarrow> string \<Rightarrow> ('v \<Rightarrow> 's \<Rightarrow> 'v list) \<Rightarrow> 'v \<Rightarrow> 's \<Rightarrow> byte list" where
  "stream_answer json out m n items v st =
     (case json_type_field json v of
        None \<Rightarrow> error_frame out m ''unknown:''
      | Some name \<Rightarrow>
          if name = n
          then (case stream_bytes (json_to_vec out) m (items v st) of
                  (bs, None) \<Rightarrow> bs
                | (bs, Some e) \<Rightarrow> bs @ error_frame out m (frame_error_display e))
          else error_frame out m (''unknown:'' @ name))"

lemma streaming_replies:
  assumes "streams (json_to_vec out) items step cmd"
  shows "replying_service json (stream_router cmd) (Hooks out) m (stream_step json (cmd_name cmd) step)
    (stream_answer json out m (cmd_name cmd) items)"
proof
  fix conn :: connection and st and v
  assume room: "out_room (conn_stream conn) = None" and m: "conn_max_frame conn = m"
  have run: "cmd_execute cmd st v conn =
      (case stream_bytes (json_to_vec out) m (items v st) of
         (bs, None) \<Rightarrow> (Inr (), step v st, push_out bs conn)
       | (bs, Some e) \<Rightarrow> (Inl (FrameErr e), step v st, push_out bs conn))"
    using assms reply_each_eq [OF room, of "json_to_vec out" "items v st"] m
    by (simp add: streams_def split: prod.split option.split)
  show "dispatch_body json (stream_router cmd) (Hooks out) st v conn =
      (Inr (), stream_step json (cmd_name cmd) step v st,
       push_out (stream_answer json out m (cmd_name cmd) items v st) conn)"
    using run reply_error_eq [where out = out, OF room] reply_error_eq [where out = out and conn = "push_out _ conn"] room m
    by (auto simp: dispatch_body_def stream_router_def router_get_single Hooks_def stream_step_def stream_answer_def
        split: option.split prod.split)
qed

section \<open>From the command to the client\<close>

text \<open>All items of a list of requests, each produced from the state the ones before it have left.\<close>

fun all_items :: "('v \<Rightarrow> 's \<Rightarrow> 'v list) \<Rightarrow> ('v \<Rightarrow> 's \<Rightarrow> 's) \<Rightarrow> 'v list \<Rightarrow> 's \<Rightarrow> 'v list" where
  "all_items items step [] st = []"
| "all_items items step (v # vs) st = items v st @ all_items items step vs (step v st)"

definition on_wire :: "'v json_out \<Rightarrow> usize \<Rightarrow> byte list list \<Rightarrow> 'v list \<Rightarrow> bool" where
  "on_wire out m = list_all2 (\<lambda>q x. json_to_vec out x = Inr q \<and> length q \<le> m)"

lemma stream_bytes_wire:
  assumes "\<forall>x \<in> set xs. \<exists>p. json_to_vec out x = Inr p \<and> length p \<le> m"
  shows "\<exists>qs. on_wire out m qs xs \<and> stream_bytes (json_to_vec out) m xs = (concat (map frame_bytes qs), None)"
  using assms
proof (induction xs)
  case Nil
  then show ?case by (simp add: on_wire_def)
next
  case (Cons x xs)
  then obtain qs p where "on_wire out m qs xs" "stream_bytes (json_to_vec out) m xs = (concat (map frame_bytes qs), None)"
    "json_to_vec out x = Inr p" "length p \<le> m" by auto
  then show ?case by (intro exI [of _ "p # qs"]) (simp add: on_wire_def reply_outcome_def)
qed

lemma answers_wire:
  assumes rs: "replying_service json (stream_router cmd) (Hooks out) m (stream_step json n step) (stream_answer json out m n items)"
    and "\<forall>v \<in> set vs. json_type_field json v = Some n"
    and "\<forall>v \<in> set vs. \<forall>st. \<forall>x \<in> set (items v st). \<exists>p. json_to_vec out x = Inr p \<and> length p \<le> m"
  shows "\<exists>qs. on_wire out m qs (all_items items step vs st) \<and>
    replying_service.answer_all (stream_step json n step) (stream_answer json out m n items) vs st = concat (map frame_bytes qs)"
  using assms(2,3)
proof (induction vs arbitrary: st)
  case Nil
  then show ?case by (simp add: replying_service.answer_all.simps [OF rs] on_wire_def)
next
  case (Cons v vs)
  obtain qs where qs: "on_wire out m qs (items v st)"
    "stream_bytes (json_to_vec out) m (items v st) = (concat (map frame_bytes qs), None)"
    using stream_bytes_wire [of "items v st" out m] Cons.prems(2) by auto
  obtain rs' where rs': "on_wire out m rs' (all_items items step vs (step v st))"
    "replying_service.answer_all (stream_step json n step) (stream_answer json out m n items) vs (step v st) = concat (map frame_bytes rs')"
    using Cons.IH [where st = "step v st"] Cons.prems by auto
  have "on_wire out m (qs @ rs') (all_items items step (v # vs) st)"
    using qs(1) rs'(1) by (simp add: on_wire_def list_all2_appendI)
  moreover have "replying_service.answer_all (stream_step json n step) (stream_answer json out m n items) (v # vs) st =
      concat (map frame_bytes (qs @ rs'))"
    using qs(2) rs'(2) Cons.prems(1) by (simp add: replying_service.answer_all.simps [OF rs] stream_answer_def stream_step_def)
  ultimately show ?case by blast
qed

lemma stream_steps:
  "\<forall>v \<in> set vs. json_type_field json v = Some n \<Longrightarrow> fold (stream_step json n step) vs st = fold step vs st"
  by (induction vs arbitrary: st) (simp_all add: stream_step_def)

text \<open>
  C11: Streamed replies arrive whole and in order. Take a command that answers a request by any number of
  frames, none included, which may depend on the request and the state, in a persistent session with an
  admitted client whose bytes read as requests of that type, in any chunks, up to an end of file or a
  reset. Reading as many frames as there are items from what the client was sent gives the items of its
  requests one after the other, each request seeing the state the one before it left, and then nothing is
  left. (Every item can be encoded and read back and fits into a frame.)
\<close>

theorem streamed_replies_are_read:
  assumes "streams (json_to_vec out) items step cmd"
    and "allows nix auth stream" and "out_room stream = None" and "outgoing stream = []"
    and "script json m (pending stream) (ending stream) = (vs, e)" and "session_over e" and "m < 2 ^ 32"
    and "\<forall>v \<in> set vs. json_type_field json v = Some (cmd_name cmd)"
    and "\<forall>v \<in> set vs. \<forall>st. \<forall>x \<in> set (items v st).
      \<exists>p. json_to_vec out x = Inr p \<and> length p \<le> m \<and> json_from_slice json p = Inr x"
  shows "\<exists>conn. handle_conn nix json stream st (stream_router cmd) (Hooks out) auth Persistent m = Some (fold step vs st, conn) \<and>
    read_replies (json_from_slice json) m (length (all_items items step vs st)) (outgoing (conn_stream conn)) =
      (Inr (all_items items step vs st), [])"
proof -
  note rs = streaming_replies [where json = json and m = m, OF assms(1)]
  let ?answers = "replying_service.answer_all (stream_step json (cmd_name cmd) step) (stream_answer json out m (cmd_name cmd) items) vs st"
  let ?conn = "conn_new stream m"
  let ?xs = "all_items items step vs st"
  obtain cs where "session_loop json (stream_router cmd) (Hooks out) st ?conn =
      Some (end_session (Hooks out) e (fold step vs st) (set_input cs (push_out ?answers ?conn)))"
    using replying_service.session_follows_script [OF rs, of ?conn vs e st] assms(3,5) stream_steps [where step = step and st = st, OF assms(8)] by auto
  then have run: "handle_conn nix json stream st (stream_router cmd) (Hooks out) auth Persistent m =
      Some (fold step vs st, set_input cs (push_out ?answers ?conn))"
    using assms(2,6) by (simp add: handle_conn_def Let_def end_session_def)
  obtain qs where qs: "on_wire out m qs (all_items items step vs st)" "?answers = concat (map frame_bytes qs)"
    using answers_wire [OF rs assms(8), of st] assms(9) by blast
  have each: "\<exists>p. json_to_vec out x = Inr p \<and> length p \<le> m \<and> json_from_slice json p = Inr x"
    if "x \<in> set (all_items items step us st')" "set us \<subseteq> set vs" for x us st'
    using that assms(9) by (induction us arbitrary: st') auto
  have "list_all2 (\<lambda>q x. json_from_slice json q = Inr x \<and> length q \<le> m \<and> length q < 2 ^ 32) qs (all_items items step vs st)"
    unfolding list_all2_conv_all_nth
  proof (intro conjI allI impI)
    show "length qs = length ?xs" using qs(1) by (simp add: on_wire_def list_all2_lengthD)
    fix i
    assume i: "i < length qs"
    then have q: "json_to_vec out (?xs ! i) = Inr (qs ! i)" "length (qs ! i) \<le> m"
      using qs(1) by (auto simp: on_wire_def dest: list_all2_nthD)
    have "?xs ! i \<in> set ?xs" using i qs(1) by (simp add: on_wire_def list_all2_lengthD)
    from each [OF this order.refl] q(1) show "json_from_slice json (qs ! i) = Inr (?xs ! i)" by auto
    show "length (qs ! i) \<le> m" "length (qs ! i) < 2 ^ 32" using q(2) assms(7) by simp_all
  qed
  from read_replies_wire [OF this, of "[]"] run qs(2) assms(4) show ?thesis by auto
qed

text \<open>The commands of the test module are of this kind, with one item per request.\<close>

lemma echo_streams: "streams (json_to_vec out) (\<lambda>v st. [v]) (\<lambda>v st. st + 1) (Echo out)"
  by (simp add: streams_def Echo_def echo_execute_def try_bind_def ok_def split: prod.split sum.split)

text \<open>The witness: a command that lists two items in its first reply and one in each later reply.\<close>

definition listing :: "string \<Rightarrow> atomic_usize \<Rightarrow> string list" where
  "listing v st = (if st = 0 then [''one'', ''two''] else [''three''])"

definition lister :: "(atomic_usize, string) command" where
  "lister =
     \<lparr>cmd_name = ''list'',
      cmd_execute = (\<lambda>st v conn.
        case reply_each (json_to_vec text_out) (listing v st) conn of
          (Inl e, conn') \<Rightarrow> (Inl (FrameErr e), st + 1, conn')
        | (Inr _, conn') \<Rightarrow> (Inr (), st + 1, conn'))\<rparr>"

theorem streamed_replies_are_read_witness:
  "\<exists>conn. handle_conn no_nix text_json (client [Data (text_frame ''list'' @ text_frame ''list'')]) 0
      (stream_router lister) (Hooks text_out) AuthNone Persistent 64 = Some (2, conn) \<and>
    read_replies (json_from_slice text_json) 64 3 (outgoing (conn_stream conn)) = (Inr [''one'', ''two'', ''three''], [])"
proof -
  let ?s = "client [Data (text_frame ''list'' @ text_frame ''list'')]"
  have "pending ?s = text_frame ''list'' @ (text_frame ''list'' @ [])" by simp
  moreover have list: "json_from_slice text_json (map of_char ''list'') = Inr ''list''" by code_simp
  moreover have "ending ?s = None" by (simp add: client_def)
  moreover have "script text_json 64 (text_frame ''list'' @ []) None = ([''list''], UnexpectedEof 0 4)"
    unfolding text_frame_def using list
    by (subst script_frame) (simp_all add: script.simps frame_spec_def exact_spec_def)
  ultimately have script: "script text_json 64 (pending ?s) (ending ?s) = ([''list'', ''list''], UnexpectedEof 0 4)"
    by (simp only:) (subst text_frame_def, subst script_frame, simp_all)
  have streams: "streams (json_to_vec text_out) listing (\<lambda>v st. st + 1) lister"
    by (simp add: streams_def lister_def)
  have coder: "json_from_slice text_json (map of_char ''one'') = Inr ''one''"
    "json_from_slice text_json (map of_char ''two'') = Inr ''two''"
    "json_from_slice text_json (map of_char ''three'') = Inr ''three''"
    by code_simp+
  have items: "\<exists>p. json_to_vec text_out x = Inr p \<and> length p \<le> 64 \<and> json_from_slice text_json p = Inr x"
    if "x \<in> set (listing v st)" for x v st
    using that coder by (auto simp: listing_def text_out_def split: if_splits)
  have facts: "allows no_nix AuthNone ?s" "out_room ?s = None" "outgoing ?s = []" "session_over (UnexpectedEof 0 4)"
    "\<forall>v \<in> set [''list'', ''list'']. json_type_field text_json v = Some (cmd_name lister)"
    by (simp_all add: client_def session_over_def lister_def)
  from streamed_replies_are_read [where st = 0, OF streams facts(1-3) script facts(4) _ facts(5)] items show ?thesis
    by (simp add: listing_def numeral_3_eq_3)
qed

end
