(* ===== verification/Sighup.thy ===== *)
theory Sighup
  imports Prelude
begin

text \<open>
  \<open>config/sighup.rs\<close>: the flag that a hang-up sets. The \<open>signal_hook\<close> crate is the parameter
  \<open>signal_lib\<close>: the number of the signal and the call that registers a flag for a signal, on a state of
  the process. A flag (\<open>Arc<AtomicBool>\<close>) is known by its address.
\<close>

section \<open>Installing the flag\<close>

record 'w signal_lib =
  sig_hup :: int
  flag_register :: "int \<Rightarrow> nat \<Rightarrow> ('w, io_error, nat) fallible"

definition install_sighup_flag :: "'w signal_lib \<Rightarrow> nat \<Rightarrow> ('w, io_error, unit) fallible" where
  "install_sighup_flag lib flag = try_bind (flag_register lib (sig_hup lib) flag) (\<lambda>_. ok ())"

section \<open>What the flag tells\<close>

text \<open>
  The documented behaviour of \<open>signal_hook::flag::register\<close>: a registration that succeeds adds one
  handler and changes no flag, one that fails changes nothing; a signal sets the flags registered for it,
  and no others, and stays registered.
\<close>

definition signal_contract ::
  "'w signal_lib \<Rightarrow> ('w \<Rightarrow> (int \<times> nat) set) \<Rightarrow> ('w \<Rightarrow> nat \<Rightarrow> bool) \<Rightarrow> (int \<Rightarrow> 'w \<Rightarrow> 'w) \<Rightarrow> bool" where
  "signal_contract lib handlers flag_set deliver \<longleftrightarrow>
     (\<forall>sig flag w. (case flag_register lib sig flag w of
          (Inl _, w') \<Rightarrow> w' = w
        | (Inr _, w') \<Rightarrow> handlers w' = insert (sig, flag) (handlers w) \<and> flag_set w' = flag_set w)) \<and>
     (\<forall>sig w. handlers (deliver sig w) = handlers w) \<and>
     (\<forall>sig w flag. flag_set (deliver sig w) flag \<longleftrightarrow> flag_set w flag \<or> (sig, flag) \<in> handlers w)"

lemma flag_after_signals:
  assumes "signal_contract lib handlers flag_set deliver"
  shows "flag_set (fold deliver sigs w) flag \<longleftrightarrow> flag_set w flag \<or> (\<exists>sig \<in> set sigs. (sig, flag) \<in> handlers w)"
proof (induction sigs arbitrary: w)
  case (Cons sig sigs)
  with assms show ?case by (auto simp: signal_contract_def)
qed simp

lemma install_sighup_flag_effect:
  assumes "signal_contract lib handlers flag_set deliver"
  shows "case install_sighup_flag lib flag w of
      (Inl e, w') \<Rightarrow> w' = w
    | (Inr _, w') \<Rightarrow> handlers w' = insert (sig_hup lib, flag) (handlers w) \<and> flag_set w' = flag_set w"
proof -
  obtain r w' where r: "flag_register lib (sig_hup lib) flag w = (r, w')" by fastforce
  from assms have "case flag_register lib (sig_hup lib) flag w of
      (Inl _, w') \<Rightarrow> w' = w
    | (Inr _, w') \<Rightarrow> handlers w' = insert (sig_hup lib, flag) (handlers w) \<and> flag_set w' = flag_set w"
    by (simp add: signal_contract_def)
  with r show ?thesis by (cases r) (simp_all add: install_sighup_flag_def ok_def)
qed

section \<open>Property\<close>

text \<open>
  The flag tells a hang-up. If the installation succeeds on a flag that no other signal uses, then after
  any sequence of signals the flag is set exactly if it was set before or one of them was the hang-up; if
  the installation fails, the error is returned and the process is as it was.
\<close>

theorem sighup_flag_tells_hangup:
  assumes "signal_contract lib handlers flag_set deliver" and "\<forall>sig. (sig, flag) \<notin> handlers w"
  shows "case install_sighup_flag lib flag w of
      (Inl e, w') \<Rightarrow> w' = w
    | (Inr _, w') \<Rightarrow> \<forall>sigs. flag_set (fold deliver sigs w') flag \<longleftrightarrow> flag_set w flag \<or> sig_hup lib \<in> set sigs"
proof -
  obtain r w' where r: "install_sighup_flag lib flag w = (r, w')" by fastforce
  with install_sighup_flag_effect [OF assms(1), where flag = flag and w = w] assms(2) show ?thesis
    by (cases r) (auto simp: flag_after_signals [OF assms(1)])
qed

text \<open>A process as its handlers and flags, for the witness.\<close>

definition table_signals :: "((int \<times> nat) list \<times> nat list) signal_lib" where
  "table_signals =
     \<lparr>sig_hup = 1, flag_register = (\<lambda>sig flag (hs, set_flags). (Inr (length hs), (sig, flag) # hs, set_flags))\<rparr>"

definition table_deliver :: "int \<Rightarrow> (int \<times> nat) list \<times> nat list \<Rightarrow> (int \<times> nat) list \<times> nat list" where
  "table_deliver sig w = (fst w, map snd (filter (\<lambda>h. fst h = sig) (fst w)) @ snd w)"

lemma table_contract:
  "signal_contract table_signals (\<lambda>w. set (fst w)) (\<lambda>w flag. flag \<in> set (snd w)) table_deliver"
  by (force simp: signal_contract_def table_signals_def table_deliver_def)

theorem sighup_flag_tells_hangup_witness:
  "fst (install_sighup_flag table_signals 4 ([], [])) = Inr () \<and>
   4 \<notin> set (snd (fold table_deliver [15] (snd (install_sighup_flag table_signals 4 ([], []))))) \<and>
   4 \<in> set (snd (fold table_deliver [15, 1] (snd (install_sighup_flag table_signals 4 ([], [])))))"
proof -
  obtain w where run: "install_sighup_flag table_signals 4 ([], []) = (Inr (), w)"
    by (simp add: install_sighup_flag_def table_signals_def try_bind_def)
  have hup: "sig_hup table_signals = 1" by (simp add: table_signals_def)
  from sighup_flag_tells_hangup [OF table_contract, where flag = 4 and w = "([], [])"] run hup
  have flag: "\<forall>sigs. 4 \<in> set (snd (fold table_deliver sigs w)) \<longleftrightarrow> 1 \<in> set sigs" by simp
  from flag [rule_format, of "[15]"] flag [rule_format, of "[15, 1]"] run show ?thesis by simp
qed

end
