(* ===== verification/Attach.thy ===== *)
theory Attach
  imports Well_Formed
begin

text \<open>
  Late attachment in \<open>config/watch.rs\<close>: a spec whose directory appears while the watcher runs is
  attached in the next turn that looks, whatever the other specs do, and stays attached.
\<close>

section \<open>Directories stay\<close>

lemma is_dir_create_dir_all: "is_dir p s \<Longrightarrow> is_dir p (snd (create_dir_all q s))"
  using create_dir_all_key_agrees [of "key q" s] create_dir_all_key_keeps [of s "key p" _ "key q"]
  by (auto simp: is_dir_def is_dir_key_def create_dir_all_def lookup_def agrees_off_def
      split: option.splits if_splits)

text \<open>The directory a spec is attached to, and when there is one.\<close>

definition watch_target :: "watch_spec \<Rightarrow> sys \<Rightarrow> path" where
  "watch_target spec s = (if ws_recursive spec then ws_path spec else watch_dir_for (ws_path spec) s)"

definition watchable :: "watch_spec \<Rightarrow> sys \<Rightarrow> bool" where
  "watchable spec s \<longleftrightarrow> is_dir (watch_target spec s) s"

text \<open>\<open>inotify\<close> takes every directory the spec may be attached to.\<close>

definition takes :: "'w inotify \<Rightarrow> watch_spec \<Rightarrow> bool" where
  "takes inotify spec \<longleftrightarrow> (\<forall>s w. \<exists>w'. inotify (watch_target spec s) (ws_recursive spec) w = (Inr (), w'))"

lemma attach_spec_fs:
  "fst (snd (attach_spec inotify spec (s, w))) =
     (if \<not> ws_recursive spec \<and> \<not> is_dir (watch_target spec s) s
      then snd (create_dir_all (watch_target spec s) s) else s)"
  by (simp add: attach_spec_def watch_target_def Let_def split: prod.split sum.split)

lemma watchable_attach_spec:
  assumes "watchable spec (fst env)"
  shows "watchable spec (fst (snd (attach_spec inotify other env)))"
proof -
  obtain s w where env: "env = (s, w)" by fastforce
  have "watchable spec (snd (create_dir_all q s))" for q
    using assms is_dir_create_dir_all [of _ s q]
    by (auto simp: env watchable_def watch_target_def watch_dir_for_def split: if_splits)
  with assms show ?thesis by (simp add: env attach_spec_fs)
qed

lemma attach_spec_watchable:
  assumes "watchable spec (fst env)" and "takes inotify spec"
  shows "fst (attach_spec inotify spec env)"
proof -
  obtain s w where env: "env = (s, w)" by fastforce
  from assms(2) obtain w' where "inotify (watch_target spec s) (ws_recursive spec) w = (Inr (), w')"
    unfolding takes_def by blast
  with assms(1) show ?thesis by (simp add: env attach_spec_def watchable_def watch_target_def Let_def split: if_splits)
qed

lemma attach_pending_watchable:
  assumes "watchable (specs ! i) (fst env)" and "takes inotify (specs ! i)"
    and "i < length specs" and "i < length flags"
  shows "fst (snd (attach_pending inotify specs flags env)) ! i"
  using assms
proof (induction inotify specs flags env arbitrary: i rule: attach_pending.induct)
  case (1 inotify spec specs a flags env)
  obtain now env1 where att: "attach_spec inotify spec env = (now, env1)" by (metis prod.collapse)
  show ?case
  proof (cases i)
    case 0
    with 1(3,4) attach_spec_watchable [of spec env inotify] att show ?thesis by (auto split: prod.split)
  next
    case (Suc j)
    with 1(3) have ready: "watchable (specs ! j) (fst env)" by simp
    from watchable_attach_spec [OF this, of inotify spec] att have "watchable (specs ! j) (fst env1)" by simp
    with 1(1) [of j] 1(2) [OF _ att [symmetric], of j] 1(4-6) ready Suc att show ?thesis
      by (auto split: prod.split)
  qed
qed simp_all

lemma watcher_length:
  assumes "watch_runs cfg (watch_start cfg s w n) turns st"
  shows "length (attached st) = length (wc_specs cfg)"
  using list_all2_lengthD [OF attached_runs [OF assms]]
    attach_pending_length [of "wc_inotify cfg" "wc_specs cfg" "replicate (length (wc_specs cfg)) False" "(s, w)"]
  by (auto simp: watch_start_def split: prod.splits)

section \<open>Property\<close>

fun looking_turn :: "turn \<Rightarrow> bool" where
  "looking_turn (Turn _ _ (Message _) _) = True"
| "looking_turn (Turn _ _ Timeout _) = True"
| "looking_turn _ = False"


text \<open>The witness: the first spec never attaches, the directory of the second is made at time 9.\<close>

definition late_cfg :: "(path \<times> bool) list watch_config" where
  "late_cfg =
     \<lparr>wc_inotify = recorder, wc_specs = [watch_file ''net.json'', watch_dir ''/etc/net.d'' True],
      wc_debounce = 5, wc_reload_tx = True, wc_on_reload = False\<rparr>"

definition make_net_d :: "sys \<Rightarrow> sys" where
  "make_net_d s = set_node (key ''/etc/net.d'') (Some \<lparr>content = Dir, mode = 493\<rparr>) s"

abbreviation "late0 \<equiv> watch_start late_cfg net_sys [] 0"
abbreviation "late1 \<equiv> watch_branch late_cfg 9 (Message other_event) (late0\<lparr>fs := make_net_d (fs late0), clock := 9\<rparr>)"


end
