(* ===== verification/Reload.thy ===== *)
theory Reload
  imports Watch_Loop Json_File
begin

text \<open>
  The reload path as one machine: the watch thread of \<open>config/watch.rs\<close>, started by \<open>spawn_callback\<close> with a
  callback that calls \<open>try_reload\<close> of \<open>config/mod.rs\<close> on a \<open>JsonFile\<close> of \<open>config/json.rs\<close> and a shared
  \<open>Live\<close> snapshot, while others write the file.
\<close>

section \<open>The machine\<close>

text \<open>
  \<open>fire_reload\<close> calls the callback at the end of a turn, so the load sees the file system the turn has
  left; its error, if any, is for the callback to log.
\<close>

definition run_notification ::
  "'v config_codec \<Rightarrow> json_file \<Rightarrow> notification \<Rightarrow> sys \<times> 'v live \<Rightarrow> sys \<times> 'v live" where
  "run_notification codec src n env =
     (case n of Callback \<Rightarrow> snd (try_reload (load codec src) env) | Signal \<Rightarrow> env)"

definition after_turn ::
  "'v config_codec \<Rightarrow> json_file \<Rightarrow> 'w watch_state \<Rightarrow> 'w watch_state \<Rightarrow> 'v live \<Rightarrow> 'w watch_state \<times> 'v live" where
  "after_turn codec src st st' l =
     (case fold (run_notification codec src) (drop (length (sent st)) (sent st')) (fs st', l) of
        (s, l') \<Rightarrow> (st'\<lparr>fs := s\<rparr>, l'))"

inductive pipe_step ::
  "'w watch_config \<Rightarrow> 'v config_codec \<Rightarrow> json_file \<Rightarrow> 'w watch_state \<times> 'v live \<Rightarrow> turn \<Rightarrow>
   'w watch_state \<times> 'v live \<Rightarrow> bool"
  for cfg :: "'w watch_config" and codec :: "'v config_codec" and src :: json_file where
  pipe: "watch_step cfg st a st' \<Longrightarrow> pipe_step cfg codec src (st, l) a (after_turn codec src st st' l)"

abbreviation pipe_runs ::
  "'w watch_config \<Rightarrow> 'v config_codec \<Rightarrow> json_file \<Rightarrow> 'w watch_state \<times> 'v live \<Rightarrow> turn list \<Rightarrow>
   'w watch_state \<times> 'v live \<Rightarrow> bool" where
  "pipe_runs cfg codec src \<equiv> runs (pipe_step cfg codec src)"

inductive_cases pipe_stepE: "pipe_step cfg codec src (st, l) a p"

section \<open>What the callback leaves alone\<close>

lemma after_turn_fields:
  "activity (fst (after_turn codec src st st' l)) = activity st'"
  "clock (fst (after_turn codec src st st' l)) = clock st'"
  "sent (fst (after_turn codec src st st' l)) = sent st'"
  "stopped (fst (after_turn codec src st st' l)) = stopped st'"
  "stop_set (fst (after_turn codec src st st' l)) = stop_set st'"
  "attached (fst (after_turn codec src st st' l)) = attached st'"
  by (simp_all add: after_turn_def split: prod.split)

lemma after_turn_recent: "recent n (fst (after_turn codec src st st' l)) = recent n st'"
  by (simp add: recent_def clock_ok_def after_turn_fields)

lemma after_turn_clock_ok: "clock_ok (fst (after_turn codec src st st' l)) = clock_ok st'"
  by (simp add: clock_ok_def after_turn_fields)

lemma after_turn_quiet: "sent st' = sent st \<Longrightarrow> after_turn codec src st st' l = (st', l)"
  by (simp add: after_turn_def)

lemma pipe_clock_ok:
  assumes "pipe_runs cfg codec src p turns p'" and "clock_ok (fst p)"
  shows "clock_ok (fst p')"
  using assms
proof (rule runs_invariant [where P = "\<lambda>p. clock_ok (fst p)"])
  fix p a p'
  assume "pipe_step cfg codec src p a p'" and "clock_ok (fst p)"
  then show "clock_ok (fst p')" by cases (auto simp: after_turn_clock_ok dest: clock_ok_step)
qed

section \<open>A burst of events\<close>

text \<open>
  Within a burst, from an event that concerns the configuration until the receive times out, the change
  stays pending and nothing is loaded.
\<close>

definition in_burst :: "nat \<Rightarrow> 'v live \<Rightarrow> 'w watch_state \<times> 'v live \<Rightarrow> bool" where
  "in_burst n l p \<longleftrightarrow> recent n (fst p) \<and> activity (fst p) \<noteq> None \<and> snd p = l"

lemma no_timeout_turn:
  assumes "watch_step cfg st a st'" and "clock_ok st" and "\<not> timeout_turn a"
  shows "sent st' = sent st \<and> (activity st \<noteq> None \<longrightarrow> activity st' \<noteq> None)"
  using assms(1)
proof (cases rule: watch_step_kinds)
  case (flags b c)
  then show ?thesis by simp
next
  case Turn: (turn start now res others)
  with assms(3) have "res \<noteq> Timeout" by auto
  then show ?thesis
    using watch_turn(1,2) [OF assms(1) [unfolded Turn] assms(2)]
    by (simp add: turn_fires_def turn_activity_def)
qed

lemma in_burst_runs:
  assumes "pipe_runs cfg codec src p turns p'" and "\<forall>a \<in> set turns. \<not> timeout_turn a" and "in_burst n l p"
  shows "in_burst n l p'"
  using assms(1,3)
proof (rule runs_invariant [where P = "in_burst n l"])
  fix p p' :: "'a watch_state \<times> 'b live" and a
  assume a: "a \<in> set turns" and step: "pipe_step cfg codec src p a p'" and burst: "in_burst n l p"
  obtain st l' where p: "p = (st, l')" by fastforce
  from step [unfolded p] obtain st' where st': "watch_step cfg st a st'" "p' = after_turn codec src st st' l'"
    by (auto elim: pipe_stepE)
  have rec: "recent n st" "activity st \<noteq> None" "l' = l" using burst p by (simp_all add: in_burst_def)
  then have "clock_ok st" by (simp add: recent_def)
  from no_timeout_turn [OF st'(1) this] a assms(2) have "sent st' = sent st" "activity st' \<noteq> None"
    using rec(2) by auto
  with st' rec recent_step [OF st'(1) rec(1)] show "in_burst n l p'"
    by (simp add: in_burst_def after_turn_quiet)
qed

lemma burst_starts:
  assumes "pipe_step cfg codec src (st, l) (Turn start now (Message e) others) p" and "clock_ok st"
    and "is_relevant_event (wc_specs cfg) e"
  shows "in_burst now l p"
proof -
  from assms(1) obtain st' where st': "watch_step cfg st (Turn start now (Message e) others) st'"
    "p = after_turn codec src st st' l" by (auto elim: pipe_stepE)
  note turn = watch_turn [OF st'(1) assms(2)]
  have "sent st' = sent st" "activity st' = Some now" "clock st' = now"
    using turn(1-3) assms(3) by (simp_all add: turn_fires_def turn_activity_def)
  with st'(2) show ?thesis by (simp add: in_burst_def after_turn_quiet recent_def clock_ok_def)
qed

lemma burst_ends:
  assumes "watch_step cfg st (Turn start now Timeout others) st'" and "recent n st" and "activity st \<noteq> None"
    and "attached st' = attached st"
  shows "n + wc_debounce cfg \<le> now \<and> activity st' = None \<and>
    sent st' = sent st @ fire_reload (wc_reload_tx cfg) (wc_on_reload cfg)"
proof -
  from assms(3) obtain t where t: "activity st = Some t" by blast
  with assms(2) have ok: "clock_ok st" and "n \<le> t" by (simp_all add: recent_def)
  note turn = watch_turn [OF assms(1) ok]
  have "t \<le> start" using ok t turn(4) by (simp add: clock_ok_def)
  with turn(6) t have due: "t + wc_debounce cfg \<le> now"
    by (simp add: recv_wait_def Let_def split: if_splits)
  moreover have "turn_activity cfg now Timeout st st' = Some t" using t assms(4) by (simp add: turn_activity_def)
  ultimately have "turn_fires cfg now Timeout st st'" by (simp add: turn_fires_def)
  with turn(1,2) due \<open>n \<le> t\<close> show ?thesis by simp
qed

section \<open>Properties\<close>

text \<open>
  C16: An edit reaches the snapshot whole. Take the callback of a watcher that reloads a JSON file. After an
  event that concerns the file, and during any burst of further events and edits, nothing is loaded: the
  snapshot stays what it was, so no half-written state is seen. When the receive first times out, and no
  spec attaches in that turn, the debounce time has passed since the event, and the snapshot becomes the
  decoded content the file then has; if that does not decode, the old snapshot stays; the file system is
  left as it is either way.
\<close>

theorem edit_reaches_snapshot:
  assumes "spawn_callback inotify None specs debounce = Inr cfg"
    and "pipe_runs cfg codec src (watch_start cfg s w n, l0) before (st0, l1)"
    and "pipe_runs cfg codec src (st0, l1) (Turn start1 now1 (Message e) others1 # burst) (st, l)"
    and "is_relevant_event specs e" and "\<forall>a \<in> set burst. \<not> timeout_turn a"
    and "watch_step cfg st (Turn start now Timeout others) st'" and "attached st' = attached st"
    and "lookup (fs st') (key (jf_path src)) = Some f" and "content f = Regular body" and "utf8_valid body"
    and "faults (fs st') SysOpenRead (key (jf_path src)) = None"
  shows "l = l1 \<and> now1 + debounce \<le> now \<and>
    pipe_step cfg codec src (st, l) (Turn start now Timeout others)
      (st', case from_str codec body of Inl _ \<Rightarrow> l | Inr v \<Rightarrow> replace v l)"
proof -
  have cfg: "wc_specs cfg = specs" "wc_debounce cfg = debounce" "\<not> wc_reload_tx cfg" "wc_on_reload cfg"
    using assms(1) by (auto simp: spawn_callback_def)
  from assms(3) obtain p where event: "pipe_step cfg codec src (st0, l1) (Turn start1 now1 (Message e) others1) p"
    and burst: "pipe_runs cfg codec src p burst (st, l)"
    by (auto simp: runs_Cons)
  have "clock_ok st0" using pipe_clock_ok [OF assms(2)] clock_ok_start [of cfg s w n] by simp
  from burst_starts [OF event this] assms(4) cfg(1) have "in_burst now1 l1 p" by simp
  from in_burst_runs [OF burst assms(5) this] have rec: "recent now1 st" "activity st \<noteq> None" "l = l1"
    by (simp_all add: in_burst_def)
  note ends = burst_ends [OF assms(6) rec(1,2) assms(7)]
  have "read_to_string (jf_path src) (fs st') = (Inr body, fs st')"
    using assms(8-11) by (intro read_regular) simp_all
  then have "snd (try_reload (load codec src) (fs st', l)) =
      (fs st', case from_str codec body of Inl _ \<Rightarrow> l | Inr v \<Rightarrow> replace v l)"
    by (simp add: try_reload_def load_def split: sum.split)
  moreover have "drop (length (sent st)) (sent st') = [Callback]"
    using ends cfg(3,4) by (simp add: fire_reload_def)
  ultimately have "after_turn codec src st st' l = (st', case from_str codec body of Inl _ \<Rightarrow> l | Inr v \<Rightarrow> replace v l)"
    by (simp add: after_turn_def run_notification_def)
  with pipe [OF assms(6), of codec src l] ends rec(3) cfg(2) show ?thesis by simp
qed

text \<open>The witness: the file is written at time 2, and again at time 7, just before the receive times out.\<close>

definition net_callback :: "(path \<times> bool) list watch_config" where
  "net_callback =
     \<lparr>wc_inotify = recorder, wc_specs = [watch_file ''/etc/net.json''], wc_debounce = 5,
      wc_reload_tx = False, wc_on_reload = True\<rparr>"

definition net_write :: "string \<Rightarrow> sys \<Rightarrow> sys" where
  "net_write body s = set_node (key ''/etc/net.json'') (Some \<lparr>content = Regular body, mode = 420\<rparr>) s"

abbreviation "cb0 \<equiv> watch_start net_callback net_sys [] 0"
abbreviation "cb1 \<equiv> cb0\<lparr>fs := net_write ''x1'' net_sys, clock := 2, activity := Some 2\<rparr>"
abbreviation "cb2 \<equiv> cb0\<lparr>fs := net_write ''x2.'' (net_write ''x1'' net_sys), clock := 7, sent := [Callback]\<rparr>"

lemma net_callback_simps [simp]:
  "wc_inotify net_callback = recorder" "wc_specs net_callback = [watch_file ''/etc/net.json'']"
  "wc_debounce net_callback = 5" "\<not> wc_reload_tx net_callback" "wc_on_reload net_callback"
  by (simp_all add: net_callback_def)

lemmas cb0_eq = net_start [OF net_callback_simps(1,2)]

lemma cb1_step: "watch_step net_callback cb0 (Turn 0 2 (Message net_event) (net_write ''x1'')) cb1"
proof -
  have "watch_branch net_callback 2 (Message net_event) (cb0\<lparr>fs := net_write ''x1'' (fs cb0), clock := 2\<rparr>) = cb1"
    using net_paths(4) by (simp add: watch_branch_def attach_now_all cb0_eq Let_def)
  with watch_step.turn [of cb0 0 2 "Message net_event" net_callback "net_write ''x1''"] show ?thesis
    by (simp add: cb0_eq)
qed

lemma cb2_step: "watch_step net_callback cb1 (Turn 2 7 Timeout (net_write ''x2.'')) cb2"
proof -
  have "watch_branch net_callback 7 Timeout (cb1\<lparr>fs := net_write ''x2.'' (fs cb1), clock := 7\<rparr>) = cb2"
    by (simp add: watch_branch_def attach_now_all cb0_eq Let_def fire_reload_def)
  with watch_step.turn [of cb1 2 7 Timeout net_callback "net_write ''x2.''"] show ?thesis
    by (simp add: cb0_eq recv_wait_def)
qed

theorem edit_reaches_snapshot_witness:
  "\<exists>p. pipe_step net_callback line_codec (json_file_new ''/etc/net.json'') (cb1, live_new ''old'')
     (Turn 2 7 Timeout (net_write ''x2.'')) p \<and> snapshot (snd p) = ''x2''"
proof -
  let ?src = "json_file_new ''/etc/net.json''"
  have "after_turn line_codec ?src cb0 cb1 (live_new ''old'') = (cb1, live_new ''old'')"
    by (rule after_turn_quiet) (simp add: cb0_eq)
  with pipe [OF cb1_step, of line_codec ?src "live_new ''old''"]
  have run: "pipe_runs net_callback line_codec ?src (cb0, live_new ''old'')
      (Turn 0 2 (Message net_event) (net_write ''x1'') # []) (cb1, live_new ''old'')"
    by (simp add: runs_single)
  have k: "key ''/etc/net.json'' = [RootDir, Normal ''etc'', Normal ''net.json'']" by code_simp
  have "utf8_valid ''x2.''" by code_simp
  moreover have "lookup (fs cb2) (key (jf_path ?src)) = Some \<lparr>content = Regular ''x2.'', mode = 420\<rparr>"
    by (simp add: cb0_eq net_write_def json_file_new_def k)
  moreover have "faults (fs cb2) SysOpenRead (key (jf_path ?src)) = None"
    by (simp add: cb0_eq net_write_def net_sys_def)
  moreover have "spawn_callback recorder None [watch_file ''/etc/net.json''] 5 = Inr net_callback"
    by (simp add: spawn_callback_def net_callback_def)
  ultimately have "pipe_step net_callback line_codec ?src (cb1, live_new ''old'') (Turn 2 7 Timeout (net_write ''x2.''))
      (cb2, case from_str line_codec ''x2.'' of Inl _ \<Rightarrow> live_new ''old'' | Inr v \<Rightarrow> replace v (live_new ''old''))"
    using edit_reaches_snapshot [OF _ halt run net_paths(4) _ cb2_step] by (simp add: cb0_eq)
  then show ?thesis
    by (rule exI [of _ "(cb2, _)", OF conjI]) (simp add: line_codec_def snapshot_def with_live_def replace_def)
qed

lemma pipe_stopped:
  assumes "pipe_runs cfg codec src p turns p'" and "stopped (fst p)"
  shows "stopped (fst p')"
  using assms
proof (rule runs_invariant [where P = "\<lambda>p. stopped (fst p)"])
  fix p a p'
  assume "pipe_step cfg codec src p a p'" and "stopped (fst p)"
  then show "stopped (fst p')"
  proof cases
    case (pipe st st' l)
    from pipe(3) show ?thesis
      by cases (use pipe \<open>stopped (fst p)\<close> in \<open>auto simp: after_turn_fields\<close>)
  qed
qed



end
