(* ===== verification/Test_Dir.thy ===== *)
theory Test_Dir
  imports Well_Formed
begin

text \<open>
  The temporary directory the crate's tests work in: an existing directory in which nothing lies yet, on a
  system without faults.
\<close>

definition fresh_dir :: "path \<Rightarrow> sys \<Rightarrow> bool" where
  "fresh_dir dir s \<longleftrightarrow> dir \<noteq> [] \<and> faults s = (\<lambda>_ _. None) \<and> sys_wf s \<and> dir_at (key dir) s \<and>
     (\<forall>name rest. lookup s (key dir @ Normal name # rest) = None)"

lemma key_push: "plain_name name \<Longrightarrow> dir \<noteq> [] \<Longrightarrow> key (push dir name) = key dir @ [Normal name]"
  by (simp add: key_def components_push_plain)

lemma fresh_place:
  assumes "fresh_dir dir s" and "plain_name name"
  shows "lookup s (key (push dir name)) = None" and "dir_at (butlast (key (push dir name))) s"
    and "faults s = (\<lambda>_ _. None)" and "sys_wf s" and "push dir name \<noteq> []"
  using assms key_push [of name dir] by (auto simp: fresh_dir_def plain_name_def push_def)

lemma write_free:
  assumes "faults s = (\<lambda>_ _. None)" and "lookup s (key p) = None" and "dir_at (butlast (key p)) s"
  shows "\<exists>t n. write_file p body s = (Inr (), t) \<and> lookup t (key p) = Some n \<and> content n = Regular body \<and>
    faults t = (\<lambda>_ _. None)"
proof -
  have root: "key p \<noteq> []" "key p \<noteq> [RootDir]" using assms(2) by (auto simp: lookup_def split: if_splits)
  have "parent_error (key p) s = None" using assms(3) by (auto simp: dir_at_def parent_error_None)
  with assms root show ?thesis
    by (simp add: write_file_def open_truncated_def try_bind_def Let_def)
qed

lemma write_and_read:
  assumes "fresh_dir dir s" and "plain_name name" and "utf8_valid body"
  shows "\<exists>t. write_file (push dir name) body s = (Inr (), t) \<and> read_to_string (push dir name) t = (Inr body, t)"
proof -
  from write_free [OF fresh_place(3,1,2) [OF assms(1,2)]] obtain t n where
    t: "write_file (push dir name) body s = (Inr (), t)" "lookup t (key (push dir name)) = Some n"
    "content n = Regular body" "faults t = (\<lambda>_ _. None)" by blast
  with read_regular [of t "push dir name" n body] assms(3) show ?thesis by simp
qed

text \<open>Making a directory that is there changes nothing.\<close>

lemma parent_there:
  assumes "faults s = (\<lambda>_ _. None)" and "dir_at (butlast (key p)) s" and "parent p = Some q"
  shows "create_dir_all q s = (Inr (), s)"
  using assms(2) create_dir_all_key_existing [OF assms(1)]
  by (auto simp: create_dir_all_def key_parent [OF assms(3)] dir_at_def)

text \<open>A directory that exists in an example system, for the lemmas that need one.\<close>

lemma hub_fresh_dir: "fresh_dir ''/run'' hub_sys"
proof -
  have "key ''/run'' = [RootDir, Normal ''run'']" by code_simp
  moreover have "sys_wf hub_sys"
    by (auto simp: sys_wf_def hub_sys_def lookup_def placed_def parent_error_def socket_ok_def sockets_fresh_def)
  ultimately show ?thesis
    by (auto simp: fresh_dir_def dir_at_def hub_sys_def lookup_def)
qed

end
