(* ===== verification/Ipc_Tests.thy ===== *)
theory Ipc_Tests
  imports Test_Dir Server
begin

text \<open>
  The tests of \<open>ipc/frame.rs\<close>, \<open>ipc/command.rs\<close> and \<open>ipc/server.rs\<close>, replayed on the model: each test function
  is a definition that is true if its assertions hold, and a lemma says that it is. The coders of
  \<open>serde_json\<close>, the values a test builds with them, and the temporary directory are arguments. A server test
  takes the start of the server, the connection and the bytes through the model; the thread of each client
  runs \<open>handle_conn\<close> to its end before the client reads the answer.
\<close>

section \<open>Framing\<close>

record msg =
  msg_v :: u32
  msg_s :: string

definition round_trip_a_frame :: "(msg \<Rightarrow> json_error + byte list) \<Rightarrow> (byte list \<Rightarrow> json_error + msg) \<Rightarrow> bool" where
  "round_trip_a_frame to_vec from_slice =
     (let m = \<lparr>msg_v = 7, msg_s = ''hello''\<rparr> in
      case write_frame vec_write_all vec_flush to_vec m [] of
        (Inl _, _) \<Rightarrow> False
      | (Inr _, buf) \<Rightarrow> fst (read_frame slice_read from_slice buf) = Inr m)"

definition truncated_header_reports_eof :: "(byte list \<Rightarrow> json_error + msg) \<Rightarrow> bool" where
  "truncated_header_reports_eof from_slice =
     (fst (read_frame slice_read from_slice [0, 0]) = Inl (UnexpectedEof 2 4))"

definition truncated_payload_reports_eof :: "(byte list \<Rightarrow> json_error + msg) \<Rightarrow> bool" where
  "truncated_payload_reports_eof from_slice =
     (fst (read_frame slice_read from_slice (u32_to_le_bytes 16 @ map of_char ''only a few'')) = Inl (UnexpectedEof 10 16))"

definition oversized_payload_is_rejected_on_write :: "(byte list \<Rightarrow> json_error + byte list) \<Rightarrow> bool" where
  "oversized_payload_is_rejected_on_write to_vec =
     (let big = replicate (DEFAULT_MAX_FRAME_BYTES + 1) 0 in
      case fst (write_frame vec_write_all vec_flush to_vec big []) of
        Inl (TooLarge _ mx) \<Rightarrow> mx = DEFAULT_MAX_FRAME_BYTES
      | _ \<Rightarrow> False)"

definition oversized_declared_length_is_rejected_on_read :: "(byte list \<Rightarrow> json_error + msg) \<Rightarrow> bool" where
  "oversized_declared_length_is_rejected_on_read from_slice =
     (fst (read_frame slice_read from_slice (u32_to_le_bytes (of_nat DEFAULT_MAX_FRAME_BYTES + 1))) =
        Inl (TooLarge (DEFAULT_MAX_FRAME_BYTES + 1) DEFAULT_MAX_FRAME_BYTES))"

definition empty_payload_round_trips_as_unit ::
  "(unit \<Rightarrow> json_error + byte list) \<Rightarrow> (byte list \<Rightarrow> json_error + unit) \<Rightarrow> bool" where
  "empty_payload_round_trips_as_unit to_vec from_slice =
     (case write_frame vec_write_all vec_flush to_vec () [] of
        (Inl _, _) \<Rightarrow> False
      | (Inr _, buf) \<Rightarrow> fst (read_frame slice_read from_slice buf) = Inr ())"

definition custom_limit_is_honoured :: bool where
  "custom_limit_is_honoured = (fst (read_frame_bytes slice_read 16 (u32_to_le_bytes 32)) = Inl (TooLarge 32 16))"

lemma DEFAULT_small: "DEFAULT_MAX_FRAME_BYTES < 2 ^ 32" "unat (of_nat DEFAULT_MAX_FRAME_BYTES + 1 :: u32) = DEFAULT_MAX_FRAME_BYTES + 1"
  by (simp_all add: DEFAULT_MAX_FRAME_BYTES_def)

lemma slice_frame_error:
  "frame_spec m bs None = Inl e \<Longrightarrow> fst (read_frame_bytes slice_read m bs) = Inl e"
  by (simp add: slice_in.read_frame_bytes_spec)

lemma read_frame_error:
  assumes "frame_spec DEFAULT_MAX_FRAME_BYTES bs None = Inl e"
  shows "fst (read_frame slice_read from_slice bs) = Inl e"
  using slice_frame_error [OF assms]
  by (cases "read_frame_bytes slice_read DEFAULT_MAX_FRAME_BYTES bs")
    (simp add: read_frame_def read_frame_with_limit_def)

lemma vec_frame:
  assumes "to_vec m = Inr p" and "length p \<le> DEFAULT_MAX_FRAME_BYTES"
  shows "write_frame vec_write_all vec_flush to_vec m buf = (Inr (), buf @ frame_bytes p)"
  using assms
  by (simp add: write_frame_def write_frame_with_limit_def write_frame_bytes_def frame_bytes_def Let_def unfold_io
      vec_write_all_def vec_flush_def)

lemma slice_frame:
  assumes "length p \<le> DEFAULT_MAX_FRAME_BYTES" and "from_slice p = Inr m"
  shows "fst (read_frame slice_read from_slice (frame_bytes p @ rest)) = Inr m"
proof -
  have "length p < 2 ^ 32" using assms(1) DEFAULT_small(1) by simp
  then have "fst (read_frame_bytes slice_read DEFAULT_MAX_FRAME_BYTES (frame_bytes p @ rest)) = Inr p"
    using assms(1) frame_spec_of_frame_bytes by (simp add: slice_in.read_frame_bytes_spec)
  with assms(2) show ?thesis
    by (cases "read_frame_bytes slice_read DEFAULT_MAX_FRAME_BYTES (frame_bytes p @ rest)")
      (simp add: read_frame_def read_frame_with_limit_def ok_def)
qed

text \<open>A coder and its decoder on one value, whose text is small enough for a frame.\<close>

definition coded :: "('m \<Rightarrow> json_error + byte list) \<Rightarrow> (byte list \<Rightarrow> json_error + 'm) \<Rightarrow> usize \<Rightarrow> 'm \<Rightarrow> bool" where
  "coded to_vec from_slice m v \<longleftrightarrow> (\<exists>p. to_vec v = Inr p \<and> length p \<le> m \<and> from_slice p = Inr v)"

lemma coded_roundtrip:
  assumes "coded to_vec from_slice DEFAULT_MAX_FRAME_BYTES v"
  shows "\<exists>buf. write_frame vec_write_all vec_flush to_vec v [] = (Inr (), buf) \<and>
    fst (read_frame slice_read from_slice buf) = Inr v"
proof -
  from assms obtain p where p: "to_vec v = Inr p" "length p \<le> DEFAULT_MAX_FRAME_BYTES" "from_slice p = Inr v"
    by (auto simp: coded_def)
  with vec_frame [where to_vec = to_vec and m = v and buf = "[]", OF p(1,2)]
    slice_frame [where from_slice = from_slice and rest = "[]", OF p(2,3)] show ?thesis by simp
qed

lemma round_trip_a_frame_passes:
  assumes "coded to_vec from_slice DEFAULT_MAX_FRAME_BYTES \<lparr>msg_v = 7, msg_s = ''hello''\<rparr>"
  shows "round_trip_a_frame to_vec from_slice"
  using coded_roundtrip [OF assms] by (auto simp: round_trip_a_frame_def Let_def)

lemma empty_payload_round_trips_as_unit_passes:
  assumes "coded to_vec from_slice DEFAULT_MAX_FRAME_BYTES ()"
  shows "empty_payload_round_trips_as_unit to_vec from_slice"
  using coded_roundtrip [OF assms] by (auto simp: empty_payload_round_trips_as_unit_def)

lemma truncated_header_reports_eof_passes: "truncated_header_reports_eof from_slice"
  unfolding truncated_header_reports_eof_def
  by (rule read_frame_error) (simp add: frame_spec_def exact_spec_def)

lemma truncated_payload_reports_eof_passes: "truncated_payload_reports_eof from_slice"
  unfolding truncated_payload_reports_eof_def
  by (rule read_frame_error) (simp add: frame_spec_def exact_spec_def DEFAULT_MAX_FRAME_BYTES_def)

lemma oversized_declared_length_is_rejected_on_read_passes: "oversized_declared_length_is_rejected_on_read from_slice"
  unfolding oversized_declared_length_is_rejected_on_read_def
  using frame_spec_too_large [of DEFAULT_MAX_FRAME_BYTES "of_nat DEFAULT_MAX_FRAME_BYTES + 1" "[]" None]
  by (intro read_frame_error) (simp add: DEFAULT_small(2))

lemma custom_limit_is_honoured_passes: custom_limit_is_honoured
  unfolding custom_limit_is_honoured_def
  using frame_spec_too_large [of 16 32 "[]" None] by (intro slice_frame_error) simp

text \<open>The JSON text of a list of bytes has at least one character for each.\<close>

lemma oversized_payload_is_rejected_on_write_passes:
  assumes "to_vec (replicate (DEFAULT_MAX_FRAME_BYTES + 1) 0) = Inr p" and "DEFAULT_MAX_FRAME_BYTES + 1 \<le> length p"
  shows "oversized_payload_is_rejected_on_write to_vec"
  using assms
  by (simp add: oversized_payload_is_rejected_on_write_def Let_def write_frame_def write_frame_with_limit_def
      write_frame_bytes_def fail_def del: replicate_Suc)

section \<open>The router\<close>

definition Ping :: "(unit, 'v) command" where
  "Ping = \<lparr>cmd_name = ''ping'', cmd_execute = (\<lambda>st body conn. (Inr (), st, conn))\<rparr>"

definition router_rejects_duplicate :: bool where
  "router_rejects_duplicate =
     (case router_add (Ping :: (unit, unit) command) router_new of
        (Inl _, _) \<Rightarrow> False
      | (Inr _, r) \<Rightarrow>
          (case router_add Ping r of
             (res, r') \<Rightarrow> isl res \<and> router_get r' ''ping'' \<noteq> None \<and> router_get r' ''pong'' = None))"

definition type_field :: "'v json_lib \<Rightarrow> 'v \<Rightarrow> 'v \<Rightarrow> bool" where
  "type_field json status_body empty_body =
     (json_type_field json status_body = Some ''status'' \<and> json_type_field json empty_body = None)"

lemma router_rejects_duplicate_passes: router_rejects_duplicate
  by (simp add: router_rejects_duplicate_def router_add_def router_new_def router_get_def Ping_def Let_def)

lemma type_field_passes:
  assumes "json_get json status_body ''type'' = Some v" and "json_as_str json v = Some ''status''"
    and "json_get json empty_body ''type'' = None"
  shows "type_field json status_body empty_body"
  using assms by (simp add: type_field_def json_type_field_def)

section \<open>The server\<close>

definition test_opts :: "path \<Rightarrow> string \<Rightarrow> bind_options" where
  "test_opts dir sock =
     \<lparr>bo_path = push dir sock, bo_mode = 384, bo_chown = None, bo_process_name = ''bigfred-shared-daemon-test''\<rparr>"

definition singleton_refuses_second_bind :: "nix_lib \<Rightarrow> nat \<Rightarrow> path \<Rightarrow> sys \<Rightarrow> bool" where
  "singleton_refuses_second_bind nix pid dir s =
     (let opts = test_opts dir ''live.sock'' in
      case bind nix pid opts s of
        (Inl _, _) \<Rightarrow> False
      | (Inr _, s1) \<Rightarrow>
          (case fst (bind nix pid opts s1) of
             Inl (AlreadyRunning name location p n) \<Rightarrow>
               sublist ''already running'' (bind_error_display (AlreadyRunning name location p n))
           | _ \<Rightarrow> False))"

definition stale_socket_file_is_replaced :: "nix_lib \<Rightarrow> nat \<Rightarrow> path \<Rightarrow> sys \<Rightarrow> bool" where
  "stale_socket_file_is_replaced nix pid dir s =
     (let opts = test_opts dir ''stale.sock'' in
      case bind nix pid opts s of
        (Inl _, _) \<Rightarrow> False
      | (Inr first, s1) \<Rightarrow>
          (case fst (bind nix pid opts (close_listener first s1)) of Inl _ \<Rightarrow> False | Inr _ \<Rightarrow> True))"

lemma test_opts_simps [simp]:
  "bo_path (test_opts dir sock) = push dir sock" "bo_chown (test_opts dir sock) = None"
  by (simp_all add: test_opts_def)

lemma sock_names: "plain_name ''live.sock''" "plain_name ''stale.sock''" "plain_name ''t.sock''" "plain_name ''h.sock''"
  by code_simp+

lemma serving_not_dir: "serving s p = Some i \<Longrightarrow> \<not> dir_at (key p) s"
  by (auto simp: serving_lookup dir_at_def)

lemma bind_fresh:
  assumes "chown_changes_owner_only nix" and "fresh_dir dir s" and "plain_name sock"
  shows "\<exists>l t. bind nix pid (test_opts dir sock) s = (Inr l, t) \<and> serving t (push dir sock) = Some l \<and>
    faults t = (\<lambda>_ _. None) \<and> sockets_fresh t \<and> dir_at (butlast (key (push dir sock))) t"
proof -
  let ?o = "test_opts dir sock"
  note place = fresh_place [OF assms(2,3)]
  have fresh: "sockets_fresh s" using place(4) by (simp add: sys_wf_def)
  have none: "serving s (bo_path ?o) = None" "\<not> dir_at (key (bo_path ?o)) s"
    using place(1) by (simp_all add: serving_def dir_at_def)
  from bind_on_good_place [OF assms(1) place(3) fresh _ _ none(2), of pid] place(2) none(1) obtain l t where
    t: "bind nix pid ?o s = (Inr l, t)" "serving t (push dir sock) = Some l" by auto
  with bind_success_serves_aux [OF assms(1) fresh _ t(1)] bind_ok_environment [OF assms(1) t(1)] place(3)
  show ?thesis by (auto simp: dir_at_def)
qed

lemma singleton_refuses_second_bind_passes:
  assumes "chown_changes_owner_only nix" and "fresh_dir dir s"
  shows "singleton_refuses_second_bind nix pid dir s"
proof -
  let ?o = "test_opts dir ''live.sock''"
  from bind_fresh [OF assms sock_names(1), of pid] obtain l t where
    b: "bind nix pid ?o s = (Inr l, t)" and up: "serving t (bo_path ?o) = Some l" "faults t = (\<lambda>_ _. None)"
      "sockets_fresh t" "dir_at (butlast (key (bo_path ?o))) t" by auto
  from bind_on_good_place [OF assms(1) up(2,3) _ up(4) serving_not_dir [OF up(1)], of pid] up(1) obtain location n where
    again: "bind nix pid ?o t = (Inl (AlreadyRunning (bo_process_name ?o) location (bo_path ?o) n), t)" by auto
  have "sublist x (a @ x @ c)" for a x c :: string by (simp add: sublist_appendI)
  from this [of "''already running''" "bo_process_name ?o @ '' ''" "'' at '' @ location"] b again show ?thesis
    by (simp add: singleton_refuses_second_bind_def Let_def)
qed

lemma stale_socket_file_is_replaced_passes:
  assumes "chown_changes_owner_only nix" and "fresh_dir dir s"
  shows "stale_socket_file_is_replaced nix pid dir s"
proof -
  let ?o = "test_opts dir ''stale.sock''"
  from bind_fresh [OF assms sock_names(2), of pid] obtain l t where
    b: "bind nix pid ?o s = (Inr l, t)" and up: "serving t (bo_path ?o) = Some l" "faults t = (\<lambda>_ _. None)"
      "sockets_fresh t" "dir_at (butlast (key (bo_path ?o))) t" by auto
  let ?t = "close_listener l t"
  have quiet: "faults ?t = (\<lambda>_ _. None)" "sockets_fresh ?t" "dir_at (butlast (key (bo_path ?o))) ?t"
    "\<not> dir_at (key (bo_path ?o)) ?t"
    using up serving_not_dir [OF up(1)] by simp_all (simp_all add: close_listener_def sockets_fresh_def)
  have "serving ?t (bo_path ?o) = None"
    using up(1) by (auto simp: serving_def close_listener_def lookup_def split: option.splits content.splits if_splits)
  with bind_on_good_place [OF assms(1) quiet(1,2) _ quiet(3,4), of pid] obtain l' t' where
    "bind nix pid ?o ?t = (Inr l', t')" by auto
  with b show ?thesis by (simp add: stale_socket_file_is_replaced_def Let_def)
qed

text \<open>
  A client of a test: it connects, writes one frame, and the server handles the connection. The outcome is
  what the client has been sent and the shared state.
\<close>

definition client_exchange ::
  "nix_lib \<Rightarrow> 'v json_lib \<Rightarrow> 'v json_out \<Rightarrow> ('s, 'v) server \<Rightarrow> 'v \<Rightarrow> sys \<Rightarrow> 's \<Rightarrow> (byte list \<times> 's) option" where
  "client_exchange nix json out srv req s st =
     (case connect (sv_path srv) s of
        (Inl _, _) \<Rightarrow> None
      | (Inr stream, _) \<Rightarrow>
          (case write_frame vec_write_all vec_flush (json_to_vec out) req [] of
             (Inl _, _) \<Rightarrow> None
           | (Inr _, bytes) \<Rightarrow>
               map_option (\<lambda>(st', conn). (outgoing (conn_stream conn), st'))
                 (handle_conn nix json (stream\<lparr>incoming := [Data bytes]\<rparr>) st (sv_router srv) (sv_hooks srv)
                   (sv_auth srv) (sv_session srv) (sv_max_frame srv))))"

definition oneshot_echo_and_unknown ::
  "nix_lib \<Rightarrow> nat \<Rightarrow> 'v json_lib \<Rightarrow> 'v json_out \<Rightarrow> 'v \<Rightarrow> 'v \<Rightarrow> 'v \<Rightarrow> path \<Rightarrow> sys \<Rightarrow> bool" where
  "oneshot_echo_and_unknown nix pid json out echo_req nope_req one dir s =
     (let policy = \<lparr>ap_auth = AuthNone, ap_session = OneShot, ap_max_clients = None, ap_max_frame = 64 * 1024\<rparr> in
      case serve_background nix pid None (test_opts dir ''t.sock'') policy (echo_router out) (Hooks out) s of
        (Inl _, _) \<Rightarrow> False
      | (Inr srv, s1) \<Rightarrow>
          (case client_exchange nix json out srv echo_req s1 0 of
             None \<Rightarrow> False
           | Some (answer, st1) \<Rightarrow>
               (case fst (read_frame slice_read (json_from_slice json) answer) of
                  Inl _ \<Rightarrow> False
                | Inr back \<Rightarrow> json_get json back ''n'' = Some one) \<and>
               (case client_exchange nix json out srv nope_req s1 st1 of
                  None \<Rightarrow> False
                | Some (answer, st2) \<Rightarrow>
                    (case fst (read_frame slice_read (json_from_slice json) answer) of
                       Inl _ \<Rightarrow> False
                     | Inr back \<Rightarrow> Option.bind (json_get json back ''error'') (json_as_str json) = Some ''unknown:nope'') \<and>
                    st2 = 1)))"

definition persistent_hangup_closes_without_error_frame ::
  "nix_lib \<Rightarrow> nat \<Rightarrow> 'v json_lib \<Rightarrow> 'v json_out \<Rightarrow> 'v \<Rightarrow> 'v \<Rightarrow> path \<Rightarrow> sys \<Rightarrow> bool" where
  "persistent_hangup_closes_without_error_frame nix pid json out done_req true_value dir s =
     (let policy = \<lparr>ap_auth = AuthNone, ap_session = Persistent, ap_max_clients = None, ap_max_frame = 64 * 1024\<rparr> in
      case serve_background nix pid None (test_opts dir ''h.sock'') policy (hangup_router out) (Hooks out) s of
        (Inl _, _) \<Rightarrow> False
      | (Inr srv, s1) \<Rightarrow>
          (case client_exchange nix json out srv done_req s1 0 of
             None \<Rightarrow> False
           | Some (answer, _) \<Rightarrow>
               (case read_frame slice_read (json_from_slice json) answer of
                  (Inl _, _) \<Rightarrow> False
                | (Inr back, rest) \<Rightarrow>
                    json_get json back ''ok'' = Some true_value \<and>
                    (case fst (read_frame slice_read (json_from_slice json) rest) of
                       Inl (UnexpectedEof _ _) \<Rightarrow> True
                     | _ \<Rightarrow> False))))"

lemma serve_background_fresh:
  assumes "chown_changes_owner_only nix" and "fresh_dir dir s" and "plain_name sock"
  shows "\<exists>l t. serve_background nix pid None (test_opts dir sock) policy router hooks s =
      (Inr (from_listener l (push dir sock) policy router hooks), t) \<and>
    connect (push dir sock) t = (Inr \<lparr>stream_id = l, incoming = [], outgoing = [], out_room = None\<rparr>, t)"
proof -
  from bind_fresh [OF assms, of pid] obtain l t where
    b: "bind nix pid (test_opts dir sock) s = (Inr l, t)" "serving t (push dir sock) = Some l" "faults t = (\<lambda>_ _. None)"
    by blast
  with connect_serving [OF b(2)] show ?thesis
    by (auto simp: serve_background_def server_bind_def server_serve_background_def from_listener_def unfold_io)
qed

text \<open>What the client has written is one frame, and it is all the server reads.\<close>

lemma sent_frame:
  assumes "coded (json_to_vec out) (json_from_slice json) (64 * 1024) v"
  obtains p where "write_frame vec_write_all vec_flush (json_to_vec out) v [] = (Inr (), frame_bytes p)"
    "json_to_vec out v = Inr p" "length p \<le> 64 * 1024" "length p < 2 ^ 32" "json_from_slice json p = Inr v"
proof -
  from assms obtain p where p: "json_to_vec out v = Inr p" "length p \<le> 64 * 1024" "json_from_slice json p = Inr v"
    by (auto simp: coded_def)
  moreover from p have "length p \<le> DEFAULT_MAX_FRAME_BYTES" "length p < 2 ^ 32"
    by (simp_all add: DEFAULT_MAX_FRAME_BYTES_def)
  ultimately show thesis
    using that [of p] vec_frame [where to_vec = "json_to_vec out" and m = v and buf = "[]", OF p(1)] by simp
qed

text \<open>A client reads back what was coded for it.\<close>

lemma answer_read:
  assumes "coded (json_to_vec out) (json_from_slice json) (64 * 1024) v"
  shows "\<exists>bs. reply_outcome (json_to_vec out) (64 * 1024) v = Inr bs \<and>
    read_frame slice_read (json_from_slice json) bs = (Inr v, [])"
proof -
  from sent_frame [OF assms] obtain p where p: "json_to_vec out v = Inr p" "length p \<le> 64 * 1024" "length p < 2 ^ 32"
    "json_from_slice json p = Inr v" by blast
  have "length p \<le> DEFAULT_MAX_FRAME_BYTES" using p(2) by (simp add: DEFAULT_MAX_FRAME_BYTES_def)
  with slice_in.read_frame_bytes_after_frame [of "frame_bytes p" p "[]" DEFAULT_MAX_FRAME_BYTES] p(3) have
    "read_frame_bytes slice_read DEFAULT_MAX_FRAME_BYTES (frame_bytes p) = (Inr p, [])" by simp
  with p show ?thesis
    by (simp add: reply_outcome_def read_frame_def read_frame_with_limit_def ok_def)
qed

lemma echo_exchange:
  fixes srv :: "(atomic_usize, 'v) server"
  assumes "coded (json_to_vec out) (json_from_slice json) (64 * 1024) v"
    and "connect (sv_path srv) s = (Inr \<lparr>stream_id = l, incoming = [], outgoing = [], out_room = None\<rparr>, s)"
    and "sv_router srv = echo_router out" and "sv_hooks srv = Hooks out" and "sv_auth srv = AuthNone"
    and "sv_session srv = OneShot" and "sv_max_frame srv = 64 * 1024"
  shows "client_exchange nix json out srv v s st = Some (echo_answer json out (64 * 1024) v st, echo_step json v st)"
proof -
  from sent_frame [OF assms(1)] obtain p where
    p: "write_frame vec_write_all vec_flush (json_to_vec out) v [] = (Inr (), frame_bytes p)"
      "length p \<le> 64 * 1024" "length p < 2 ^ 32" "json_from_slice json p = Inr v" by blast
  let ?stream = "\<lparr>stream_id = l, incoming = [Data (frame_bytes p)], outgoing = [], out_room = None\<rparr>"
  let ?conn = "conn_new ?stream (64 * 1024)"
  have "pending (conn_stream ?conn) = frame_bytes p @ []" by simp
  from echo.dispatch_frame [OF this, of json "64 * 1024" v out st] p(2-4) obtain cs where
    "dispatch_one json (echo_router out) (Hooks out) st ?conn =
      (Inr (), echo_step json v st, set_input cs (push_out (echo_answer json out (64 * 1024) v st) ?conn))"
    by (auto simp: echo.request_def)
  with p(1) assms show ?thesis
    by (simp add: client_exchange_def handle_conn_def Let_def one_shot_def)
qed

lemma oneshot_echo_and_unknown_passes:
  fixes json :: "'v json_lib" and out :: "'v json_out"
  defines "error_value \<equiv> json_text_object out ''error'' ''unknown:nope''"
  assumes "chown_changes_owner_only nix" and "fresh_dir dir s"
    and "\<And>v. v \<in> {echo_req, nope_req, error_value} \<Longrightarrow> coded (json_to_vec out) (json_from_slice json) (64 * 1024) v"
    and "json_type_field json echo_req = Some ''echo''" and "json_get json echo_req ''n'' = Some one"
    and "json_type_field json nope_req = Some ''nope''"
    and "Option.bind (json_get json error_value ''error'') (json_as_str json) = Some ''unknown:nope''"
  shows "oneshot_echo_and_unknown nix pid json out echo_req nope_req one dir s"
proof -
  let ?policy = "\<lparr>ap_auth = AuthNone, ap_session = OneShot, ap_max_clients = None, ap_max_frame = 64 * 1024\<rparr>"
  from serve_background_fresh [OF assms(2,3) sock_names(3), of pid ?policy "echo_router out" "Hooks out"] obtain l t where
    srv: "serve_background nix pid None (test_opts dir ''t.sock'') ?policy (echo_router out) (Hooks out) s =
      (Inr (from_listener l (push dir ''t.sock'') ?policy (echo_router out) (Hooks out)), t)"
    and up: "connect (push dir ''t.sock'') t = (Inr \<lparr>stream_id = l, incoming = [], outgoing = [], out_room = None\<rparr>, t)"
    by blast
  let ?srv = "from_listener l (push dir ''t.sock'') ?policy (echo_router out) (Hooks out)"
  have exchange: "client_exchange nix json out ?srv v t st = Some (echo_answer json out (64 * 1024) v st, echo_step json v st)"
    if "v \<in> {echo_req, nope_req, error_value}" for v st
    by (rule echo_exchange [OF assms(4) [OF that], where l = l]) (simp_all add: from_listener_def up)
  from answer_read [OF assms(4), of echo_req] obtain bs1 where
    bs1: "reply_outcome (json_to_vec out) (64 * 1024) echo_req = Inr bs1"
      "read_frame slice_read (json_from_slice json) bs1 = (Inr echo_req, [])" by auto
  from answer_read [OF assms(4), of error_value] obtain bs2 where
    bs2: "reply_outcome (json_to_vec out) (64 * 1024) error_value = Inr bs2"
      "read_frame slice_read (json_from_slice json) bs2 = (Inr error_value, [])" by auto
  have answers: "echo_answer json out (64 * 1024) echo_req st = bs1" "echo_answer json out (64 * 1024) nope_req st = bs2" for st
    using assms(5,7) bs1(1) bs2(1) by (simp_all add: echo_answer_def error_frame_def error_value_def)
  show ?thesis
    using srv bs1(2) bs2(2) assms(5-8)
    by (simp add: oneshot_echo_and_unknown_def Let_def exchange [simplified] answers [simplified] echo_step_def)
qed

lemma persistent_hangup_closes_without_error_frame_passes:
  fixes json :: "'v json_lib" and out :: "'v json_out"
  defines "ok_value \<equiv> json_flag_object out ''ok'' True"
  assumes "chown_changes_owner_only nix" and "fresh_dir dir s"
    and "\<And>v. v \<in> {done_req, ok_value} \<Longrightarrow> coded (json_to_vec out) (json_from_slice json) (64 * 1024) v"
    and "json_type_field json done_req = Some ''done''" and "json_get json ok_value ''ok'' = Some true_value"
  shows "persistent_hangup_closes_without_error_frame nix pid json out done_req true_value dir s"
proof -
  let ?policy = "\<lparr>ap_auth = AuthNone, ap_session = Persistent, ap_max_clients = None, ap_max_frame = 64 * 1024\<rparr>"
  from serve_background_fresh [OF assms(2,3) sock_names(4), of pid ?policy "hangup_router out" "Hooks out"] obtain l t where
    srv: "serve_background nix pid None (test_opts dir ''h.sock'') ?policy (hangup_router out) (Hooks out) s =
      (Inr (from_listener l (push dir ''h.sock'') ?policy (hangup_router out) (Hooks out)), t)"
    and up: "connect (push dir ''h.sock'') t = (Inr \<lparr>stream_id = l, incoming = [], outgoing = [], out_room = None\<rparr>, t)"
    by blast
  let ?srv = "from_listener l (push dir ''h.sock'') ?policy (hangup_router out) (Hooks out)"
  from sent_frame [OF assms(4), of done_req] obtain p where
    p: "write_frame vec_write_all vec_flush (json_to_vec out) done_req [] = (Inr (), frame_bytes p)"
      "length p \<le> 64 * 1024" "length p < 2 ^ 32" "json_from_slice json p = Inr done_req" by auto
  let ?conn = "conn_new \<lparr>stream_id = l, incoming = [Data (frame_bytes p)], outgoing = [], out_room = None\<rparr> (64 * 1024)"
  have "pending (conn_stream ?conn) = frame_bytes p @ []" by simp
  from read_value_frame [where json = json, OF this _ p(3,4)] p(2) obtain cs where
    r: "read_value json ?conn = (Inr done_req, set_input cs ?conn)" by (auto simp: set_input_def)
  from answer_read [OF assms(4), of ok_value] obtain bs where
    bs: "reply_outcome (json_to_vec out) (64 * 1024) ok_value = Inr bs"
      "read_frame slice_read (json_from_slice json) bs = (Inr ok_value, [])" by auto
  have "dispatch_one json (hangup_router out) (Hooks out) st ?conn =
      (Inl (UnexpectedEof 0 0), st, push_out bs (set_input cs ?conn))" for st
    using r assms(5) bs(1)
    by (simp add: dispatch_one_def dispatch_body_def hangup_router_def router_get_single HangupCmd_def
        hangup_execute_def reply_eq ok_value_def)
  then have "client_exchange nix json out ?srv done_req t st = Some (bs, st)" for st
    using p(1) up
    by (simp add: client_exchange_def from_listener_def handle_conn_def Let_def session_loop_step end_session_def
        session_over_def)
  moreover have "fst (read_frame slice_read (json_from_slice json) []) = Inl (UnexpectedEof 0 4)"
    by (rule read_frame_error) (simp add: frame_spec_def exact_spec_def)
  ultimately show ?thesis
    using srv bs(2) assms(6)
    by (simp add: persistent_hangup_closes_without_error_frame_def Let_def)
qed

end
