(* ===== verification/Config_Tests.thy ===== *)
theory Config_Tests
  imports Test_Dir Datadir Reload
begin

text \<open>
  The tests of \<open>datadir.rs\<close>, \<open>config/mod.rs\<close>, \<open>config/json.rs\<close> and \<open>config/watch.rs\<close>, replayed on the model: each
  test function is a definition that is true if its assertions hold, on the operations of the model, and
  a lemma says that it is. What a test takes from its environment (the process environment, the temporary
  directory, the JSON coder) is an argument. Paths are compared as Rust compares them, by their components.
\<close>

section \<open>The data directory\<close>

definition same_path :: "path \<Rightarrow> path \<Rightarrow> bool" where
  "same_path p q \<longleftrightarrow> components p = components q"

definition with_clean_env :: "environment \<Rightarrow> (environment \<Rightarrow> bool) \<Rightarrow> bool" where
  "with_clean_env env f = f (env(ENV_DATA_DIR := None, ENV_BIGFRED_DATA_DIR := None))"

text \<open>\<open>std::env::set_var\<close> followed by the rest of a test; a panic fails it.\<close>

definition after_set :: "panic + environment \<Rightarrow> (environment \<Rightarrow> bool) \<Rightarrow> bool" where
  "after_set r f = (case r of Inl _ \<Rightarrow> False | Inr env \<Rightarrow> f env)"

definition root_defaults_to_data :: "environment \<Rightarrow> bool" where
  "root_defaults_to_data env = with_clean_env env (\<lambda>env. same_path (root env) DEFAULT_ROOT)"

definition data_dir_absolute_wins :: "path \<Rightarrow> nat \<Rightarrow> environment \<Rightarrow> bool" where
  "data_dir_absolute_wins tmp pid env = with_clean_env env (\<lambda>env.
     let dir = push tmp (''bigfred-shared-daemon-dd-'' @ show_nat pid) in
     after_set (set_var ENV_DATA_DIR dir env) (\<lambda>env.
       same_path (root env) dir \<and>
       same_path (path_under_root [''etc'', ''micronet.json''] env) (push dir ''etc/micronet.json'')))"

definition relative_data_dir_ignored :: "environment \<Rightarrow> bool" where
  "relative_data_dir_ignored env = with_clean_env env (\<lambda>env.
     after_set (set_var ENV_DATA_DIR ''relative/path'' env) (\<lambda>env. same_path (root env) DEFAULT_ROOT))"

definition empty_data_dir_ignored :: "environment \<Rightarrow> bool" where
  "empty_data_dir_ignored env = with_clean_env env (\<lambda>env.
     after_set (set_var ENV_DATA_DIR [] env) (\<lambda>env. same_path (root env) DEFAULT_ROOT))"

definition bigfred_env_wins_over_data_dir :: "environment \<Rightarrow> bool" where
  "bigfred_env_wins_over_data_dir env = with_clean_env env (\<lambda>env.
     after_set (set_var ENV_DATA_DIR ''/data-from-data'' env) (\<lambda>env.
     after_set (set_var ENV_BIGFRED_DATA_DIR ''/data-from-bf'' env) (\<lambda>env.
       same_path (as_path (resolve BigfredThenDataDir AbsoluteOnly env)) ''/data-from-bf'')))"

definition accept_any_keeps_relative :: "environment \<Rightarrow> bool" where
  "accept_any_keeps_relative env = with_clean_env env (\<lambda>env.
     after_set (set_var ENV_BIGFRED_DATA_DIR ''rel'' env) (\<lambda>env.
       same_path (as_path (resolve BigfredThenDataDir AcceptAny env)) ''rel''))"

definition identity_helpers :: bool where
  "identity_helpers =
     (let d = from_path ''/data'' in
      same_path (etc_file d ''micronet'' ''json'') ''/data/etc/micronet.json'' \<and>
      same_path (etc_dir d ''microwaf'') ''/data/etc/microwaf'' \<and>
      same_path (run_socket d ''micronet'') ''/data/run/micronet.sock'' \<and>
      same_path (run_nested_socket d ''microwaf'') ''/data/run/microwaf/microwaf.sock'')"

definition set_root_absolute_only :: "path \<Rightarrow> nat \<Rightarrow> environment \<Rightarrow> bool" where
  "set_root_absolute_only tmp pid env = with_clean_env env (\<lambda>env.
     after_set (set_root ''relative'' env) (\<lambda>env.
       same_path (root env) DEFAULT_ROOT \<and>
       (let dir = push tmp (''bigfred-shared-daemon-set-'' @ show_nat pid) in
        after_set (set_root dir env) (\<lambda>env. same_path (root env) dir))))"

lemma with_clean_env_simps [simp]:
  "with_clean_env env f = f (env(ENV_DATA_DIR := None, ENV_BIGFRED_DATA_DIR := None))"
  by (simp add: with_clean_env_def)

lemma root_of:
  "root env = (case env ENV_DATA_DIR of Some p \<Rightarrow> if is_absolute p then p else DEFAULT_ROOT | None \<Rightarrow> DEFAULT_ROOT)"
  by (auto simp: root_def as_path_def resolve_def resolve_root_def from_env_def split: option.split)

lemma set_var_ok: "\<forall>c \<in> set v. \<not> is_nul c \<Longrightarrow> after_set (set_var name v env) f = f (env(name \<mapsto> v))"
  by (simp add: after_set_def set_var_def)

lemma set_show_nat: "c \<in> set (show_nat n) \<Longrightarrow> \<exists>d < 10. c = digit_char d"
proof (induction n arbitrary: c rule: less_induct)
  case (less n)
  show ?case
  proof (cases "n < 10")
    case True
    with less.prems show ?thesis by (subst (asm) show_nat.simps) auto
  next
    case False
    with less.prems have "c \<in> set (show_nat (n div 10)) \<or> c = digit_char (n mod 10)"
      by (subst (asm) show_nat.simps) auto
    with less.IH [of "n div 10" c] False show ?thesis by (metis div_less_dividend mod_less_divisor
        not_less zero_less_numeral one_less_numeral_iff semiring_norm(76) less_le_trans)
  qed
qed

lemma digits_plain: "c \<in> set (show_nat n) \<Longrightarrow> \<not> is_nul c \<and> \<not> is_sep c"
proof -
  have "\<forall>d < 10. \<not> is_nul (digit_char d) \<and> \<not> is_sep (digit_char d)"
    by (simp add: All_less_Suc numeral_eq_Suc) code_simp
  then show "c \<in> set (show_nat n) \<Longrightarrow> \<not> is_nul c \<and> \<not> is_sep c" using set_show_nat by blast
qed

text \<open>A directory under an absolute path.\<close>

lemma temp_path:
  assumes "is_absolute tmp" and "\<forall>c \<in> set tmp. \<not> is_nul c" and "\<forall>c \<in> set name. \<not> is_nul c \<and> \<not> is_sep c" and "name \<noteq> []"
  shows "is_absolute (push tmp name)" and "\<forall>c \<in> set (push tmp name). \<not> is_nul c"
proof -
  have "\<not> is_absolute name" using assms(3) by (cases name) (auto simp: is_absolute_def)
  moreover have "tmp \<noteq> []" using assms(1) by auto
  ultimately show "is_absolute (push tmp name)"
    using assms(1) by (auto simp: push_def is_absolute_append)
  show "\<forall>c \<in> set (push tmp name). \<not> is_nul c"
    using assms(2,3) by (auto simp: push_def is_nul_def split: if_splits)
qed

lemma root_defaults_to_data_passes: "root_defaults_to_data env"
  by (simp add: root_defaults_to_data_def root_of same_path_def)

lemma relative_data_dir_ignored_passes: "relative_data_dir_ignored env"
proof -
  have "\<forall>c \<in> set ''relative/path''. \<not> is_nul c" "\<not> is_absolute ''relative/path''" by code_simp+
  then show ?thesis by (simp add: relative_data_dir_ignored_def set_var_ok root_of same_path_def del: list.set)
qed

lemma empty_data_dir_ignored_passes: "empty_data_dir_ignored env"
  by (simp add: empty_data_dir_ignored_def set_var_ok root_of same_path_def)

lemma bigfred_env_wins_over_data_dir_passes: "bigfred_env_wins_over_data_dir env"
proof -
  have "\<forall>c \<in> set ''/data-from-data''. \<not> is_nul c" "\<forall>c \<in> set ''/data-from-bf''. \<not> is_nul c"
    "is_absolute ''/data-from-bf''" by code_simp+
  then show ?thesis
    by (simp add: bigfred_env_wins_over_data_dir_def set_var_ok as_path_def resolve_def resolve_root_def
        from_env_def same_path_def del: list.set)
qed

lemma accept_any_keeps_relative_passes: "accept_any_keeps_relative env"
proof -
  have "\<forall>c \<in> set ''rel''. \<not> is_nul c" "to_str ''rel'' = Some ''rel''" by code_simp+
  then show ?thesis
    by (simp add: accept_any_keeps_relative_def set_var_ok as_path_def resolve_def resolve_root_def
        from_env_def env_var_def same_path_def del: list.set)
qed

lemma identity_helpers_passes: identity_helpers
  by (simp add: identity_helpers_def same_path_def etc_file_def etc_dir_def run_socket_def run_nested_socket_def
      join_def from_path_def push_def is_absolute_def is_sep_def)

lemma data_dir_absolute_wins_passes:
  assumes "is_absolute tmp" and "\<forall>c \<in> set tmp. \<not> is_nul c"
  shows "data_dir_absolute_wins tmp pid env"
proof -
  let ?name = "''bigfred-shared-daemon-dd-'' @ show_nat pid"
  have "\<forall>c \<in> set ''bigfred-shared-daemon-dd-''. \<not> is_nul c \<and> \<not> is_sep c" by code_simp
  then have "\<forall>c \<in> set ?name. \<not> is_nul c \<and> \<not> is_sep c" using digits_plain unfolding set_append by blast
  note dir = temp_path [OF assms this]
  have "push (push d ''etc'') ''micronet.json'' = push d ''etc/micronet.json''" for d
    by (simp add: push_def is_absolute_def is_sep_def)
  with dir show ?thesis
    by (simp add: data_dir_absolute_wins_def Let_def set_var_ok root_of same_path_def path_under_root_def
        join_def from_path_def)
qed

lemma set_root_absolute_only_passes:
  assumes "is_absolute tmp" and "\<forall>c \<in> set tmp. \<not> is_nul c"
  shows "set_root_absolute_only tmp pid env"
proof -
  let ?name = "''bigfred-shared-daemon-set-'' @ show_nat pid"
  have "\<forall>c \<in> set ''bigfred-shared-daemon-set-''. \<not> is_nul c \<and> \<not> is_sep c" by code_simp
  then have "\<forall>c \<in> set ?name. \<not> is_nul c \<and> \<not> is_sep c" using digits_plain unfolding set_append by blast
  note dir = temp_path [OF assms this]
  have "\<not> is_absolute ''relative''" by (simp add: is_absolute_def is_sep_def)
  with dir show ?thesis
    by (simp add: set_root_absolute_only_def Let_def set_root_def set_var_ok root_of same_path_def after_set_def [of "Inr _"])
qed

section \<open>Reloading\<close>

definition boom :: "unit \<Rightarrow> (config_error + nat) \<times> unit" where
  "boom env = (Inl (ConfigOther ''nope''), env)"

text \<open>\<open>Once\<close>: the environment is its flag.\<close>

definition once :: "bool \<Rightarrow> (config_error + nat) \<times> bool" where
  "once flag = (if flag then (Inl (ConfigOther ''second''), True) else (Inr 7, True))"

definition failed_reload_keeps_previous :: bool where
  "failed_reload_keeps_previous =
     (let live = live_new 1 in
      case try_reload boom ((), live) of
        (r1, _, live1) \<Rightarrow>
          isl r1 \<and> snapshot live1 = 1 \<and>
          (case try_reload once (False, live1) of
             (r2, flag, live2) \<Rightarrow>
               r2 = Inr () \<and> snapshot live2 = 7 \<and>
               (case try_reload once (flag, live2) of
                  (r3, _, live3) \<Rightarrow> isl r3 \<and> snapshot live3 = 7)))"

lemma failed_reload_keeps_previous_passes: failed_reload_keeps_previous
  by (simp add: failed_reload_keeps_previous_def Let_def try_reload_def boom_def once_def live_new_def snapshot_def
      with_live_def replace_def)

section \<open>The JSON loader\<close>

record sample =
  host_name :: string
  sample_count :: u32

definition sample_default :: sample where
  "sample_default = \<lparr>host_name = [], sample_count = 0\<rparr>"

definition load_or_create_writes_pretty_json :: "sample config_codec \<Rightarrow> path \<Rightarrow> sys \<Rightarrow> bool" where
  "load_or_create_writes_pretty_json codec dir s =
     (let p = push dir ''sample.json''; src = create_default (json_file_new p) in
      case load codec src s of
        (Inl _, _) \<Rightarrow> False
      | (Inr v, s1) \<Rightarrow>
          v = sample_default \<and>
          (case read_to_string p s1 of
             (Inl _, _) \<Rightarrow> False
           | (Inr body, _) \<Rightarrow> sublist ''hostName'' body \<and> suffix [CHR 0x0A] body))"

definition missing_defaults_does_not_write :: "sample config_codec \<Rightarrow> path \<Rightarrow> sys \<Rightarrow> bool" where
  "missing_defaults_does_not_write codec dir s =
     (let p = push dir ''missing.json''; src = missing_defaults (json_file_new p) in
      case load codec src s of
        (Inl _, _) \<Rightarrow> False
      | (Inr v, s1) \<Rightarrow> v = sample_default \<and> \<not> exists_path p s1)"

definition invalid_json_is_error :: "sample config_codec \<Rightarrow> path \<Rightarrow> sys \<Rightarrow> bool" where
  "invalid_json_is_error codec dir s =
     (let p = push dir ''bad.json'' in
      case write_file p ''{'' s of
        (Inl _, _) \<Rightarrow> False
      | (Inr _, s1) \<Rightarrow> (case load codec (json_file_new p) s1 of (Inl _, _) \<Rightarrow> True | (Inr _, _) \<Rightarrow> False))"

definition ok_json :: string where
  \<open>ok_json = ''{"hostName":"hub","count":2}''\<close>

definition existing_file_roundtrip :: "sample config_codec \<Rightarrow> path \<Rightarrow> sys \<Rightarrow> bool" where
  "existing_file_roundtrip codec dir s =
     (let p = push dir ''ok.json'' in
      case write_file p ok_json s of
        (Inl _, _) \<Rightarrow> False
      | (Inr _, s1) \<Rightarrow> fst (load codec (json_file_new p) s1) = Inr \<lparr>host_name = ''hub'', sample_count = 2\<rparr>)"

text \<open>What the tests rely on of \<open>serde_json\<close> and the derived coders of \<open>Sample\<close>.\<close>

definition sample_coder :: "sample config_codec \<Rightarrow> bool" where
  "sample_coder codec \<longleftrightarrow>
     default_value codec = sample_default \<and>
     (\<exists>body. to_string_pretty codec sample_default = Inr body \<and> sublist ''hostName'' body \<and>
        utf8_valid (body @ [CHR 0x0A])) \<and>
     (\<exists>e. from_str codec ''{'' = Inl e) \<and>
     from_str codec ok_json = Inr \<lparr>host_name = ''hub'', sample_count = 2\<rparr>"

lemma test_names:
  "plain_name ''sample.json''" "plain_name ''missing.json''" "plain_name ''bad.json''" "plain_name ''ok.json''"
  "utf8_valid ''{''" "utf8_valid ok_json"
  by code_simp+

lemma loader_simps [simp]:
  "jf_path (create_default (json_file_new p)) = p" "jf_seed (create_default (json_file_new p)) = CreateFile"
  "jf_path (missing_defaults (json_file_new p)) = p" "jf_seed (missing_defaults (json_file_new p)) = DefaultInMemory"
  "jf_path (json_file_new p) = p" "jf_seed (json_file_new p) = ErrorIfMissing"
  by (simp_all add: create_default_def missing_defaults_def json_file_new_def)

lemma missing_defaults_does_not_write_passes:
  assumes "fresh_dir dir s" and "sample_coder codec"
  shows "missing_defaults_does_not_write codec dir s"
  using fresh_place [OF assms(1) test_names(2)] assms(2)
  by (simp add: missing_defaults_does_not_write_def Let_def load_def read_missing exists_path_def sample_coder_def)

lemma invalid_json_is_error_passes:
  assumes "fresh_dir dir s" and "sample_coder codec"
  shows "invalid_json_is_error codec dir s"
  using write_and_read [OF assms(1) test_names(3,5)] assms(2)
  by (auto simp: invalid_json_is_error_def Let_def load_def sample_coder_def)

lemma existing_file_roundtrip_passes:
  assumes "fresh_dir dir s" and "sample_coder codec"
  shows "existing_file_roundtrip codec dir s"
  using write_and_read [OF assms(1) test_names(4,6)] assms(2)
  by (auto simp: existing_file_roundtrip_def Let_def load_def sample_coder_def)

lemma load_or_create_writes_pretty_json_passes:
  assumes "fresh_dir dir s" and "sample_coder codec"
  shows "load_or_create_writes_pretty_json codec dir s"
proof -
  let ?p = "push dir ''sample.json''"
  note place = fresh_place [OF assms(1) test_names(1)]
  from assms(2) obtain body where body: "to_string_pretty codec sample_default = Inr body" "sublist ''hostName'' body"
    "utf8_valid (body @ [CHR 0x0A])" and default: "default_value codec = sample_default"
    by (auto simp: sample_coder_def)
  from write_and_read [OF assms(1) test_names(1) body(3)] obtain t where
    t: "write_file ?p (body @ [CHR 0x0A]) s = (Inr (), t)" "read_to_string ?p t = (Inr (body @ [CHR 0x0A]), t)" by blast
  have "(case parent ?p of Some par \<Rightarrow> map_err (config_io_at par) (create_dir_all par) | None \<Rightarrow> ok ()) s = (Inr (), s)"
    using parent_there [OF place(3,2)] by (auto simp: ok_def split: option.split)
  with t body default have "load codec (create_default (json_file_new ?p)) s = (Inr sample_default, t)"
    using place(1,3) by (simp add: load_def read_missing seed_file_def Let_def try_bind_def map_err_def ok_def)
  with t body(2) show ?thesis
    by (simp add: load_or_create_writes_pretty_json_def Let_def sublist_append)
qed

section \<open>The watch filter\<close>

definition relevant_filters_basename :: bool where
  "relevant_filters_basename =
     (let f = Basename ''micronet.json'' in
      is_relevant_path ''/data/etc/micronet.json'' f \<and>
      \<not> is_relevant_path ''/data/etc/.micronet.json'' f \<and>
      \<not> is_relevant_path ''/data/etc/micronet.json~'' f \<and>
      \<not> is_relevant_path ''/data/etc/other.json'' f \<and>
      \<not> is_relevant_path ''/data/etc/micronet.json.tmp'' f \<and>
      \<not> is_relevant_path ''/data/etc/micronet.json.swp'' f)"

definition relevant_filters_dropins :: bool where
  "relevant_filters_dropins =
     (let f = AnyName [''json''] [''microinit.d''] [] in
      is_relevant_path ''/data/etc/microinit.json'' f \<and>
      is_relevant_path ''/data/etc/microinit.d'' f \<and>
      is_relevant_path ''/data/etc/microinit.d/loco.json'' f \<and>
      \<not> is_relevant_path ''/data/etc/notes.txt'' f \<and>
      \<not> is_relevant_path ''/data/etc/.hidden.json'' f)"

text \<open>Looking at a path means looking at the name at its end.\<close>

lemma relevant_in_dir:
  assumes "plain_name s" and "utf8_valid s" and "dir \<noteq> []" and "\<not> is_sep (last dir)"
  shows "is_relevant_path (dir @ ''/'' @ s) (Basename want) = (\<not> is_junk_name s \<and> s = want)"
    and "is_relevant_path (dir @ ''/'' @ s) (AnyName [''json''] [''microinit.d''] []) =
      (\<not> is_junk_name s \<and> (s = ''microinit.d'' \<or> extension s = Some ''json''))"
proof -
  have "components s = [Normal s]"
    using plain_name_relative [OF assms(1)] plain_name_segments [OF assms(1)] assms(1) split_slash_plain [of s]
    by (simp add: components_def plain_name_def)
  then have "file_name (push dir s) = Some s" "file_name s = Some s"
    using components_push_plain [OF assms(1,3)] by (simp_all add: file_name_def)
  moreover have "push dir s = dir @ ''/'' @ s"
    using plain_name_relative [OF assms(1)] assms(3,4) by (simp add: push_def)
  ultimately have name: "file_name (dir @ ''/'' @ s) = Some s" "extension (dir @ ''/'' @ s) = extension s"
    by (simp_all add: extension_def)
  have str: "to_str s = Some s" using assms(2) by (simp add: to_str_def)
  have json: "utf8_valid ''json''" "to_str ''json'' = Some ''json''" by code_simp+
  show "is_relevant_path (dir @ ''/'' @ s) (Basename want) = (\<not> is_junk_name s \<and> s = want)"
    and "is_relevant_path (dir @ ''/'' @ s) (AnyName [''json''] [''microinit.d''] []) =
      (\<not> is_junk_name s \<and> (s = ''microinit.d'' \<or> extension s = Some ''json''))"
    unfolding is_relevant_path_def name
    by (auto simp: str json bind_to_str split: option.split if_splits)
qed

lemma test_file_names:
  "plain_name ''micronet.json''" "plain_name ''.micronet.json''" "plain_name ''micronet.json~''"
  "plain_name ''other.json''" "plain_name ''micronet.json.tmp''" "plain_name ''micronet.json.swp''"
  "plain_name ''microinit.json''" "plain_name ''microinit.d''" "plain_name ''loco.json''"
  "plain_name ''notes.txt''" "plain_name ''.hidden.json''"
  "utf8_valid ''micronet.json''" "utf8_valid ''.micronet.json''" "utf8_valid ''micronet.json~''"
  "utf8_valid ''other.json''" "utf8_valid ''micronet.json.tmp''" "utf8_valid ''micronet.json.swp''"
  "utf8_valid ''microinit.json''" "utf8_valid ''microinit.d''" "utf8_valid ''loco.json''"
  "utf8_valid ''notes.txt''" "utf8_valid ''.hidden.json''"
  by code_simp+

lemma test_junk_names:
  "\<not> is_junk_name ''micronet.json''" "is_junk_name ''.micronet.json''" "is_junk_name ''micronet.json~''"
  "is_junk_name ''micronet.json.tmp''" "is_junk_name ''micronet.json.swp''"
  "\<not> is_junk_name ''microinit.json''" "\<not> is_junk_name ''microinit.d''" "\<not> is_junk_name ''loco.json''"
  "is_junk_name ''.hidden.json''"
  by code_simp+

lemma etc_dirs:
  "''/data/etc'' \<noteq> []" "\<not> is_sep (last ''/data/etc'')"
  "''/data/etc/microinit.d'' \<noteq> []" "\<not> is_sep (last ''/data/etc/microinit.d'')"
  by (simp_all add: is_sep_def)

lemma relevant_filters_basename_passes: relevant_filters_basename
  using relevant_in_dir(1) [OF test_file_names(1,12) etc_dirs(1,2)] relevant_in_dir(1) [OF test_file_names(2,13) etc_dirs(1,2)]
    relevant_in_dir(1) [OF test_file_names(3,14) etc_dirs(1,2)] relevant_in_dir(1) [OF test_file_names(4,15) etc_dirs(1,2)]
    relevant_in_dir(1) [OF test_file_names(5,16) etc_dirs(1,2)] relevant_in_dir(1) [OF test_file_names(6,17) etc_dirs(1,2)]
    test_junk_names
  by (simp add: relevant_filters_basename_def)

lemma test_extensions:
  "extension ''microinit.json'' = Some ''json''" "extension ''loco.json'' = Some ''json''"
  "extension ''notes.txt'' = Some ''txt''"
  by code_simp+

lemma relevant_filters_dropins_passes: relevant_filters_dropins
  using relevant_in_dir(2) [OF test_file_names(7,18) etc_dirs(1,2)] relevant_in_dir(2) [OF test_file_names(8,19) etc_dirs(1,2)]
    relevant_in_dir(2) [OF test_file_names(9,20) etc_dirs(3,4)] relevant_in_dir(2) [OF test_file_names(10,21) etc_dirs(1,2)]
    relevant_in_dir(2) [OF test_file_names(11,22) etc_dirs(1,2)] test_extensions test_junk_names
  by (simp add: relevant_filters_dropins_def)

end
