(* ===== verification/Watch_Tests.thy ===== *)
theory Watch_Tests
  imports Test_Dir
begin

text \<open>
  The tests of \<open>config/watch.rs\<close> that wait for a reload, replayed on the model: the files they write go
  through the file system, the thread is started by \<open>spawn_signal\<close>, and what inotify reports for the writes
  is an argument, a list of events. A test holds if a \<open>Reload\<close> has been sent once the receive has timed
  out after them.
\<close>

section \<open>Writing, and waiting for the reload\<close>

text \<open>\<open>std::fs::rename\<close> of a file onto another place of a directory that is there.\<close>

definition rename :: "path \<Rightarrow> path \<Rightarrow> (sys, io_error, unit) fallible" where
  "rename p q s =
     (case lookup s (key p) of
        None \<Rightarrow> (Inl (err NotFound), s)
      | Some n \<Rightarrow> (Inr (), set_node (key p) None (set_node (key q) (Some n) s)))"

definition millis :: "nat \<Rightarrow> nat" where
  "millis n = n * 1000000"

text \<open>
  The events arrive at \<open>now\<close>, on the file system \<open>s\<close>; then it is quiet for the debounce time, and
  \<open>recv_timeout\<close> of the test looks for what has been sent since the receiver was last empty.
\<close>

definition burst :: "'w watch_config \<Rightarrow> nat \<Rightarrow> event list \<Rightarrow> 'w watch_state \<Rightarrow> 'w watch_state" where
  "burst cfg now events st = fold (\<lambda>e. watch_branch cfg now (Message e)) events st"

definition reload_received :: "'w watch_config \<Rightarrow> nat \<Rightarrow> event list \<Rightarrow> sys \<Rightarrow> 'w watch_state \<Rightarrow> bool" where
  "reload_received cfg now events s st =
     (let st1 = burst cfg now events (st\<lparr>fs := s, clock := now, sent := []\<rparr>);
          later = now + wc_debounce cfg
      in Signal \<in> set (sent (watch_branch cfg later Timeout (st1\<lparr>clock := later\<rparr>))))"

definition watcher_of ::
  "'w inotify \<Rightarrow> watch_spec list \<Rightarrow> sys \<Rightarrow> 'w \<Rightarrow> ('w watch_config \<Rightarrow> 'w watch_state \<Rightarrow> bool) \<Rightarrow> bool" where
  "watcher_of inotify specs s w rest =
     (case spawn_signal inotify None specs (millis 50) of
        Inl _ \<Rightarrow> False
      | Inr cfg \<Rightarrow> rest cfg (watch_start cfg s w 0))"

definition after_write :: "path \<Rightarrow> string \<Rightarrow> sys \<Rightarrow> (sys \<Rightarrow> bool) \<Rightarrow> bool" where
  "after_write p body s rest = (case write_file p body s of (Inl _, _) \<Rightarrow> False | (Inr _, t) \<Rightarrow> rest t)"

section \<open>The tests\<close>

definition v1_json :: string where
  \<open>v1_json = ''{"v":1}'' @ [CHR 0x0A]\<close>

definition loco_json :: string where
  \<open>loco_json = ''{"name":"loco"}'' @ [CHR 0x0A]\<close>

definition a1_json :: string where
  \<open>a1_json = ''{"a":1}'' @ [CHR 0x0A]\<close>

definition empty_json :: string where
  "empty_json = ''{}'' @ [CHR 0x0A]"

definition dir_watch_fires_on_json_replace :: "'w inotify \<Rightarrow> 'w \<Rightarrow> event list \<Rightarrow> path \<Rightarrow> sys \<Rightarrow> bool" where
  "dir_watch_fires_on_json_replace inotify w events dir s =
     (let p = push dir ''microinit.json''; tmp = push dir ''microinit.json.tmp'';
          spec = \<lparr>ws_path = dir, ws_recursive = False,
            ws_filter = AnyName [''json'']
              [''microinit.json'', ''microinit.services.enabled-override.json'', ''microinit.d''] []\<rparr>
      in after_write p empty_json s (\<lambda>s1.
           watcher_of inotify [spec] s1 w (\<lambda>cfg st.
             after_write tmp v1_json (fs st) (\<lambda>s2.
               case rename tmp p s2 of
                 (Inl _, _) \<Rightarrow> False
               | (Inr _, s3) \<Rightarrow> reload_received cfg (millis 150) events s3 st))))"

definition late_recursive_dir_attaches_and_fires_reload :: "'w inotify \<Rightarrow> 'w \<Rightarrow> event list \<Rightarrow> path \<Rightarrow> sys \<Rightarrow> bool" where
  "late_recursive_dir_attaches_and_fires_reload inotify w events root s =
     (let etc = push root ''etc''; dropins = push (push etc ''microinit.d'') ''services'';
          fltr = AnyName [''json''] [''microinit.json'', ''microinit.d''] [];
          specs = [\<lparr>ws_path = etc, ws_recursive = False, ws_filter = fltr\<rparr>,
                   \<lparr>ws_path = dropins, ws_recursive = True, ws_filter = fltr\<rparr>]
      in case mkdir (key etc) s of
           (Inl _, _) \<Rightarrow> False
         | (Inr _, s1) \<Rightarrow>
             after_write (push etc ''microinit.json'') empty_json s1 (\<lambda>s2.
               watcher_of inotify specs s2 w (\<lambda>cfg st.
                 case create_dir_all dropins (fs st) of
                   (Inl _, _) \<Rightarrow> False
                 | (Inr _, s3) \<Rightarrow>
                     after_write (push dropins ''loco.json'') loco_json s3 (\<lambda>s4.
                       reload_received cfg (millis 150) events s4 st))))"

definition failed_recursive_spec_does_not_kill_file_watch :: "'w inotify \<Rightarrow> 'w \<Rightarrow> event list \<Rightarrow> path \<Rightarrow> sys \<Rightarrow> bool" where
  "failed_recursive_spec_does_not_kill_file_watch inotify w events dir s =
     (let f = push dir ''cfg.json''; not_a_dir = push dir ''blocked'';
          specs = [watch_file f, \<lparr>ws_path = not_a_dir, ws_recursive = True, ws_filter = AnyName [''json''] [] []\<rparr>]
      in after_write f empty_json s (\<lambda>s1.
         after_write not_a_dir (''x'' @ [CHR 0x0A]) s1 (\<lambda>s2.
           watcher_of inotify specs s2 w (\<lambda>cfg st.
             after_write f a1_json (fs st) (\<lambda>s3.
               reload_received cfg (millis 150) events s3 st)))))"

section \<open>They hold\<close>

text \<open>What the tests rely on of inotify: a directory that is there can be watched.\<close>

definition can_watch :: "'w inotify \<Rightarrow> bool" where
  "can_watch inotify \<longleftrightarrow> (\<forall>p recursive w. fst (inotify p recursive w) = Inr ())"

lemma can_watch_dir:
  assumes "can_watch inotify" and "is_dir p s"
  shows "fst (attach_spec inotify \<lparr>ws_path = p, ws_recursive = r, ws_filter = f\<rparr> (s, w)) = True"
    and "fst (snd (attach_spec inotify \<lparr>ws_path = p, ws_recursive = r, ws_filter = f\<rparr> (s, w))) = s"
  using assms by (auto simp: attach_spec_def watch_dir_for_def can_watch_def Let_def split: prod.split sum.split)
    (metis Inl_Inr_False fst_conv)+

text \<open>Nothing left to attach: a turn only records what its message says.\<close>

definition settled_watch :: "'w watch_config \<Rightarrow> 'w watch_state \<Rightarrow> bool" where
  "settled_watch cfg st \<longleftrightarrow>
     attach_pending (wc_inotify cfg) (wc_specs cfg) (attached st) (fs st, watcher st) = (False, attached st, fs st, watcher st)"

lemma settled_attach: "settled_watch cfg st \<Longrightarrow> attach_now cfg now st = st"
  by (simp add: settled_watch_def attach_now_def)

lemma settled_message:
  assumes "settled_watch cfg st"
  shows "watch_branch cfg now (Message e) st =
    (if is_relevant_event (wc_specs cfg) e then st\<lparr>activity := Some now\<rparr> else st)"
  by (simp add: watch_branch_def settled_attach [OF assms] Let_def)

lemma settled_burst:
  assumes "settled_watch cfg st" and "activity st = Some now \<or> (\<exists>e \<in> set events. is_relevant_event (wc_specs cfg) e)"
  shows "burst cfg now events st = st\<lparr>activity := Some now\<rparr>"
  using assms
proof (induction events arbitrary: st)
  case Nil
  then show ?case by (simp add: burst_def)
next
  case (Cons e events)
  have "settled_watch cfg (st\<lparr>activity := Some now\<rparr>)" using Cons.prems(1) by (simp add: settled_watch_def)
  with Cons settled_message [OF Cons.prems(1), of now e] show ?case
    by (cases "is_relevant_event (wc_specs cfg) e") (auto simp: burst_def)
qed

lemma settled_reload:
  assumes "settled_watch cfg st" and "activity st = Some now" and "wc_reload_tx cfg"
  shows "Signal \<in> set (sent (watch_branch cfg (now + wc_debounce cfg) Timeout (st\<lparr>clock := now + wc_debounce cfg\<rparr>)))"
proof -
  let ?st = "st\<lparr>clock := now + wc_debounce cfg\<rparr>"
  have "settled_watch cfg ?st" using assms(1) by (simp add: settled_watch_def)
  from settled_attach [OF this] assms(2,3) show ?thesis
    by (simp add: watch_branch_def Let_def fire_reload_def)
qed

lemma settled_reload_received:
  assumes "settled_watch cfg (st\<lparr>fs := s\<rparr>)" and "\<exists>e \<in> set events. is_relevant_event (wc_specs cfg) e" and "wc_reload_tx cfg"
  shows "reload_received cfg now events s st"
proof -
  let ?st = "st\<lparr>fs := s, clock := now, sent := []\<rparr>"
  have s: "settled_watch cfg ?st" "settled_watch cfg (?st\<lparr>activity := Some now\<rparr>)"
    using assms(1) by (simp_all add: settled_watch_def)
  from settled_burst [OF s(1) disjI2 [OF assms(2)]] settled_reload [OF s(2) _ assms(3), of now] show ?thesis
    by (simp add: reload_received_def Let_def)
qed

lemma all_attached_settled: "list_all (\<lambda>a. a) (attached st) \<Longrightarrow> settled_watch cfg st"
  by (simp add: settled_watch_def attach_pending_all)

text \<open>The file system under the tests.\<close>

lemma is_dir_quiet: "faults s = (\<lambda>_ _. None) \<Longrightarrow> is_dir p s \<longleftrightarrow> p \<noteq> [] \<and> dir_at (key p) s"
  by (auto simp: is_dir_def is_dir_key_def dir_at_def split: option.splits)

lemma write_ok:
  assumes "faults s = (\<lambda>_ _. None)"
    and "lookup s (key p) = None \<and> dir_at (butlast (key p)) s \<or> (\<exists>n c. lookup s (key p) = Some n \<and> content n = Regular c)"
  shows "\<exists>n. write_file p body s = (Inr (), set_node (key p) (Some n) s) \<and> content n = Regular body"
proof -
  have "set_node k m (set_node k m' s) = set_node k m s" for k m m' by (simp add: set_node_def)
  moreover have "lookup s (key p) = None \<Longrightarrow> parent_error (key p) s = None"
    using assms(2) by (auto simp: dir_at_def parent_error_None)
  ultimately show ?thesis
    using assms by (auto simp: write_file_def open_truncated_def try_bind_def Let_def)
qed

lemma after_write_ok:
  assumes "faults s = (\<lambda>_ _. None)"
    and "lookup s (key p) = None \<and> dir_at (butlast (key p)) s \<or> (\<exists>n c. lookup s (key p) = Some n \<and> content n = Regular c)"
    and "\<And>n. content n = Regular body \<Longrightarrow> rest (set_node (key p) (Some n) s)"
  shows "after_write p body s rest"
  using write_ok [OF assms(1,2), of body] assms(3) by (auto simp: after_write_def)

lemma dir_at_set_file: "content n = Regular c \<Longrightarrow> dir_at k (set_node k' (Some n) s) \<longleftrightarrow> dir_at k s \<and> (k = k' \<longrightarrow> k = [] \<or> k = [RootDir])"
  by (auto simp: dir_at_def lookup_set_node_eq lookup_root)

text \<open>A file with an ordinary name in a directory, as a place and as the subject of an event.\<close>

lemma key_push_facts:
  assumes "plain_name name" and "dir \<noteq> []"
  shows "butlast (key (push dir name)) = key dir" and "key (push dir name) \<noteq> key dir" and "key (push dir name) \<noteq> []"
    and "push dir name \<noteq> []"
  using key_push [OF assms] assms(1) by (auto simp: plain_name_def push_def)

lemma file_name_push: "plain_name name \<Longrightarrow> dir \<noteq> [] \<Longrightarrow> file_name (push dir name) = Some name"
  by (simp add: file_name_def components_push_plain)

lemma relevant_extra:
  assumes "plain_name name" and "dir \<noteq> []" and "utf8_valid name" and "\<not> is_junk_name name" and "name \<in> set extras"
  shows "is_relevant_path (push dir name) (AnyName exts extras [])"
  using assms(3-5) by (auto simp: is_relevant_path_def file_name_push [OF assms(1,2)] to_str_def)

lemma relevant_file:
  assumes "plain_name name" and "dir \<noteq> []" and "utf8_valid name" and "\<not> is_junk_name name"
  shows "is_relevant_path (push dir name) (ws_filter (watch_file (push dir name)))"
  using assms(4) file_spec_relevant [OF file_name_push [OF assms(1,2)] assms(3)] file_name_push [OF assms(1,2)] by simp

lemma watch_test_names:
  "plain_name ''microinit.json''" "plain_name ''microinit.json.tmp''" "plain_name ''cfg.json''" "plain_name ''blocked''"
  "plain_name ''etc''" "plain_name ''microinit.d''" "plain_name ''services''" "plain_name ''loco.json''"
  "utf8_valid ''microinit.json''" "utf8_valid ''cfg.json''"
  "\<not> is_junk_name ''microinit.json''" "\<not> is_junk_name ''cfg.json''"
  by code_simp+

text \<open>An event that tells of a change at a path.\<close>

definition tells_of :: "path \<Rightarrow> event \<Rightarrow> bool" where
  "tells_of p e \<longleftrightarrow> ev_kind e \<in> {EvCreate, EvModify} \<and> p \<in> set (ev_paths e)"

lemma tells_relevant:
  "tells_of p e \<Longrightarrow> spec \<in> set specs \<Longrightarrow> is_relevant_path p (ws_filter spec) \<Longrightarrow> is_relevant_event specs e"
  by (auto simp: tells_of_def is_relevant_event_def)

lemma watcher_of_ok:
  assumes "\<And>cfg. wc_inotify cfg = inotify \<Longrightarrow> wc_specs cfg = specs \<Longrightarrow> wc_reload_tx cfg \<Longrightarrow> wc_debounce cfg = millis 50 \<Longrightarrow>
    rest cfg (watch_start cfg s w 0)"
  shows "watcher_of inotify specs s w rest"
  using assms by (simp add: watcher_of_def spawn_signal_def)

lemma dir_watch_fires_on_json_replace_passes:
  assumes "fresh_dir dir s" and "can_watch inotify" and "\<exists>e \<in> set events. tells_of (push dir ''microinit.json'') e"
  shows "dir_watch_fires_on_json_replace inotify w events dir s"
proof -
  let ?p = "push dir ''microinit.json''" and ?tmp = "push dir ''microinit.json.tmp''"
  let ?extras = "[''microinit.json'', ''microinit.services.enabled-override.json'', ''microinit.d'']"
  let ?spec = "\<lparr>ws_path = dir, ws_recursive = False, ws_filter = AnyName [''json''] ?extras []\<rparr>"
  have dir: "dir \<noteq> []" using assms(1) by (simp add: fresh_dir_def)
  note p = fresh_place [OF assms(1) watch_test_names(1)] and tmp = fresh_place [OF assms(1) watch_test_names(2)]
  have apart: "key ?tmp \<noteq> key ?p" by (simp add: key_push [OF watch_test_names(1) dir] key_push [OF watch_test_names(2) dir])
  have "is_relevant_path ?p (AnyName [''json''] ?extras [])"
    by (rule relevant_extra [OF watch_test_names(1) dir watch_test_names(9,11)]) simp
  then have relevant: "\<exists>e \<in> set events. is_relevant_event [?spec] e"
    using assms(3) tells_relevant [of ?p _ ?spec "[?spec]"] by auto
  show ?thesis
    unfolding dir_watch_fires_on_json_replace_def Let_def
  proof (rule after_write_ok [OF p(3) disjI1], (rule conjI, rule p(1), rule p(2)), rule watcher_of_ok)
    fix n and cfg :: "'a watch_config"
    let ?s1 = "set_node (key ?p) (Some n) s"
    assume n: "content n = Regular empty_json" and cfg: "wc_inotify cfg = inotify" "wc_specs cfg = [?spec]" "wc_reload_tx cfg"
    have quiet: "faults ?s1 = (\<lambda>_ _. None)" using p(3) by simp
    have "is_dir dir ?s1"
      using p(2) dir key_push_facts(1,2) [OF watch_test_names(1) dir] by (simp add: is_dir_quiet [OF quiet] dir_at_set_file [OF n])
    note att = can_watch_dir [OF assms(2) this, where r = False and f = "AnyName [''json''] ?extras []" and w = w]
    have start: "attached (watch_start cfg ?s1 w 0) = [True]" "fs (watch_start cfg ?s1 w 0) = ?s1"
      using att cfg by (auto simp: watch_start_def split: prod.splits)
    have free: "lookup ?s1 (key ?tmp) = None" "dir_at (butlast (key ?tmp)) ?s1"
      using tmp(1,2) apart key_push_facts(1,2) [OF watch_test_names(1) dir] key_push_facts(1) [OF watch_test_names(2) dir]
      by (auto simp: lookup_set_node_other dir_at_set_file [OF n])
    show "after_write ?tmp v1_json (fs (watch_start cfg ?s1 w 0)) (\<lambda>s2. case rename ?tmp ?p s2 of
        (Inl _, _) \<Rightarrow> False | (Inr _, s3) \<Rightarrow> reload_received cfg (millis 150) events s3 (watch_start cfg ?s1 w 0))"
      unfolding start(2)
    proof (rule after_write_ok [OF quiet disjI1], (rule conjI, rule free(1), rule free(2)))
      fix m
      have "\<exists>s3. rename ?tmp ?p (set_node (key ?tmp) (Some m) ?s1) = (Inr (), s3)"
        using lookup_set_node_eq [of "key ?tmp" "Some m" ?s1 "key ?tmp"] by (auto simp: rename_def split: option.split if_splits)
      moreover have "reload_received cfg (millis 150) events s3 (watch_start cfg ?s1 w 0)" for s3
        using relevant cfg start(1) by (intro settled_reload_received all_attached_settled) simp_all
      ultimately show "case rename ?tmp ?p (set_node (key ?tmp) (Some m) ?s1) of
        (Inl _, _) \<Rightarrow> False | (Inr _, s3) \<Rightarrow> reload_received cfg (millis 150) events s3 (watch_start cfg ?s1 w 0)"
        by auto
    qed
  qed
qed

text \<open>A place that is no directory never attaches; the file beside it does.\<close>

lemma attach_not_dir:
  assumes "\<not> is_dir p s"
  shows "attach_spec inotify \<lparr>ws_path = p, ws_recursive = True, ws_filter = f\<rparr> (s, w) = (False, s, w)"
  using assms by (simp add: attach_spec_def Let_def)

lemma attach_file:
  assumes "can_watch inotify" and "\<not> is_dir p s" and "parent p = Some dir" and "is_dir dir s"
  shows "fst (attach_spec inotify (watch_file p) (s, w)) = True" and "fst (snd (attach_spec inotify (watch_file p) (s, w))) = s"
  using assms by (auto simp: attach_spec_def watch_dir_for_def can_watch_def watch_file_def Let_def split: prod.split sum.split)
    (metis Inl_Inr_False fst_conv)+

lemma failed_recursive_spec_does_not_kill_file_watch_passes:
  assumes "fresh_dir dir s" and "can_watch inotify" and "\<exists>e \<in> set events. tells_of (push dir ''cfg.json'') e"
    and "parent (push dir ''cfg.json'') = Some dir"
  shows "failed_recursive_spec_does_not_kill_file_watch inotify w events dir s"
proof -
  let ?f = "push dir ''cfg.json''" and ?b = "push dir ''blocked''"
  let ?blocked = "\<lparr>ws_path = ?b, ws_recursive = True, ws_filter = AnyName [''json''] [] []\<rparr>"
  let ?specs = "[watch_file ?f, ?blocked]"
  have dir: "dir \<noteq> []" using assms(1) by (simp add: fresh_dir_def)
  note f = fresh_place [OF assms(1) watch_test_names(3)] and b = fresh_place [OF assms(1) watch_test_names(4)]
  note kf = key_push_facts [OF watch_test_names(3) dir] and kb = key_push_facts [OF watch_test_names(4) dir]
  have apart: "key ?b \<noteq> key ?f" by (simp add: key_push [OF watch_test_names(3) dir] key_push [OF watch_test_names(4) dir])
  have root: "key ?f \<noteq> []" "key ?f \<noteq> [RootDir]" "key ?b \<noteq> []" "key ?b \<noteq> [RootDir]"
    using f(1) b(1) by (auto simp: lookup_def split: if_splits)
  have relevant: "\<exists>e \<in> set events. is_relevant_event ?specs e"
    using assms(3) tells_relevant [of ?f _ "watch_file ?f" ?specs] relevant_file [OF watch_test_names(3) dir watch_test_names(10,12)]
    by auto
  show ?thesis
    unfolding failed_recursive_spec_does_not_kill_file_watch_def Let_def
  proof (rule after_write_ok [OF f(3) disjI1], (rule conjI, rule f(1), rule f(2)))
    fix n
    let ?s1 = "set_node (key ?f) (Some n) s"
    assume n: "content n = Regular empty_json"
    have quiet: "faults ?s1 = (\<lambda>_ _. None)" using f(3) by simp
    have free: "lookup ?s1 (key ?b) = None" "dir_at (butlast (key ?b)) ?s1"
      using b(1,2) apart kf(1,2) kb(1) by (auto simp: lookup_set_node_other dir_at_set_file [OF n])
    show "after_write ?b (''x'' @ [CHR 0x0A]) ?s1 (\<lambda>s2. watcher_of inotify ?specs s2 w (\<lambda>cfg st.
        after_write ?f a1_json (fs st) (\<lambda>s3. reload_received cfg (millis 150) events s3 st)))"
    proof (rule after_write_ok [OF quiet disjI1], (rule conjI, rule free(1), rule free(2)), rule watcher_of_ok)
      fix m and cfg :: "'a watch_config"
      let ?s2 = "set_node (key ?b) (Some m) ?s1"
      let ?st = "watch_start cfg ?s2 w 0"
      assume m: "content m = Regular (''x'' @ [CHR 0x0A])"
        and cfg: "wc_inotify cfg = inotify" "wc_specs cfg = ?specs" "wc_reload_tx cfg"
      have quiet2: "faults ?s2 = (\<lambda>_ _. None)" using f(3) by simp
      have dirs: "\<not> is_dir ?b ?s2" "\<not> is_dir ?f ?s2" "is_dir dir ?s2"
        using root kf(1,2) kb(1,2) f(2) dir by (simp_all add: is_dir_quiet [OF quiet2] dir_at_set_file [OF n] dir_at_set_file [OF m])
      have start: "attached ?st = [True, False]" "fs ?st = ?s2"
        using attach_file [OF assms(2) dirs(2) assms(4) dirs(3), of w] attach_not_dir [OF dirs(1), of inotify] cfg
        by (auto simp: watch_start_def split: prod.splits)
      have old: "\<exists>n c. lookup ?s2 (key ?f) = Some n \<and> content n = Regular c"
        using n apart root by (auto simp: lookup_set_node_other)
      show "after_write ?f a1_json (fs ?st) (\<lambda>s3. reload_received cfg (millis 150) events s3 ?st)"
        unfolding start(2)
      proof (rule after_write_ok [OF quiet2 disjI2 [OF old]])
        fix k
        let ?s3 = "set_node (key ?f) (Some k) ?s2"
        assume k: "content k = Regular a1_json"
        have quiet3: "faults ?s3 = (\<lambda>_ _. None)" using f(3) by simp
        have "\<not> is_dir ?b ?s3"
          using root by (simp add: is_dir_quiet [OF quiet3] dir_at_set_file [OF n] dir_at_set_file [OF m] dir_at_set_file [OF k])
        then have "settled_watch cfg (?st\<lparr>fs := ?s3\<rparr>)"
          using start(1) cfg attach_not_dir [of ?b ?s3 inotify] by (simp add: settled_watch_def)
        then show "reload_received cfg (millis 150) events ?s3 ?st"
          using relevant cfg by (intro settled_reload_received) simp_all
      qed
    qed
  qed
qed

text \<open>A directory that appears late.\<close>

lemma late_attach:
  assumes "attached st = [True, False]" and "wc_specs cfg = [spec, \<lparr>ws_path = p, ws_recursive = True, ws_filter = f\<rparr>]"
    and "can_watch (wc_inotify cfg)" and "is_dir p s"
  shows "attached (watch_branch cfg now (Message e) (st\<lparr>fs := s, clock := now, sent := []\<rparr>)) = [True, True] \<and>
    activity (watch_branch cfg now (Message e) (st\<lparr>fs := s, clock := now, sent := []\<rparr>)) = Some now"
proof -
  have "fst (attach_spec (wc_inotify cfg) \<lparr>ws_path = p, ws_recursive = True, ws_filter = f\<rparr> (s, watcher st)) = True"
    by (rule can_watch_dir(1) [OF assms(3,4)])
  with assms(1,2) show ?thesis
    by (auto simp: watch_branch_def attach_now_def Let_def split: prod.splits)
qed

lemma late_reload:
  assumes "events \<noteq> []"
    and "\<And>e now. attached (watch_branch cfg now (Message e) (st\<lparr>fs := s, clock := now, sent := []\<rparr>)) = [True, True] \<and>
      activity (watch_branch cfg now (Message e) (st\<lparr>fs := s, clock := now, sent := []\<rparr>)) = Some now"
    and "wc_reload_tx cfg"
  shows "reload_received cfg now events s st"
proof -
  from assms(1) obtain e es where es: "events = e # es" by (cases events) auto
  let ?st = "watch_branch cfg now (Message e) (st\<lparr>fs := s, clock := now, sent := []\<rparr>)"
  have settled: "settled_watch cfg ?st" "settled_watch cfg (?st\<lparr>activity := Some now\<rparr>)"
    using assms(2) [of now e] by (auto intro!: all_attached_settled)
  have "burst cfg now events (st\<lparr>fs := s, clock := now, sent := []\<rparr>) = burst cfg now es ?st"
    by (simp add: burst_def es)
  also have "\<dots> = ?st\<lparr>activity := Some now\<rparr>"
    using assms(2) [of now e] by (intro settled_burst [OF settled(1)]) simp
  finally show ?thesis
    using settled_reload [OF settled(2) _ assms(3), of now] by (simp add: reload_received_def Let_def)
qed

text \<open>Two directories made one in the other, below a directory that is there.\<close>

lemma create_two_dirs:
  assumes quiet: "faults s = (\<lambda>_ _. None)" and "dir_at K s" and K: "K \<noteq> []"
    and free: "lookup s (K @ [a]) = None" "lookup s (K @ [a, b]) = None"
  shows "create_dir_all_key (K @ [a, b]) s =
    (Inr (), set_node (K @ [a, b]) (Some \<lparr>content = Dir, mode = umask_dir s\<rparr>)
      (set_node (K @ [a]) (Some \<lparr>content = Dir, mode = umask_dir s\<rparr>) s))"
proof -
  let ?kd = "K @ [a]" and ?kp = "K @ [a, b]" and ?dirn = "\<lparr>content = Dir, mode = umask_dir s\<rparr>"
  let ?s1 = "set_node ?kd (Some ?dirn) s"
  have bl: "butlast ?kd = K" "butlast ?kp = ?kd" by (simp_all add: butlast_append)
  have root: "?kd \<noteq> [RootDir]" "?kp \<noteq> [RootDir]" using K by (auto simp: append_eq_Cons_conv)
  have p: "parent_error ?kp s = Some (err NotFound)" "parent_error ?kd s = None"
    using assms(2) free(1) unfolding parent_error_def bl by (auto simp: dir_at_def)
  have p1: "parent_error ?kp ?s1 = None" "lookup ?s1 ?kp = None"
    using root free(2) unfolding parent_error_def bl by (auto simp: lookup_set_node_eq)
  have "mkdir ?kp s = (Inl (err NotFound), s)" "mkdir ?kd s = (Inr (), ?s1)"
    "mkdir ?kp ?s1 = (Inr (), set_node ?kp (Some ?dirn) ?s1)"
    using quiet free p p1 by (simp_all add: mkdir_def)
  then show ?thesis
    by (simp add: create_dir_all_key.simps [of ?kp] create_dir_all_key.simps [of ?kd] bl mkdir_or_dir_def root)
qed

lemma late_recursive_dir_attaches_and_fires_reload_passes:
  assumes "fresh_dir root s" and "can_watch inotify" and "events \<noteq> []"
  shows "late_recursive_dir_attaches_and_fires_reload inotify w events root s"
proof -
  let ?etc = "push root ''etc''"
  let ?d = "push ?etc ''microinit.d''"
  let ?drop = "push ?d ''services''"
  let ?filter = "AnyName [''json''] [''microinit.json'', ''microinit.d''] []"
  let ?specs = "[\<lparr>ws_path = ?etc, ws_recursive = False, ws_filter = ?filter\<rparr>, \<lparr>ws_path = ?drop, ws_recursive = True, ws_filter = ?filter\<rparr>]"
  have root: "root \<noteq> []" using assms(1) by (simp add: fresh_dir_def)
  note etc = fresh_place [OF assms(1) watch_test_names(5)]
  have ne: "?etc \<noteq> []" "?d \<noteq> []" "?drop \<noteq> []"
    using key_push_facts(4) [OF watch_test_names(5) root] key_push_facts(4) [OF watch_test_names(6)]
      key_push_facts(4) [OF watch_test_names(7)] by auto
  have keys: "key ?etc = key root @ [Normal ''etc'']" "key ?d = key ?etc @ [Normal ''microinit.d'']"
    "key ?drop = key ?d @ [Normal ''services'']" "key (push ?etc ''microinit.json'') = key ?etc @ [Normal ''microinit.json'']"
    "key (push ?drop ''loco.json'') = key ?drop @ [Normal ''loco.json'']"
    using key_push watch_test_names(1,5-8) root ne by auto
  have below: "lookup s (key ?etc @ rest) = None" for rest
    using assms(1) keys(1) by (simp add: fresh_dir_def)
  define K where "K = key ?etc"
  have K: "K \<noteq> []" "K \<noteq> [RootDir]" "K @ x # xs \<noteq> [RootDir]" for x xs
    using keys(1) by (auto simp: K_def append_eq_Cons_conv)
  let ?m = "K @ [Normal ''microinit.json'']" and ?kd = "K @ [Normal ''microinit.d'']"
  let ?kp = "K @ [Normal ''microinit.d'', Normal ''services'']"
  let ?kl = "K @ [Normal ''microinit.d'', Normal ''services'', Normal ''loco.json'']"
  have k: "key ?etc = K" "key ?drop = ?kp" "key (push ?etc ''microinit.json'') = ?m" "key (push ?drop ''loco.json'') = ?kl"
    using keys by (simp_all add: K_def)
  have bl: "butlast ?m = K" "butlast ?kd = K" "butlast ?kp = ?kd" "butlast ?kl = ?kp" by (simp_all add: butlast_append)
  have neq: "?m \<noteq> K" "?kd \<noteq> K" "?kp \<noteq> K" "?kd \<noteq> ?m" "?kp \<noteq> ?m" "?kp \<noteq> ?kd" "?kl \<noteq> ?kp" "?kl \<noteq> ?kd" "?kl \<noteq> ?m" "?kl \<noteq> K"
    by simp_all
  let ?dirn = "\<lparr>content = Dir, mode = umask_dir s\<rparr>"
  let ?s1 = "set_node K (Some ?dirn) s"
  have "parent_error K s = None" using etc(2) k(1) by (auto simp: dir_at_def parent_error_None)
  then have mk: "mkdir K s = (Inr (), ?s1)" using etc(1,3) k(1) by (simp add: mkdir_def)
  have quiet: "faults ?s1 = (\<lambda>_ _. None)" using etc(3) by simp
  have s1: "dir_at K ?s1" "lookup ?s1 (K @ x # xs) = None" for x xs
    using below [of "x # xs"] K k(1) by (auto simp: dir_at_def lookup_set_node_eq)
  show ?thesis
    unfolding late_recursive_dir_attaches_and_fires_reload_def Let_def k(1) mk prod.case sum.case
  proof (rule after_write_ok [OF quiet disjI1], unfold k(3) bl(1), (rule conjI, rule s1(2), rule s1(1)), rule watcher_of_ok)
    fix n and cfg :: "'a watch_config"
    let ?s2 = "set_node ?m (Some n) ?s1"
    let ?st = "watch_start cfg ?s2 w 0"
    assume n: "content n = Regular empty_json"
      and cfg: "wc_inotify cfg = inotify" "wc_specs cfg = ?specs" "wc_reload_tx cfg"
    have quiet2: "faults ?s2 = (\<lambda>_ _. None)" using quiet by simp
    have s2: "dir_at K ?s2" "lookup ?s2 ?kd = None" "lookup ?s2 ?kp = None" "lookup ?s2 ?kl = None"
      using s1 neq K by (auto simp: dir_at_set_file [OF n] lookup_set_node_other)
    have dirs: "is_dir ?etc ?s2" "\<not> is_dir ?drop ?s2"
      using s2(1,3) ne by (auto simp: is_dir_quiet [OF quiet2] k dir_at_def)
    have start: "attached ?st = [True, False]" "fs ?st = ?s2"
      using can_watch_dir [OF assms(2) dirs(1), where r = False and f = ?filter and w = w] attach_not_dir [OF dirs(2), of inotify] cfg
      by (auto simp: watch_start_def split: prod.splits)
    let ?s3 = "set_node ?kp (Some ?dirn) (set_node ?kd (Some ?dirn) ?s2)"
    have made: "create_dir_all ?drop ?s2 = (Inr (), ?s3)"
      using create_two_dirs [OF quiet2 s2(1) K(1) s2(2,3)] by (simp add: create_dir_all_def k)
    have quiet3: "faults ?s3 = (\<lambda>_ _. None)" using quiet by simp
    have s3: "dir_at ?kp ?s3" "lookup ?s3 ?kl = None"
      using K s2(4) neq by (auto simp: dir_at_def lookup_set_node_eq)
    show "case create_dir_all ?drop (fs ?st) of (Inl _, _) \<Rightarrow> False
      | (Inr _, s3) \<Rightarrow> after_write (push ?drop ''loco.json'') loco_json s3 (\<lambda>s4. reload_received cfg (millis 150) events s4 ?st)"
      unfolding start(2) made prod.case sum.case
    proof (rule after_write_ok [OF quiet3 disjI1], unfold k(4) bl(4), (rule conjI, rule s3(2), rule s3(1)))
      fix l
      let ?s4 = "set_node ?kl (Some l) ?s3"
      assume l: "content l = Regular loco_json"
      have quiet4: "faults ?s4 = (\<lambda>_ _. None)" using quiet by simp
      have "is_dir ?drop ?s4"
        using s3(1) neq(7) ne(3) by (simp add: is_dir_quiet [OF quiet4] k dir_at_set_file [OF l])
      then have late: "attached (watch_branch cfg now (Message e) (?st\<lparr>fs := ?s4, clock := now, sent := []\<rparr>)) = [True, True] \<and>
          activity (watch_branch cfg now (Message e) (?st\<lparr>fs := ?s4, clock := now, sent := []\<rparr>)) = Some now" for e now
        using late_attach [OF start(1) cfg(2)] assms(2) cfg(1) by simp
      show "reload_received cfg (millis 150) events ?s4 ?st"
        using assms(3) late cfg(3) by (rule late_reload)
    qed
  qed
qed

end
