(* ===== verification/Spec2Isabelle.thy ===== *)
theory Spec2Isabelle
  imports Frame Datadir Peer_Auth Bind Bind_Race Bind_Contest Command Session Session_Service Server Config
    Json_File Watch_Filter Watch_Loop Well_Formed Chunking Any_Input Daemon Orphan Fleet Clients Exchange Streaming Sighup Attach Reload
    Ipc_Tests Config_Tests Watch_Tests
begin

text \<open>
  A verification development for \<open>bigfred-shared-daemon\<close>, the crate of shared parts of the BigFred
  daemons. File names below are under \<open>src/rust/crates/bigfred-shared-daemon/src/\<close>.

  The program. A daemon finds its data directory in the environment (\<open>datadir.rs\<close>), loads a
  JSON file from it and reloads the file when it changes (\<open>config/\<close>), and serves clients on a
  Unix socket (\<open>ipc/\<close>): it claims and binds the socket as a singleton (\<open>bind.rs\<close>), accepts
  clients up to a cap, one thread each (\<open>server.rs\<close>), checks who the peer is (\<open>auth.rs\<close>),
  reads length-prefixed JSON frames (\<open>frame.rs\<close>) and routes them to commands (\<open>command.rs\<close>).

  How the model is built. A function with effects is a function of the state it touches that returns
  an error or a value together with the state it leaves, also after an error. Concurrency is a step
  relation. Records are the structs, datatypes the enums. What is not in the repository is a
  parameter: \<open>serde_json\<close> (\<open>json_lib\<close>, \<open>json_out\<close>, \<open>config_codec\<close>), the \<open>nix\<close> crate (\<open>nix_lib\<close>),
  the \<open>notify\<close> crate (\<open>inotify\<close>), and the daemons' own commands and hooks. The standard
  library and the kernel are modelled: byte streams, paths, the file system, sockets.

  Theories.

  \<^item> \<open>Prelude\<close>: machine types, I/O errors, the question-mark operator (\<open>try_bind\<close>, \<open>map_err\<close>) and its
    frame and elimination lemmas, runs of a step relation, decimal printing, little-endian words.
  \<^item> \<open>Streams\<close>: sockets as lists of chunks the kernel will deliver, slices, vectors; the locales
    \<open>byte_source\<close> and \<open>byte_sink\<close> for \<open>Read\<close> and \<open>Write\<close>, interpreted on all four of them.
  \<^item> \<open>Frame\<close> (\<open>ipc/frame.rs\<close>): the codec over any reader and writer. The reader computes the wire
    format whatever the sizes of the reads; round trip; what a failed write has sent.
  \<^item> \<open>Paths\<close>: \<open>std::path\<close> at the level of bytes (components, parent, file name, extension, push) and
    UTF-8 validity. \<open>Datadir\<close> (\<open>datadir.rs\<close>): resolution order, absolute roots, the layout.
  \<^item> \<open>Unix_Env\<close>: inodes, listening sockets and the system calls, each of which may also fail by an
    injected fault; frame lemmas (\<open>agrees_off\<close>).
  \<^item> \<open>Peer_Auth\<close> (\<open>ipc/auth.rs\<close>): exactly who is admitted.
  \<^item> \<open>Bind\<close> (\<open>ipc/bind.rs\<close>): a live socket is not stolen, success serves the path, failure leaves no
    listener, a stale path is recovered. \<open>Bind_Race\<close>: the same code cut at its system calls (the library's
    \<open>UnixListener::bind\<close> into bind(2) and listen(2), \<open>apply_socket_perms\<close> into stat and chmod) and run by
    several processes; it refines \<open>bind\<close>, a settled path stays settled, two simultaneous binds may both
    succeed. \<open>Bind_Contest\<close>: however starts overlap, one of them is left that clients reach.
  \<^item> \<open>Command\<close> (\<open>ipc/command.rs\<close>): connections and the router, with the locale \<open>dispatch_table\<close>.
  \<^item> \<open>Session\<close> (\<open>ipc/server.rs\<close>: \<open>dispatch_one\<close>, \<open>handle_conn\<close>): one client. The request loop is a
    partial function, so that a session that never ends would be \<open>None\<close>; every session ends, because
    each request uses up input. The locale \<open>replying_service\<close> is a service that answers every request.
    \<open>Session_Service\<close>: the commands and hooks of the file's test module, which provide that contract,
    and the properties of sessions. \<open>Any_Input\<close>: any bytes at all read as a script, a list of requests
    and a reason to stop, and a session does what the script says.
  \<^item> \<open>Server\<close> (\<open>ipc/server.rs\<close>: \<open>Server\<close>, \<open>serve_listener\<close>): the acceptor and the client threads as a
    step relation. The cap holds in every interleaving; panics use up places for good.
  \<^item> \<open>Config\<close> (\<open>config/mod.rs\<close>): the live snapshot (locale \<open>cell\<close>) is the last value loaded with
    success. \<open>Json_File\<close> (\<open>config/json.rs\<close>): what a load writes, and when.
  \<^item> \<open>Watch_Filter\<close>, \<open>Watch_Loop\<close> (\<open>config/watch.rs\<close>): which events count, attaching, and the debounce
    loop with explicit time: no reload within the debounce time, none without a cause, and one as soon
    as it is quiet. \<open>Attach\<close>: a directory that appears late is watched from the next turn. \<open>Sighup\<close> (\<open>sighup.rs\<close>): the flag, over the contract of \<open>signal_hook\<close>.
  \<^item> \<open>Well_Formed\<close>: the type invariant of the system state and of the watcher, kept by bind, the
    loader and the watch loop.
  \<^item> \<open>Chunking\<close>: sessions do not see how the kernel cuts the bytes into reads (a bisimulation of the
    streams, lifted through every operation of a session).
  \<^item> \<open>Daemon\<close>: bind, accept loop and clients on one machine with other processes: a daemon
    stays reachable, no connection is lost or served twice, a new one takes over after a crash. A second
    start probes the socket, and the daemon sees that probe as a client that sends nothing.
    \<open>Orphan\<close>: a daemon whose socket has been removed serves on and nobody can reach it again.
  \<^item> \<open>Fleet\<close>: any number of such daemons on one machine. Each is a daemon in the sense of \<open>Daemon\<close>, the
    others being its strangers; at most one runs on a path, if starts do not overlap.
  \<^item> \<open>Clients\<close>: all clients of that daemon at once. Each gets through within the steps its own session
    takes, whatever the others do (\<open>every_client_gets_through\<close>); where the service's answers do not
    depend on the shared state, none sees the others (\<open>clients_do_not_see_each_other\<close>), and where the
    effects of the calls on it also commute, every run ends as if the clients had been served one after
    the other (\<open>daemon_is_serializable\<close>).
  \<^item> \<open>Exchange\<close>: from the requests a client writes with the codec to the replies it reads back, through
    the whole daemon. \<open>Streaming\<close>: the same for commands that answer a request by several frames, in a
    session; any command of that kind makes a \<open>replying_service\<close>.
  \<^item> \<open>Reload\<close>: the watch loop, the loader and the snapshot as one run, from an edit to the new value, or
    to the stop flag.
  \<^item> \<open>Ipc_Tests\<close>, \<open>Config_Tests\<close>, \<open>Watch_Tests\<close>: the crate's own tests, replayed on the model as
    definitions that return what the test asserts, with a lemma that each passes. \<open>Test_Dir\<close>: the
    temporary directory they share. They are checks of the model against its authors' expectations.

  Bounds and fuel. No definition runs on fuel. \<open>read_exact_from\<close> ends because a read that returns
  nothing ends it, \<open>create_dir_all_key\<close> because the key gets shorter, \<open>session_loop\<close> by the theorem
  above. Lengths and caps (\<open>usize\<close>) are natural numbers, as they are lengths of buffers in memory; the
  client counter, which the code adds to and subtracts from, and the header of a frame are words of
  their width. A cap is a \<open>usize\<close>, so below \<open>2 ^ 64\<close>.

  Not modelled. Threads are started by a parameter, the answer of the system; log output and module
  re-exports are left out.
  Symbolic links and dot-dot are not followed in path look-ups; owners of inodes are not recorded. A
  client thread is cut at its calls: reading a request, running a command or the \<open>unknown\<close> hook and
  reporting an error are steps between which other threads run. One call of a command or a hook is one
  step; what it does to the shared state inside that call, and how it locks it, is the daemon's
  business. The threads of clients that a crashed process leaves behind are not followed.
  \<open>create_dir_all\<close> counts as one call in \<open>Bind_Race\<close>, and listen(2) on a socket just bound does not fail.
  The daemons of \<open>Fleet\<close> start one at a time; starts that overlap are the subject of \<open>Bind_Race\<close> and
  \<open>Bind_Contest\<close>, without the clients. Every function of the crate has a definition; what has none
  are imports, re-exports, the headers of modules and impl blocks, and derived traits.

  Findings are theorems: \<open>concurrent_bind_steals_live_socket\<close>, \<open>claim_deletes_regular_file\<close>,
  \<open>header_saturation_truncates\<close>, \<open>interrupted_read_loses_bytes\<close>, \<open>hangup_reported_in_one_shot\<close>,
  \<open>panics_lock_the_server\<close>, \<open>unlinked_daemon_hears_no_one\<close>, \<open>broken_seed_is_never_repaired\<close>,
  \<open>unrelated_events_starve_reload\<close>, \<open>bare_file_name_is_never_watched\<close>, \<open>missing_dir_attaches_to_parent\<close>,
  \<open>root_always_refused_when_fail_closed\<close>, \<open>dropin_relevant_exactly\<close>.

  This theory adds what spans components: starting a server, reloading from a file, and watching the
  configuration file of a service.
\<close>

section \<open>Starting a server\<close>

lemma server_bind_eq:
  "server_bind nix pid opts policy router hooks s =
     (case bind nix pid opts s of
        (Inl e, t) \<Rightarrow> (Inl e, t)
      | (Inr l, t) \<Rightarrow> (Inr (from_listener l (bo_path opts) policy router hooks), t))"
  by (auto simp: server_bind_def from_listener_def unfold_io split: prod.split sum.split)

lemma serve_background_cases:
  obtains (no_bind) e t where "bind nix pid opts s = (Inl e, t)"
      "serve_background nix pid spawned opts policy router hooks s = (Inl e, t)"
  | (no_thread) l t e where "bind nix pid opts s = (Inr l, t)" "spawned = Some e"
      "serve_background nix pid spawned opts policy router hooks s =
        (Inl (BindIo ''ctl thread'' e), close_listener l t)"
  | (running) l t where "bind nix pid opts s = (Inr l, t)" "spawned = None"
      "serve_background nix pid spawned opts policy router hooks s =
        (Inr (from_listener l (bo_path opts) policy router hooks), t)"
proof -
  obtain r t where b: "bind nix pid opts s = (r, t)" by fastforce
  show ?thesis
  proof (cases r)
    case (Inl e)
    with b show ?thesis by (intro no_bind) (simp_all add: serve_background_def server_bind_eq try_bind_def)
  next
    case (Inr l)
    show ?thesis
    proof (cases spawned)
      case None
      with b Inr show ?thesis
        by (intro running) (simp_all add: serve_background_def server_bind_eq try_bind_def map_err_def
            server_serve_background_def)
    next
      case (Some e)
      with b Inr show ?thesis
        by (intro no_thread) (simp_all add: serve_background_def server_bind_eq try_bind_def map_err_def
            server_serve_background_def from_listener_def)
    qed
  qed
qed



section \<open>From a file to the snapshot\<close>

text \<open>
  A reload from a JSON file takes what the file holds or keeps what there was. For a readable file
  the load and the swap give the decoded value, or the decoder's error and the old snapshot; a file
  that cannot be read as text gives an I/O error and the old snapshot; in no case is the file
  system touched.
\<close>

theorem reload_follows_file:
  assumes "lookup s (key (jf_path src)) = Some n" and "faults s = (\<lambda>_ _. None)"
  shows "try_reload (load codec src) (s, l) =
    (case content n of
       Regular body \<Rightarrow>
         if utf8_valid body
         then (case from_str codec body of
                 Inl e \<Rightarrow> (Inl (ConfigJson e), s, l)
               | Inr v \<Rightarrow> (Inr (), s, \<lparr>inner = v, poisoned = poisoned l\<rparr>))
         else (Inl (ConfigIo (path_display (jf_path src)) (err InvalidData)), s, l)
     | Dir \<Rightarrow> (Inl (ConfigIo (path_display (jf_path src)) (err IsADirectory)), s, l)
     | Socket _ \<Rightarrow> (Inl (ConfigIo (path_display (jf_path src)) (err OtherKind)), s, l))"
  using assms
  by (auto simp: try_reload_def load_def read_to_string_def config_io_at_def replace_def
      split: content.split sum.split)

theorem reload_follows_file_witness:
  "try_reload (load line_codec (json_file_new ''/etc''))
     (set_node [RootDir, Normal ''etc''] (Some \<lparr>content = Dir, mode = 493\<rparr>) etc_sys, live_new ''old'') =
   (Inl (ConfigIo ''/etc'' (err IsADirectory)),
    set_node [RootDir, Normal ''etc''] (Some \<lparr>content = Dir, mode = 493\<rparr>) etc_sys, live_new ''old'')"
proof -
  have "key ''/etc'' = [RootDir, Normal ''etc'']" "path_display ''/etc'' = ''/etc''" by code_simp+
  then show ?thesis
    using reload_follows_file [of "set_node [RootDir, Normal ''etc''] (Some \<lparr>content = Dir, mode = 493\<rparr>) etc_sys"
        "json_file_new ''/etc''" "\<lparr>content = Dir, mode = 493\<rparr>" line_codec "live_new ''old''"]
    by (simp add: json_file_new_def etc_facts(3) fun_eq_iff)
qed

section \<open>From the data directory to the watcher\<close>

text \<open>
  The configuration file of a service is watched under its own name. For an ordinary service and
  extension and any data root, the file spec of \<open>etc_file\<close> reacts to an event on exactly the paths
  that end in that file name, the file itself among them.
\<close>

theorem service_config_is_watched:
  assumes "plain_name name" and "plain_name ext" and "root_path d \<noteq> []"
    and "utf8_valid (name @ ''.'' @ ext)" and "\<not> is_junk_name (name @ ''.'' @ ext)"
  shows "is_relevant_path (etc_file d name ext) (ws_filter (watch_file (etc_file d name ext))) \<and>
    (is_relevant_path q (ws_filter (watch_file (etc_file d name ext))) \<longleftrightarrow>
       file_name q = Some (name @ ''.'' @ ext))"
proof -
  have "components (etc_file d name ext) = components (root_path d) @ [Normal ''etc'', Normal (name @ ''.'' @ ext)]"
    using assms(1-3) by (intro components_etc_file) (simp_all add: plain_name_def)
  then have "file_name (etc_file d name ext) = Some (name @ ''.'' @ ext)" by (simp add: file_name_def)
  from file_spec_relevant [OF this assms(4)] this assms(5) show ?thesis by simp
qed

theorem service_config_is_watched_witness:
  "is_relevant_path ''/tmp/net.json''
     (ws_filter (watch_file (etc_file (from_path ''/data'') ''net'' ''json'')))"
proof -
  have names: "plain_name ''net''" "plain_name ''json''" by (auto simp: plain_name_def is_sep_def)
  have name: "utf8_valid (''net'' @ ''.'' @ ''json'')" "\<not> is_junk_name (''net'' @ ''.'' @ ''json'')"
    "file_name ''/tmp/net.json'' = Some (''net'' @ ''.'' @ ''json'')"
    by code_simp+
  show ?thesis
    using service_config_is_watched [OF names _ name(1,2), of "from_path ''/data''" "''/tmp/net.json''"] name(3)
    by (simp add: from_path_def)
qed

end
